(* ===== verification/Prelude.thy ===== *)
theory Prelude
  imports Main "HOL-Library.Word" "HOL-Library.Sublist"
begin

text \<open>
  Shared vocabulary of the development: the machine types of the C code (x86-64, so pointers,
  \<open>size_t\<close>, \<open>off_t\<close> and \<open>unsigned long\<close> are 64-bit words and bytes are 8-bit words), the result
  type of code that may stop the process, little-endian encodings and the interface every
  fixed-width encoding of a C object satisfies, C strings, and arithmetic of pages on words.
\<close>

unbundle bit_operations_syntax

section \<open>Machine types\<close>

type_synonym byte = "8 word"
type_synonym u32 = "32 word"
type_synonym u64 = "64 word"
type_synonym va = "64 word"

named_theorems run_simps \<open>equations that push a result through the stopping cases\<close>
named_theorems codec_simps \<open>lengths and round trips of encodings\<close>

section \<open>Code that may stop the process\<close>

text \<open>
  \<open>abort()\<close>, a failed \<open>assert\<close>, \<open>exit(n)\<close> and a store the processor refuses all end the process;
  nothing after them runs. A function of the source that may reach one of them returns a
  sum with the reason on the left.
\<close>

datatype halt = Abort | AssertFail | Exit int | Segv

type_synonym 'a run = "halt + 'a"

fun andThen :: "'a run \<Rightarrow> ('a \<Rightarrow> 'b run) \<Rightarrow> 'b run" where
  "andThen (Inl h) f = Inl h"
| "andThen (Inr x) f = f x"

declare andThen.simps [run_simps]

lemma andThen_Inr_iff [run_simps]:
  "andThen r f = Inr y \<longleftrightarrow> (\<exists>x. r = Inr x \<and> f x = Inr y)"
  by (cases r) auto

lemma andThen_assoc: "andThen (andThen r f) g = andThen r (\<lambda>x. andThen (f x) g)"
  by (cases r) auto

lemma andThen_Inr_right: "andThen r Inr = r"
  by (cases r) auto

section \<open>C strings\<close>

definition bytes_of :: "string \<Rightarrow> byte list" where
  "bytes_of s = map of_char s"

lemma length_bytes_of [simp]: "length (bytes_of s) = length s"
  by (simp add: bytes_of_def)

text \<open>The C string held by an array: its bytes before the first NUL.\<close>

definition cstr :: "byte list \<Rightarrow> byte list" where
  "cstr bs = takeWhile (\<lambda>b. b \<noteq> 0) bs"

lemma cstr_append_nul: "0 \<notin> set s \<Longrightarrow> cstr (s @ 0 # r) = s"
  unfolding cstr_def by (induction s) auto

lemma zero_notin_cstr: "0 \<notin> set (cstr bs)"
  unfolding cstr_def by (auto dest: set_takeWhileD)

lemma cstr_ident: "0 \<notin> set s \<Longrightarrow> cstr s = s"
  unfolding cstr_def by (induction s) auto

text \<open>\<open>strstr\<close>, as the test the code makes of it: does the needle occur in the haystack?\<close>

fun strstr :: "'a list \<Rightarrow> 'a list \<Rightarrow> bool" where
  "strstr [] needle \<longleftrightarrow> needle = []"
| "strstr (c # hay) needle \<longleftrightarrow> prefix needle (c # hay) \<or> strstr hay needle"

lemma strstr_iff_sublist: "strstr hay needle \<longleftrightarrow> sublist needle hay"
  by (induction hay) (auto simp: sublist_Cons_right)

section \<open>Little-endian encodings\<close>

fun le_bytes :: "nat \<Rightarrow> 'a::len word \<Rightarrow> byte list" where
  "le_bytes 0 w = []"
| "le_bytes (Suc n) w = ucast w # le_bytes n (drop_bit 8 w)"

fun le_word :: "byte list \<Rightarrow> 'a::len word" where
  "le_word [] = 0"
| "le_word (b # bs) = ucast b OR push_bit 8 (le_word bs)"

lemma length_le_bytes [simp, codec_simps]: "length (le_bytes n w) = n"
  by (induction n arbitrary: w) auto

lemma le_word_le_bytes: "le_word (le_bytes n w) = take_bit (8 * n) (w :: 'a::len word)"
proof (induction n arbitrary: w)
  case 0
  then show ?case by simp
next
  case (Suc n)
  show ?case
    by (simp add: Suc) (rule bit_word_eqI, auto simp: bit_simps not_less)
qed

lemma le_word_u64 [codec_simps]: "le_word (le_bytes 8 w) = (w :: u64)"
  by (simp add: le_word_le_bytes take_bit_word_eq_self)

lemma le_word_u32 [codec_simps]: "le_word (le_bytes 4 w) = (w :: u32)"
  by (simp add: le_word_le_bytes take_bit_word_eq_self)

lemma le_bytes_8: "le_bytes 8 (w :: 'a::len word) =
  [ucast w, ucast (drop_bit 8 w), ucast (drop_bit 16 w), ucast (drop_bit 24 w),
   ucast (drop_bit 32 w), ucast (drop_bit 40 w), ucast (drop_bit 48 w), ucast (drop_bit 56 w)]"
  by (simp add: eval_nat_numeral)

section \<open>Lists\<close>

lemma replicate_numeral: "replicate (numeral k) x = x # replicate (pred_numeral k) x"
  by (simp add: numeral_eq_Suc)

lemma drop_take_glue:
  assumes "i \<le> j" "j \<le> k"
  shows "drop i (take j xs) @ drop j (take k xs) = drop i (take k xs)"
proof -
  let ?ys = "take k xs"
  have "drop i (take j ?ys @ drop j ?ys) =
      drop i (take j ?ys) @ drop (i - length (take j ?ys)) (drop j ?ys)"
    by (rule drop_append)
  also have "drop (i - length (take j ?ys)) (drop j ?ys) = drop j ?ys"
    using assms(1) by (cases "j \<le> length ?ys") auto
  finally have "drop i ?ys = drop i (take j ?ys) @ drop j ?ys" by (simp only: append_take_drop_id)
  moreover have "take j ?ys = take j xs" using assms(2) by (simp add: min.absorb1)
  ultimately show ?thesis by simp
qed

section \<open>The interface of a fixed-width encoding\<close>

text \<open>
  What code relies on when it writes a C object to a file and reads it back: every object
  of the type (\<open>ok\<close>) takes the same number of bytes, and the bytes determine it.
\<close>

locale codec =
  fixes enc :: "'a \<Rightarrow> byte list"
    and dec :: "byte list \<Rightarrow> 'a"
    and wid :: nat
    and ok :: "'a \<Rightarrow> bool"
  assumes length_enc: "ok x \<Longrightarrow> length (enc x) = wid"
    and dec_enc: "ok x \<Longrightarrow> dec (enc x) = x"
begin

lemma dec_take: "ok x \<Longrightarrow> dec (take wid (enc x @ r)) = x"
  by (simp add: length_enc dec_enc)

lemma drop_enc: "ok x \<Longrightarrow> drop wid (enc x @ r) = r"
  by (simp add: length_enc)

lemma enc_inj: "ok x \<Longrightarrow> ok y \<Longrightarrow> enc x = enc y \<Longrightarrow> x = y"
  by (metis dec_enc)

lemma enc_append_inj: "ok x \<Longrightarrow> ok y \<Longrightarrow> enc x @ r = enc y @ s \<Longrightarrow> x = y \<and> r = s"
  by (metis dec_take drop_enc)

end

interpretation u64_codec: codec "le_bytes 8" "le_word :: byte list \<Rightarrow> u64" 8 "\<lambda>_. True"
  by unfold_locales (simp_all add: codec_simps)

interpretation u32_codec: codec "le_bytes 4" "le_word :: byte list \<Rightarrow> u32" 4 "\<lambda>_. True"
  by unfold_locales (simp_all add: codec_simps)

section \<open>Pages\<close>

lemma unat_u64: "unat (x :: u64) < 2 ^ 64"
proof -
  have "unat x < 2 ^ LENGTH(64)" by (rule unsigned_less)
  then show ?thesis by simp
qed

lemma not_mask_eq_push_drop: "(x :: 'a::len word) AND NOT (mask n) = push_bit n (drop_bit n x)"
  by (rule bit_word_eqI) (auto simp: bit_simps)

lemma unat_and_not_mask:
  fixes x :: u64
  assumes "n < 64"
  shows "unat (x AND NOT (mask n)) = unat x div 2 ^ n * 2 ^ n"
proof -
  have le: "unat x div 2 ^ n * 2 ^ n \<le> unat x" by simp
  have tb: "take_bit 64 (unat x) = unat x"
    using unat_u64 [of x] by (simp add: take_bit_nat_eq_self_iff)
  have "unat (push_bit n (drop_bit n x)) = take_bit 64 (push_bit n (drop_bit n (unat x)))"
    by (simp add: unsigned_push_bit_eq unsigned_drop_bit_eq tb)
  also have "\<dots> = (unat x div 2 ^ n * 2 ^ n) mod 2 ^ 64"
    by (simp add: take_bit_eq_mod push_bit_eq_mult drop_bit_eq_div)
  also have "\<dots> = unat x div 2 ^ n * 2 ^ n"
    by (rule mod_less) (rule le_less_trans [OF le unat_u64])
  finally show ?thesis by (simp add: not_mask_eq_push_drop)
qed

section \<open>Signed readings of words\<close>

lemma sint_small:
  assumes "unat (x :: 'a::len word) < 2 ^ (LENGTH('a) - 1)"
  shows "sint x = int (unat x)"
proof -
  have "int (unat x) < int (2 ^ (LENGTH('a) - 1))" using assms by (simp only: of_nat_less_iff)
  then have "uint x < 2 ^ (LENGTH('a) - 1)" by simp
  then have "signed_take_bit (LENGTH('a) - 1) (uint x) = uint x"
    by (intro signed_take_bit_int_eq_self) (auto intro: order_trans [where y = 0])
  then show ?thesis by (simp add: sint_uint)
qed

lemma not_negative_u64: "unat x < 2 ^ 63 \<Longrightarrow> \<not> (x :: u64) <s 0"
  using sint_small [of x] by (simp add: word_sless_alt)

lemma positive_u32:
  assumes "0 < unat (x :: u32)" "unat x < 2 ^ 31" shows "0 <s x"
proof -
  have "sint x = int (unat x)" by (rule sint_small) (use assms(2) in simp)
  moreover have "0 < int (unat x)" using assms(1) by (simp only: of_nat_0_less_iff)
  ultimately show ?thesis by (simp only: word_sless_alt sint_0)
qed

end
