(* ===== verification/Common.thy ===== *)
theory Common
  imports Prelude
begin

text \<open>
  The declarations every source file shares: the page macros, the two lower-half records and
  the list of MPI functions of \<open>common.h\<close>, the region predicates and the checkpoint states of
  \<open>ckpt-restart.h\<close>, and the protection and mapping flags of \<open>sys/mman.h\<close> with their x86-64
  Linux values.
\<close>

section \<open>Flags\<close>

definition PROT_NONE :: u32 where "PROT_NONE = 0"
definition PROT_READ :: u32 where "PROT_READ = 1"
definition PROT_WRITE :: u32 where "PROT_WRITE = 2"
definition PROT_EXEC :: u32 where "PROT_EXEC = 4"
definition MAP_SHARED :: u32 where "MAP_SHARED = 1"
definition MAP_PRIVATE :: u32 where "MAP_PRIVATE = 2"
definition MAP_FIXED :: u32 where "MAP_FIXED = 16"
definition MAP_ANONYMOUS :: u32 where "MAP_ANONYMOUS = 32"
definition MAP_GROWSDOWN :: u32 where "MAP_GROWSDOWN = 256"
definition MAP_FAILED :: va where "MAP_FAILED = -1"

lemmas flag_defs = PROT_NONE_def PROT_READ_def PROT_WRITE_def PROT_EXEC_def MAP_SHARED_def
  MAP_PRIVATE_def MAP_FIXED_def MAP_ANONYMOUS_def MAP_GROWSDOWN_def

text \<open>\<open>p & flag\<close> used as a condition.\<close>

definition has_flag :: "u32 \<Rightarrow> u32 \<Rightarrow> bool" where
  "has_flag p flag \<longleftrightarrow> p AND flag \<noteq> 0"

lemma has_flag_OR [simp]: "has_flag (p OR q) f \<longleftrightarrow> has_flag p f \<or> has_flag q f"
  by (simp add: has_flag_def word_ao_dist or_eq_0_iff)

section \<open>Pages\<close>

lemma mult_div_exact: "n mod d = 0 \<Longrightarrow> n div d * d = (n :: nat)"
  using div_mult_mod_eq [of n d] by simp

definition PAGE_SIZE :: u64 where "PAGE_SIZE = 0x1000"

definition ROUND_DOWN :: "u64 \<Rightarrow> u64" where
  "ROUND_DOWN x = x AND NOT (PAGE_SIZE - 1)"

definition ROUND_UP :: "u64 \<Rightarrow> u64" where
  "ROUND_UP x = (x + PAGE_SIZE - 1) AND NOT (PAGE_SIZE - 1)"

definition PAGE_OFFSET :: "u64 \<Rightarrow> u64" where
  "PAGE_OFFSET x = x AND (PAGE_SIZE - 1)"

lemma PAGE_SIZE_mask: "PAGE_SIZE - 1 = mask 12"
  by (simp add: PAGE_SIZE_def mask_numeral)

lemma unat_ROUND_DOWN: "unat (ROUND_DOWN x) = unat x div 4096 * 4096"
  using unat_and_not_mask [of 12 x] by (simp add: ROUND_DOWN_def PAGE_SIZE_mask)

lemma unat_PAGE_OFFSET: "unat (PAGE_OFFSET x) = unat x mod 4096"
proof -
  have "unat (take_bit 12 x) = take_bit 12 (unat x)"
    by (simp add: unsigned_take_bit_eq)
  then show ?thesis
    by (simp add: PAGE_OFFSET_def PAGE_SIZE_mask take_bit_eq_mask take_bit_eq_mod flip: take_bit_eq_mask)
qed

lemma unat_ROUND_UP:
  assumes "unat x + 4095 < 2 ^ 64"
  shows "unat (ROUND_UP x) = (unat x + 4095) div 4096 * 4096"
proof -
  have "unat (x + PAGE_SIZE - 1) = unat x + 4095"
    using assms by (simp add: PAGE_SIZE_def unat_word_ariths)
  then show ?thesis
    using unat_and_not_mask [of 12 "x + PAGE_SIZE - 1"] by (simp add: ROUND_UP_def PAGE_SIZE_mask)
qed

text \<open>Rounding the last page of the address space up wraps around to 0.\<close>

lemma ROUND_UP_wraps:
  assumes "2 ^ 64 \<le> unat x + 4095"
  shows "ROUND_UP x = 0"
proof -
  have "unat (x + 4095) < 4096"
    using assms unat_u64 [of x] by (simp add: unat_plus_if')
  then have "unat (ROUND_UP x) = 0"
    using unat_and_not_mask [of 12 "x + PAGE_SIZE - 1"]
    by (simp add: ROUND_UP_def PAGE_SIZE_mask) (simp add: PAGE_SIZE_def add.commute)
  then show ?thesis by (simp add: unat_eq_zero)
qed

definition page_aligned :: "va \<Rightarrow> bool" where
  "page_aligned a \<longleftrightarrow> PAGE_OFFSET a = 0"

lemma page_aligned_iff: "page_aligned a \<longleftrightarrow> unat a mod 4096 = 0"
  using unat_PAGE_OFFSET [of a] by (auto simp: page_aligned_def unat_eq_zero)

lemma page_aligned_ROUND_DOWN [simp, intro]: "page_aligned (ROUND_DOWN x)"
  by (simp add: page_aligned_iff unat_ROUND_DOWN)

lemma page_aligned_ROUND_UP [simp, intro]: "page_aligned (ROUND_UP x)"
  by (cases "unat x + 4095 < 2 ^ 64")
     (simp_all add: page_aligned_iff unat_ROUND_UP ROUND_UP_wraps not_less)

lemma ROUND_DOWN_aligned: "page_aligned x \<Longrightarrow> ROUND_DOWN x = x"
  by (rule word_unat_eq_iff [THEN iffD2])
     (simp add: page_aligned_iff unat_ROUND_DOWN mult_div_exact)

text \<open>Arithmetic of rounding on \<open>nat\<close>, the only place where division is unfolded.\<close>

lemma round_up_nat_bounds:
  fixes n :: nat
  shows "n \<le> (n + 4095) div 4096 * 4096" "(n + 4095) div 4096 * 4096 < n + 4096"
  using div_mult_mod_eq [of "n + 4095" 4096] mod_less_divisor [of 4096 "n + 4095"] by linarith+

lemma round_up_nat_aligned:
  fixes n :: nat
  assumes "n mod 4096 = 0"
  shows "(n + 4095) div 4096 * 4096 = n"
proof -
  have "(n + 4095) div 4096 = n div 4096"
    using assms by (simp add: div_add1_eq)
  then show ?thesis using assms by (simp add: mult_div_exact)
qed

lemma aligned_top:
  assumes "page_aligned x" shows "unat x + 4095 < 2 ^ 64"
proof -
  obtain k where k: "unat x = 4096 * k"
    using assms by (auto simp: page_aligned_iff mod_eq_0_iff_dvd dvd_def)
  then have "4096 * k < 4096 * 2 ^ 52" using unat_u64 [of x] by simp
  then have "k \<le> 2 ^ 52 - 1" by simp
  then have "4096 * k \<le> 4096 * (2 ^ 52 - 1)" by (rule mult_le_mono2)
  then show ?thesis using k by simp
qed

lemma ROUND_UP_aligned: "page_aligned x \<Longrightarrow> ROUND_UP x = x"
  using unat_ROUND_UP [OF aligned_top, of x] round_up_nat_aligned [of "unat x"]
  by (simp add: word_unat_eq_iff page_aligned_iff)

lemma ROUND_UP_bounds:
  assumes "unat x + 4095 < 2 ^ 64"
  shows "unat x \<le> unat (ROUND_UP x)" "unat (ROUND_UP x) < unat x + 4096"
  using round_up_nat_bounds [of "unat x"] by (simp_all only: unat_ROUND_UP [OF assms])

section \<open>Address ranges\<close>

text \<open>
  The addresses \<open>a, a + 1, \<dots>, a + n - 1\<close>, by a test that stays right when the range runs over
  the end of the address space: the offset from \<open>a\<close>, taken modulo \<open>2 ^ 64\<close>, is below \<open>n\<close>.
\<close>

definition in_range :: "va \<Rightarrow> u64 \<Rightarrow> va \<Rightarrow> bool" where
  "in_range a n x \<longleftrightarrow> x - a < n"

definition no_wrap :: "va \<Rightarrow> u64 \<Rightarrow> bool" where
  "no_wrap a n \<longleftrightarrow> unat a + unat n < 2 ^ 64"

lemma unat_end: "no_wrap a n \<Longrightarrow> unat (a + n) = unat a + unat n"
  by (simp add: no_wrap_def unat_word_ariths)

lemma in_range_unat:
  assumes "no_wrap a n"
  shows "in_range a n x \<longleftrightarrow> unat a \<le> unat x \<and> unat x < unat a + unat n"
proof (cases "unat a \<le> unat x")
  case True
  then show ?thesis
    by (auto simp: in_range_def word_less_nat_alt unat_sub_if')
next
  case False
  then have "unat (x - a) = unat x + 2 ^ 64 - unat a" by (simp add: unat_sub_if')
  then show ?thesis
    using False assms unat_u64 [of a] by (simp add: in_range_def word_less_nat_alt no_wrap_def)
qed

lemma in_range_zero [simp]: "\<not> in_range a 0 x"
  by (simp add: in_range_def)

lemma in_range_start: "n \<noteq> 0 \<Longrightarrow> in_range a n a"
  by (simp add: in_range_def word_neq_0_conv)

section \<open>Predicates on regions (ckpt-restart.h)\<close>

definition regionContains :: "va \<Rightarrow> va \<Rightarrow> va \<Rightarrow> va \<Rightarrow> bool" where
  "regionContains haystackStart haystackEnd needleStart needleEnd \<longleftrightarrow>
     needleStart \<ge> haystackStart \<and> needleEnd \<le> haystackEnd"

definition doAreasOverlap :: "va \<Rightarrow> u64 \<Rightarrow> va \<Rightarrow> u64 \<Rightarrow> bool" where
  "doAreasOverlap addr1 size1 addr2 size2 =
     (let end1 = addr1 + size1; end2 = addr2 + size2
      in (addr1 \<ge> addr2 \<and> addr1 < end2) \<or> (addr2 \<ge> addr1 \<and> addr2 < end1))"

lemma doAreasOverlap_unat:
  assumes "no_wrap a m" "no_wrap b n"
  shows "doAreasOverlap a m b n \<longleftrightarrow>
    (unat b \<le> unat a \<and> unat a < unat b + unat n) \<or> (unat a \<le> unat b \<and> unat b < unat a + unat m)"
  using assms by (simp add: doAreasOverlap_def Let_def word_le_nat_alt word_less_nat_alt unat_end)

lemma doAreasOverlap_sym: "doAreasOverlap a m b n = doAreasOverlap b n a m"
  by (auto simp: doAreasOverlap_def Let_def)

lemma doAreasOverlap_common:
  assumes "no_wrap a m" "no_wrap b n" "m \<noteq> 0" "n \<noteq> 0"
  shows "doAreasOverlap a m b n \<longleftrightarrow> (\<exists>x. in_range a m x \<and> in_range b n x)"
proof
  assume "doAreasOverlap a m b n"
  then have "in_range a m a \<and> in_range b n a \<or> in_range a m b \<and> in_range b n b"
    using assms in_range_start [of m a] in_range_start [of n b]
    by (auto simp: doAreasOverlap_unat in_range_unat)
  then show "\<exists>x. in_range a m x \<and> in_range b n x" by blast
next
  assume "\<exists>x. in_range a m x \<and> in_range b n x"
  then show "doAreasOverlap a m b n"
    using assms by (auto simp: doAreasOverlap_unat in_range_unat)
qed

text \<open>
  The interval test of \<open>doAreasOverlap\<close> is exact: for two non-empty areas that do not run over
  the end of the address space, it answers 1 exactly when some address lies in both.
\<close>

theorem doAreasOverlap_iff_common_address:
  assumes "no_wrap a m" "no_wrap b n" "m \<noteq> 0" "n \<noteq> 0"
  shows "doAreasOverlap a m b n \<longleftrightarrow> (\<exists>x. in_range a m x \<and> in_range b n x)"
  by (rule doAreasOverlap_common [OF assms])

theorem doAreasOverlap_iff_common_address_witness:
  "doAreasOverlap 0x1000 0x2000 0x2000 0x1000 \<longleftrightarrow>
     (\<exists>x. in_range 0x1000 0x2000 x \<and> in_range 0x2000 0x1000 x)"
  by (rule doAreasOverlap_iff_common_address) (simp_all add: no_wrap_def)

lemma regionContains_subset:
  assumes "no_wrap h m" "no_wrap a n" "n \<noteq> 0"
  shows "regionContains h (h + m) a (a + n) \<longleftrightarrow> (\<forall>x. in_range a n x \<longrightarrow> in_range h m x)"
proof
  assume "regionContains h (h + m) a (a + n)"
  then show "\<forall>x. in_range a n x \<longrightarrow> in_range h m x"
    using assms by (auto simp: regionContains_def in_range_unat word_le_nat_alt unat_end)
next
  assume all: "\<forall>x. in_range a n x \<longrightarrow> in_range h m x"
  have pos: "0 < unat n" using assms(3) by (simp add: unat_gt_0)
  then have last: "unat (a + (n - 1)) = unat a + unat n - 1"
    using assms(2) by (simp add: no_wrap_def unat_word_ariths unat_minus_one assms(3))
  have "in_range a n a" using assms by (simp add: in_range_start)
  moreover have "in_range a n (a + (n - 1))"
    using assms pos last by (simp only: in_range_unat) linarith
  ultimately have "in_range h m a" "in_range h m (a + (n - 1))" using all by blast+
  then show "regionContains h (h + m) a (a + n)"
    using assms(1,2) pos last
    by (auto simp: regionContains_def in_range_unat word_le_nat_alt unat_end)
qed

text \<open>
  Containment of non-empty regions that do not wrap is inclusion of their addresses.
\<close>

theorem regionContains_iff_subset:
  assumes "no_wrap h m" "no_wrap a n" "n \<noteq> 0"
  shows "regionContains h (h + m) a (a + n) \<longleftrightarrow> (\<forall>x. in_range a n x \<longrightarrow> in_range h m x)"
  by (rule regionContains_subset [OF assms])

theorem regionContains_iff_subset_witness:
  "regionContains 0x1000 0x4000 0x2000 0x3000 \<longleftrightarrow>
     (\<forall>x. in_range 0x2000 0x1000 x \<longrightarrow> in_range 0x1000 0x3000 x)"
  using regionContains_iff_subset [of "0x1000" "0x3000" "0x2000" "0x1000"] by (simp add: no_wrap_def)

section \<open>Records and enumerations\<close>

record MmapInfo =
  mi_addr :: va
  mi_len :: u64

record LowerHalfInfo =
  lhSbrk :: va
  lhMmap :: va
  lhDlsym :: va
  lhFsAddr :: u64
  lhMmapListFptr :: va

definition lhinfo_bytes :: "LowerHalfInfo \<Rightarrow> byte list" where
  "lhinfo_bytes i = le_bytes 8 (lhSbrk i) @ le_bytes 8 (lhMmap i) @ le_bytes 8 (lhDlsym i) @
     le_bytes 8 (lhFsAddr i) @ le_bytes 8 (lhMmapListFptr i)"

definition lhinfo_of_bytes :: "byte list \<Rightarrow> LowerHalfInfo" where
  "lhinfo_of_bytes bs = \<lparr>lhSbrk = le_word (take 8 bs), lhMmap = le_word (take 8 (drop 8 bs)),
     lhDlsym = le_word (take 8 (drop 16 bs)), lhFsAddr = le_word (take 8 (drop 24 bs)),
     lhMmapListFptr = le_word (take 8 (drop 32 bs))\<rparr>"

interpretation lhinfo_codec: codec lhinfo_bytes lhinfo_of_bytes 40 "\<lambda>_. True"
  by unfold_locales (simp_all add: lhinfo_bytes_def lhinfo_of_bytes_def codec_simps)

datatype CkptOrRestore = RUNNING | POST_RESUME | POST_RESTART

datatype MPI_Fncs = MPI_Fnc_NULL | MPI_Fnc_Init | MPI_Fnc_Comm_rank | MPI_Fnc_Send | MPI_Fnc_Recv
  | MPI_Fnc_Invalid

fun MPI_Fncs_code :: "MPI_Fncs \<Rightarrow> u32" where
  "MPI_Fncs_code MPI_Fnc_NULL = 0"
| "MPI_Fncs_code MPI_Fnc_Init = 1"
| "MPI_Fncs_code MPI_Fnc_Comm_rank = 2"
| "MPI_Fncs_code MPI_Fnc_Send = 3"
| "MPI_Fncs_code MPI_Fnc_Recv = 4"
| "MPI_Fncs_code MPI_Fnc_Invalid = 5"

end
