(* ===== verification/SysIO.thy ===== *)
theory SysIO
  imports Common
begin

text \<open>
  Files and the retry loops of \<open>utils.c\<close>. An open file is its bytes, its position and the
  interruptions the kernel has in store for the calls on it: each \<open>read\<close> or \<open>write\<close> takes the
  next answer of the list (fail with an error, or transfer at most so many bytes), and once the
  list is used up every call transfers all it can. A finite list covers every run in which the
  calls are disturbed finitely often; a kernel that answers \<open>EINTR\<close> for ever keeps the C loops
  running for ever and is not modelled.
\<close>

datatype errno = EINTR | EAGAIN | EIO | EFAULT | EBADF

datatype answer = Transfer nat | Fail errno

record ofile =
  content :: "byte list"
  pos :: nat
  answers :: "answer list"

definition pending :: "ofile \<Rightarrow> byte list" where
  "pending f = drop (pos f) (content f)"

datatype read_ret = Data "byte list" | ReadErr errno

fun sys_read :: "nat \<Rightarrow> ofile \<Rightarrow> read_ret \<times> ofile" where
  "sys_read count f =
     (case answers f of
        [] \<Rightarrow> (let d = take count (pending f) in (Data d, f\<lparr>pos := pos f + length d\<rparr>))
      | Transfer n # as \<Rightarrow> (let d = take (min n count) (pending f)
                            in (Data d, f\<lparr>pos := pos f + length d, answers := as\<rparr>))
      | Fail e # as \<Rightarrow> (ReadErr e, f\<lparr>answers := as\<rparr>))"

datatype write_ret = Wrote nat | WriteErr errno

text \<open>Bytes stored at the position of the file; a gap before it reads as zeros.\<close>

definition store_at :: "nat \<Rightarrow> byte list \<Rightarrow> byte list \<Rightarrow> byte list" where
  "store_at p d bs = (if d = [] then bs else take p (bs @ replicate (p - length bs) 0) @ d @ drop (p + length d) bs)"

definition put :: "byte list \<Rightarrow> ofile \<Rightarrow> ofile" where
  "put d f = f\<lparr>content := store_at (pos f) d (content f), pos := pos f + length d\<rparr>"

fun sys_write :: "byte list \<Rightarrow> ofile \<Rightarrow> write_ret \<times> ofile" where
  "sys_write d f =
     (case answers f of
        [] \<Rightarrow> (Wrote (length d), put d f)
      | Transfer n # as \<Rightarrow> (Wrote (min n (length d)), (put (take n d) f)\<lparr>answers := as\<rparr>)
      | Fail e # as \<Rightarrow> (WriteErr e, f\<lparr>answers := as\<rparr>))"

declare sys_read.simps [simp del] sys_write.simps [simp del]

definition retry :: "errno \<Rightarrow> bool" where
  "retry e \<longleftrightarrow> e = EINTR \<or> e = EAGAIN"

section \<open>writeAll and readAll\<close>

text \<open>\<open>ssize_t\<close> results are integers; \<open>-1\<close> is the error.\<close>

function writeAll_loop :: "byte list \<Rightarrow> nat \<Rightarrow> ofile \<Rightarrow> int \<times> ofile" where
  "writeAll_loop buf num_written f =
     (case sys_write (drop num_written buf) f of
        (WriteErr e, f') \<Rightarrow>
          if retry e then
            (if num_written < length buf then writeAll_loop buf num_written f'
             else (int num_written, f'))
          else (-1, f')
      | (Wrote n, f') \<Rightarrow>
          if n = 0 then (int num_written, f')
          else if num_written + n < length buf then writeAll_loop buf (num_written + n) f'
          else (int (num_written + n), f'))"
  by pat_completeness auto
termination
  by (relation "measure (\<lambda>(buf, n, f). length (answers f))")
     (auto simp: sys_write.simps split: list.splits answer.splits)

declare writeAll_loop.simps [simp del]

definition writeAll :: "byte list \<Rightarrow> ofile \<Rightarrow> int \<times> ofile" where
  "writeAll buf f = writeAll_loop buf 0 f"

function readAll_loop :: "nat \<Rightarrow> byte list \<Rightarrow> ofile \<Rightarrow> int \<times> byte list \<times> ofile" where
  "readAll_loop count got f =
     (if length got < count then
        (case sys_read (count - length got) f of
           (ReadErr e, f') \<Rightarrow> if retry e then readAll_loop count got f' else (-1, got, f')
         | (Data d, f') \<Rightarrow>
             if d = [] then (int (length got), got, f')
             else readAll_loop count (got @ d) f')
      else (int (length got), got, f))"
  by pat_completeness auto
termination
  by (relation "measure (\<lambda>(count, got, f). length (answers f) + (count - length got))")
     (auto simp: sys_read.simps Let_def min_def split: list.splits answer.splits if_splits
       simp flip: length_greater_0_conv)

declare readAll_loop.simps [simp del]

text \<open>\<open>readAll\<close> returns its result and the bytes it stored at the start of the buffer.\<close>

definition readAll :: "nat \<Rightarrow> ofile \<Rightarrow> int \<times> byte list \<times> ofile" where
  "readAll count f = readAll_loop count [] f"

section \<open>What the loops compute\<close>

text \<open>
  A calm file is one whose calls are only ever interrupted or cut short: no hard error, and no
  call that transfers nothing although it could.
\<close>

definition calm_answer :: "answer \<Rightarrow> bool" where
  "calm_answer a = (case a of Transfer n \<Rightarrow> 0 < n | Fail e \<Rightarrow> retry e)"

definition calm :: "ofile \<Rightarrow> bool" where
  "calm f \<longleftrightarrow> list_all calm_answer (answers f)"

definition at_end :: "ofile \<Rightarrow> bool" where
  "at_end f \<longleftrightarrow> pos f = length (content f)"

text \<open>An open file without the interruptions still to come: its bytes and its position.\<close>

definition erase :: "ofile \<Rightarrow> ofile" where
  "erase f = f\<lparr>answers := []\<rparr>"

lemma erase_eq_iff: "erase f = erase g \<longleftrightarrow> content f = content g \<and> pos f = pos g"
  by (cases f; cases g) (simp add: erase_def)

lemma store_at_store_at:
  "store_at (p + length d) e (store_at p d bs) = store_at p (d @ e) bs"
  by (cases "p \<le> length bs") (auto simp: store_at_def min_def ac_simps)

lemma put_put: "put e (put d f) = put (d @ e) f"
  by (simp add: put_def store_at_store_at add.assoc)

lemma put_Nil [simp]: "put [] f = f"
  by (simp add: put_def store_at_def)

lemma erase_put: "erase (put d f) = put d (erase f)"
  by (simp add: put_def erase_def)

lemma erase_answers [simp]: "erase (f\<lparr>answers := as\<rparr>) = erase f"
  by (simp add: erase_def)

lemma put_at_end: "at_end f \<Longrightarrow> content (put d f) = content f @ d \<and> at_end (put d f)"
  by (simp add: put_def at_end_def store_at_def)

lemma answers_put [simp]: "answers (put d f) = answers f"
  by (simp add: put_def)

lemma pending_advance: "pending (f\<lparr>pos := pos f + n\<rparr>) = drop n (pending f)"
  by (simp add: pending_def add.commute)

lemma pending_answers [simp]: "pending (f\<lparr>answers := as\<rparr>) = pending f"
  by (simp add: pending_def)

lemma calm_simps [simp]:
  "calm (f\<lparr>pos := p\<rparr>) = calm f" "calm (f\<lparr>content := c\<rparr>) = calm f"
  "calm (f\<lparr>answers := as\<rparr>) = list_all calm_answer as" "calm (put d f) = calm f"
  by (simp_all add: calm_def)

text \<open>One call of \<open>write\<close>: it appends a prefix of its buffer and keeps the file calm.\<close>

lemma sys_write_cases:
  assumes "sys_write d f = (r, f')"
  obtains (wrote) n where "r = Wrote n" "n \<le> length d" "erase f' = erase (put (take n d) f)"
      "calm f \<Longrightarrow> calm f'" "calm f \<Longrightarrow> d \<noteq> [] \<Longrightarrow> 0 < n" 
    | (failed) e where "r = WriteErr e" "erase f' = erase f" "calm f \<Longrightarrow> calm f'" "calm f \<Longrightarrow> retry e"
proof (cases "answers f")
  case Nil
  then show thesis using assms that(1) [of "length d"] by (auto simp: sys_write.simps)
next
  case (Cons a as)
  show thesis
  proof (cases a)
    case (Transfer n)
    have "erase f' = erase (put (take (min n (length d)) d) f)"
      using assms Cons Transfer by (auto simp: sys_write.simps min_def)
    then show thesis
      using assms Cons Transfer that(1) [of "min n (length d)"]
      by (auto simp: sys_write.simps calm_def calm_answer_def)
  next
    case (Fail e)
    then show thesis
      using assms Cons that(2) [of e] by (auto simp: sys_write.simps calm_def calm_answer_def)
  qed
qed

text \<open>
  However the kernel answers, \<open>writeAll\<close> has written some prefix of the buffer at the position
  of the file, and its result is the length of that prefix or \<open>-1\<close>.
\<close>

lemma writeAll_loop_result:
  assumes "writeAll_loop buf nw f = (rc, f')" "nw \<le> length buf"
  shows "\<exists>n. nw \<le> n \<and> n \<le> length buf \<and> erase f' = erase (put (drop nw (take n buf)) f) \<and>
           (rc = -1 \<or> rc = int n) \<and> (calm f \<longrightarrow> calm f' \<and> rc = int (length buf))"
  using assms
proof (induction buf nw f arbitrary: rc f' rule: writeAll_loop.induct)
  case (1 buf nw f)
  obtain r g where w: "sys_write (drop nw buf) f = (r, g)" by fastforce
  note unfolded = "1.prems"(1) [unfolded writeAll_loop.simps [of buf nw f] w]
  from w show ?case
  proof (cases rule: sys_write_cases)
    case (wrote n)
    note IH = "1.IH"(1) [OF w [symmetric] wrote(1)]
    have upto: "drop nw (take (nw + n) buf) = take n (drop nw buf)"
      by (simp add: take_drop add.commute)
    show ?thesis
    proof (cases "n \<noteq> 0 \<and> nw + n < length buf")
      case True
      with unfolded wrote have "writeAll_loop buf (nw + n) g = (rc, f')" by simp
      from IH [OF _ _ this] True obtain n' where n': "nw + n \<le> n'" "n' \<le> length buf"
        "erase f' = erase (put (drop (nw + n) (take n' buf)) g)" "rc = -1 \<or> rc = int n'"
        "calm g \<longrightarrow> calm f' \<and> rc = int (length buf)" by auto
      have "take n (drop nw buf) @ drop (nw + n) (take n' buf) = drop nw (take n' buf)"
        using drop_take_glue [of nw "nw + n" n' buf] n'(1) by (simp only: upto)
      then have "erase f' = erase (put (drop nw (take n' buf)) f)"
        using n'(3) wrote(3) by (simp only: erase_put put_put)
      then show ?thesis using n' wrote(4) by (intro exI [of _ n']) auto
    next
      case False
      with unfolded wrote "1.prems"(2) have "f' = g" "rc = int (nw + n)" by (auto split: if_splits)
      moreover have "calm f \<Longrightarrow> nw + n = length buf"
        using False wrote(2,5) "1.prems"(2) by fastforce
      ultimately show ?thesis
        using wrote upto "1.prems"(2) by (intro exI [of _ "nw + n"]) auto
    qed
  next
    case (failed e)
    note IH = "1.IH"(2) [OF w [symmetric] failed(1)]
    show ?thesis
    proof (cases "retry e \<and> nw < length buf")
      case True
      with unfolded failed have "writeAll_loop buf nw g = (rc, f')" by simp
      from IH [OF _ _ this] True "1.prems"(2) failed show ?thesis
        by (fastforce simp: erase_put)
    next
      case False
      with unfolded failed "1.prems"(2) have "f' = g" "rc = -1 \<or> rc = int nw" "retry e \<Longrightarrow> rc = int nw"
        by (auto split: if_splits)
      then show ?thesis
        using failed False "1.prems"(2) by (intro exI [of _ nw]) auto
    qed
  qed
qed

text \<open>
  C14. Whatever the kernel does, \<open>writeAll\<close> leaves the file with some prefix of the buffer stored at
  its position and nothing else changed, and answers the length of that prefix or \<open>-1\<close>.
\<close>

theorem writeAll_prefix:
  assumes "writeAll buf f = (rc, f')"
  shows "\<exists>n \<le> length buf. erase f' = erase (put (take n buf) f) \<and> (rc = -1 \<or> rc = int n)"
  using writeAll_loop_result [of buf 0 f rc f'] assms by (auto simp: writeAll_def)

theorem writeAll_prefix_witness:
  "\<exists>n \<le> length [1, 2, 3 :: byte].
     erase \<lparr>content = [1, 2], pos = 2, answers = []\<rparr> =
       erase (put (take n [1, 2, 3]) \<lparr>content = [], pos = 0, answers = [Transfer 2, Fail EIO]\<rparr>) \<and>
     ((-1 :: int) = -1 \<or> (-1 :: int) = int n)"
  by (rule writeAll_prefix)
     (simp add: writeAll_def writeAll_loop.simps sys_write.simps put_def store_at_def retry_def)

lemma writeAll_calm:
  assumes "calm f"
  shows "fst (writeAll buf f) = int (length buf)"
    and "erase (snd (writeAll buf f)) = erase (put buf f)"
    and "calm (snd (writeAll buf f))"
proof -
  obtain rc f' where w: "writeAll buf f = (rc, f')" by fastforce
  then show "fst (writeAll buf f) = int (length buf)"
    and "erase (snd (writeAll buf f)) = erase (put buf f)"
    and "calm (snd (writeAll buf f))"
    using writeAll_loop_result [of buf 0 f rc f'] assms by (auto simp: writeAll_def)
qed

text \<open>
  C15. On a file whose calls are only interrupted or cut short, \<open>writeAll\<close> stores the whole buffer at
  the position of the file and answers its length.
\<close>

theorem writeAll_complete:
  assumes "calm f"
  shows "\<exists>f'. writeAll buf f = (int (length buf), f') \<and> erase f' = erase (put buf f) \<and> calm f'"
  using writeAll_calm [OF assms, of buf] by (metis prod.collapse)

theorem writeAll_complete_witness:
  "\<exists>f'. writeAll [5, 6, 7] \<lparr>content = [1, 2], pos = 2, answers = [Transfer 1, Fail EINTR, Transfer 1]\<rparr> =
      (3, f') \<and> content f' = [1, 2, 5, 6, 7] \<and> pos f' = 5 \<and> calm f'"
  using writeAll_complete [of "\<lparr>content = [1, 2], pos = 2, answers = [Transfer 1, Fail EINTR, Transfer 1]\<rparr>"
      "[5, 6, 7]"]
  by (auto simp: calm_def calm_answer_def retry_def put_def store_at_def erase_eq_iff)

lemma writeAll_append:
  assumes "calm f" "at_end f"
  obtains f' where "writeAll buf f = (int (length buf), f')" "content f' = content f @ buf"
    "at_end f'" "calm f'"
proof -
  obtain rc f' where w: "writeAll buf f = (rc, f')" by fastforce
  with writeAll_calm [OF assms(1), of buf] have *: "rc = int (length buf)" "calm f'"
      "erase f' = erase (put buf f)" by simp_all
  then have "content f' = content f @ buf" "at_end f'"
    using put_at_end [OF assms(2), of buf] by (auto simp: erase_eq_iff at_end_def)
  with w * show thesis using that by simp
qed

section \<open>Reading\<close>

lemma sys_read_cases:
  assumes "sys_read n f = (r, f')"
  obtains (data) k where "r = Data (take k (pending f))" "k \<le> length (pending f)" "k \<le> n"
      "pending f' = drop k (pending f)" "content f' = content f" "calm f \<Longrightarrow> calm f'"
      "calm f \<Longrightarrow> k = 0 \<Longrightarrow> n = 0 \<or> pending f = []"
    | (failed) e where "r = ReadErr e" "pending f' = pending f" "content f' = content f"
      "calm f \<Longrightarrow> calm f'" "calm f \<Longrightarrow> retry e"
proof (cases "answers f")
  case Nil
  show thesis
    by (rule that(1) [of "min n (length (pending f))"])
       (use assms Nil in \<open>auto simp: sys_read.simps Let_def pending_advance min_def split: if_splits\<close>)
next
  case (Cons a as)
  show thesis
  proof (cases a)
    case (Transfer k)
    have *: "r = Data (take (min k n) (pending f))" "f' = f\<lparr>pos := pos f +
        min (length (pending f)) (min k n), answers := as\<rparr>"
      using assms Cons Transfer by (auto simp: sys_read.simps Let_def)
    have "0 < k" if "calm f" using that Cons Transfer by (simp add: calm_def calm_answer_def)
    then show thesis
      using Cons * by (intro that(1) [of "min (length (pending f)) (min k n)"])
        (auto simp: pending_def calm_def min_def add.commute split: if_splits)
  next
    case (Fail e)
    then show thesis
      using assms Cons that(2) [of e] by (auto simp: sys_read.simps calm_def calm_answer_def)
  qed
qed

lemma readAll_loop_result:
  assumes "readAll_loop count got f = (rc, got', f')" "length got \<le> count"
  shows "\<exists>n \<le> length (pending f). got' = got @ take n (pending f) \<and> length got' \<le> count \<and>
     pending f' = drop n (pending f) \<and> content f' = content f \<and>
     (rc = -1 \<or> rc = int (length got')) \<and>
     (calm f \<longrightarrow> calm f' \<and> rc = int (length got') \<and>
        n = min (count - length got) (length (pending f)))"
  using assms
proof (induction count got f arbitrary: rc got' f' rule: readAll_loop.induct)
  case (1 count got f)
  show ?case
  proof (cases "length got < count")
    case False
    then show ?thesis
      using "1.prems" by (intro exI [of _ 0]) (auto simp: readAll_loop.simps [of count got f])
  next
    case short: True
    obtain r g where rd: "sys_read (count - length got) f = (r, g)" by fastforce
    note unfolded = "1.prems"(1) [unfolded readAll_loop.simps [of count got f] rd]
    from rd show ?thesis
    proof (cases rule: sys_read_cases)
      case (data k)
      let ?d = "take k (pending f)"
      show ?thesis
      proof (cases "?d = []")
        case True
        then have "k = 0 \<or> pending f = []" "g = f'" "rc = int (length got)" "got' = got"
          using unfolded short data(1) by auto
        then show ?thesis
          using short data(4-7) by (intro exI [of _ 0]) auto
      next
        case False
        with unfolded short data(1) have "readAll_loop count (got @ ?d) g = (rc, got', f')" by simp
        moreover have "length (got @ ?d) \<le> count" using data(2,3) short by simp
        ultimately obtain n where n: "n \<le> length (pending g)" "got' = (got @ ?d) @ take n (pending g)"
          "length got' \<le> count" "pending f' = drop n (pending g)" "content f' = content g"
          "rc = -1 \<or> rc = int (length got')"
          "calm g \<longrightarrow> calm f' \<and> rc = int (length got') \<and>
             n = min (count - length (got @ ?d)) (length (pending g))"
          using "1.IH"(1) [OF short rd [symmetric] data(1) False] by blast
        have "got' = got @ take (k + n) (pending f)"
          using n(2) data(4) by (simp add: take_add)
        moreover have "k + n \<le> length (pending f)"
          using n(1) data(2,4) by simp
        moreover have "k + min (count - length (got @ ?d)) (length (pending g)) =
            min (count - length got) (length (pending f))"
          using data(2,3,4) short by (simp add: min_def) linarith
        moreover have "pending f' = drop (k + n) (pending f)"
          using n(4) data(4) by (simp add: add.commute)
        ultimately show ?thesis
          using n(3,5,6,7) data(5,6) by (intro exI [of _ "k + n"]) metis
      qed
    next
      case (failed e)
      show ?thesis
      proof (cases "retry e")
        case True
        with unfolded short failed have "readAll_loop count got g = (rc, got', f')" by simp
        from "1.IH"(2) [OF short rd [symmetric] failed(1) True this "1.prems"(2)] failed
        show ?thesis by auto
      next
        case False
        then show ?thesis using unfolded short failed by (intro exI [of _ 0]) auto
      qed
    qed
  qed
qed

text \<open>
  Whatever the kernel does, \<open>readAll\<close> delivers a prefix of what the file still holds, of at most
  \<open>count\<close> bytes, moves the position past exactly those bytes, and answers their number or \<open>-1\<close>.
\<close>

theorem readAll_prefix:
  assumes "readAll count f = (rc, got, f')"
  shows "got = take (length got) (pending f) \<and> length got \<le> count \<and>
    pending f' = drop (length got) (pending f) \<and> content f' = content f \<and>
    (rc = -1 \<or> rc = int (length got))"
  using readAll_loop_result [of count "[]" f rc got f'] assms by (auto simp: readAll_def min_def)

theorem readAll_prefix_witness:
  "readAll 3 \<lparr>content = [7, 8, 9, 10], pos = 1, answers = [Transfer 1, Fail EINTR, Fail EIO]\<rparr> =
     (-1, [8], \<lparr>content = [7, 8, 9, 10], pos = 2, answers = []\<rparr>) \<and>
   [8 :: byte] = take 1 (pending \<lparr>content = [7, 8, 9, 10], pos = 1, answers = []\<rparr>)"
proof -
  have r: "readAll 3 \<lparr>content = [7, 8, 9, 10], pos = 1, answers = [Transfer 1, Fail EINTR, Fail EIO]\<rparr> =
     (-1, [8], \<lparr>content = [7, 8, 9, 10], pos = 2, answers = []\<rparr>)"
    by (simp add: readAll_def readAll_loop.simps sys_read.simps pending_def retry_def Let_def)
  show ?thesis using r readAll_prefix [OF r] by (simp add: pending_def)
qed

lemma readAll_calm:
  assumes "calm f"
  shows "\<exists>f'. readAll count f =
      (int (length (take count (pending f))), take count (pending f), f') \<and>
    pending f' = drop count (pending f) \<and> content f' = content f \<and> calm f'"
proof -
  obtain rc got f' where r: "readAll count f = (rc, got, f')" by (metis prod_cases3)
  let ?n = "min count (length (pending f))"
  have "got = take ?n (pending f)" "pending f' = drop ?n (pending f)" "rc = int (length got)"
      "content f' = content f" "calm f'"
    using readAll_loop_result [of count "[]" f rc got f'] r assms by (auto simp: readAll_def)
  then show ?thesis using r by (cases "count \<le> length (pending f)") (simp_all add: min_def)
qed

text \<open>
  C16. On a calm file \<open>readAll\<close> delivers all \<open>count\<close> bytes, or all that are left before the end of
  the file, in spite of every interruption and short transfer.
\<close>

theorem readAll_complete:
  assumes "calm f"
  shows "\<exists>f'. readAll count f =
      (int (length (take count (pending f))), take count (pending f), f') \<and>
    pending f' = drop count (pending f) \<and> content f' = content f \<and> calm f'"
  by (rule readAll_calm [OF assms])

theorem readAll_complete_witness:
  "\<exists>f'. readAll 2 \<lparr>content = [7, 8, 9], pos = 1, answers = [Fail EAGAIN, Transfer 1]\<rparr> =
      (int 2, [8, 9], f') \<and> pending f' = [] \<and> content f' = [7, 8, 9] \<and> calm f'"
  using readAll_complete [of "\<lparr>content = [7, 8, 9], pos = 1, answers = [Fail EAGAIN, Transfer 1]\<rparr>" 2]
  by (simp add: calm_def calm_answer_def retry_def pending_def)

section \<open>Reading a C object\<close>

context codec
begin

lemma readAll_enc:
  assumes "ok x" "calm f" "pending f = enc x @ r"
  obtains f' where "readAll wid f = (int wid, enc x, f')" "dec (enc x) = x" "pending f' = r" "calm f'"
proof -
  have "take wid (pending f) = enc x" "drop wid (pending f) = r"
    using assms(1,3) length_enc [OF assms(1)] by simp_all
  with readAll_calm [OF assms(2), of wid] length_enc [OF assms(1)] dec_enc [OF assms(1)] that
  show thesis by auto
qed

end

section \<open>checkLibrary\<close>

definition PATH_MAX :: nat where "PATH_MAX = 4096"

text \<open>
  \<open>checkLibrary\<close> reads the link of \<open>/proc/self/fd/<fd>\<close> (\<open>None\<close>: the call failed) and looks for the
  name in it; on a hit it copies at most \<open>sz\<close> bytes of the path out.
\<close>

definition checkLibrary :: "byte list option \<Rightarrow> byte list \<Rightarrow> nat \<Rightarrow> int \<times> byte list" where
  "checkLibrary link name sz =
     (case link of None \<Rightarrow> (0, [])
      | Some target \<Rightarrow>
          (let fullPath = cstr (take PATH_MAX target)
           in if strstr fullPath name then (1, take sz fullPath) else (0, [])))"

end
