(* ===== verification/Machine.thy ===== *)
theory Machine
  imports SysIO
begin

text \<open>
  The process and the kernel under it. A machine state is the memory of the process, the
  protection of every mapped address, the \<open>fs\<close> base, the file system and the paths of the open
  descriptors; the states of the C modules extend it. What the kernel decides by itself
  is a parameter: where a mapping goes or that it is refused, whether a protection change or an
  \<open>fs\<close> base is accepted, what \<open>/proc/self/maps\<close> says of a layout, how calls on an open file are
  interrupted, whether a file can be created, whether \<open>malloc\<close> has memory, whether
  \<open>brk(0)\<close> fails, which address the linker gave a function (\<open>k_sym\<close>), what an automatic variable without initialiser holds (\<open>k_stale\<close>, by its
  size), and the size of \<open>ucontext_t\<close>. What the calls do to the process is defined here, as mmap(2),
  mprotect(2) and arch_prctl(2) document it.
\<close>

record machine =
  mem :: "va \<Rightarrow> byte"
  prot_at :: "va \<Rightarrow> u32 option"
  fs_base :: u64
  files :: "byte list \<Rightarrow> byte list option"
  fds :: "int \<Rightarrow> byte list option"

type_synonym layout = "va \<Rightarrow> u32 option"

record kernel =
  k_place :: "layout \<Rightarrow> va \<Rightarrow> u64 \<Rightarrow> u32 \<Rightarrow> u32 \<Rightarrow> int \<Rightarrow> u64 \<Rightarrow> va option"
  k_mprotect :: "layout \<Rightarrow> va \<Rightarrow> u64 \<Rightarrow> u32 \<Rightarrow> bool"
  k_maps :: "layout \<Rightarrow> byte list option"
  k_answers :: "byte list \<Rightarrow> answer list"
  k_set_fs :: "u64 \<Rightarrow> bool"
  k_creat :: "byte list \<Rightarrow> bool"
  k_malloc :: "u64 \<Rightarrow> bool"
  k_stale :: "nat \<Rightarrow> byte list"
  k_brk_fails :: bool
  k_sym :: "string \<Rightarrow> va"
  k_sizeof_ucontext :: nat

section \<open>System calls\<close>

definition open_ro :: "kernel \<Rightarrow> byte list \<Rightarrow> 'a machine_scheme \<Rightarrow> ofile option" where
  "open_ro K path m =
     map_option (\<lambda>c. \<lparr>content = c, pos = 0, answers = k_answers K path\<rparr>) (files m path)"

definition open_maps :: "kernel \<Rightarrow> 'a machine_scheme \<Rightarrow> ofile option" where
  "open_maps K m =
     map_option (\<lambda>c. \<lparr>content = c, pos = 0, answers = k_answers K (bytes_of ''/proc/self/maps'')\<rparr>)
       (k_maps K (prot_at m))"

definition map_pages ::
  "va \<Rightarrow> u64 \<Rightarrow> u32 \<Rightarrow> (u64 \<Rightarrow> byte) \<Rightarrow> 'a machine_scheme \<Rightarrow> 'a machine_scheme" where
  "map_pages a n prot init m = m\<lparr>
     mem := (\<lambda>x. if in_range a n x then init (x - a) else mem m x),
     prot_at := (\<lambda>x. if in_range a n x then Some prot else prot_at m x)\<rparr>"

text \<open>The initial byte at an offset of a new mapping: zero, or the byte of the file.\<close>

definition file_of_fd :: "int \<Rightarrow> 'a machine_scheme \<Rightarrow> byte list option" where
  "file_of_fd fd m = Option.bind (fds m fd) (files m)"

definition mapped_byte :: "u32 \<Rightarrow> byte list \<Rightarrow> u64 \<Rightarrow> u64 \<Rightarrow> byte" where
  "mapped_byte flags c off i =
     (if has_flag flags MAP_ANONYMOUS then 0
      else if unat off + unat i < length c then c ! (unat off + unat i) else 0)"

definition sys_mmap :: "kernel \<Rightarrow> va \<Rightarrow> u64 \<Rightarrow> u32 \<Rightarrow> u32 \<Rightarrow> int \<Rightarrow> u64 \<Rightarrow>
    'a machine_scheme \<Rightarrow> va \<times> 'a machine_scheme" where
  "sys_mmap K addr len prot flags fd off m =
     (if len = 0 then (MAP_FAILED, m)
      else if \<not> has_flag flags MAP_ANONYMOUS \<and> file_of_fd fd m = None then (MAP_FAILED, m)
      else case k_place K (prot_at m) addr len prot flags fd off of
             None \<Rightarrow> (MAP_FAILED, m)
           | Some r \<Rightarrow>
               (r, map_pages r (ROUND_UP len) prot
                     (mapped_byte flags (case file_of_fd fd m of None \<Rightarrow> [] | Some c \<Rightarrow> c) off) m))"

definition sys_mprotect ::
  "kernel \<Rightarrow> va \<Rightarrow> u64 \<Rightarrow> u32 \<Rightarrow> 'a machine_scheme \<Rightarrow> int \<times> 'a machine_scheme" where
  "sys_mprotect K a n prot m =
     (if k_mprotect K (prot_at m) a n prot
      then (0, m\<lparr>prot_at := (\<lambda>x. if in_range a (ROUND_UP n) x then Some prot else prot_at m x)\<rparr>)
      else (-1, m))"

definition set_fs :: "kernel \<Rightarrow> u64 \<Rightarrow> 'a machine_scheme \<Rightarrow> int \<times> 'a machine_scheme" where
  "set_fs K a m = (if k_set_fs K a then (0, m\<lparr>fs_base := a\<rparr>) else (-1, m))"

text \<open>
  What the manual pages promise: a granted mapping is page aligned, not at address 0, below the
  end of the address space, exactly where a fixed request wants it and otherwise over
  unmapped addresses only; a protection change succeeds only on mapped pages.
\<close>

definition placement_ok :: "layout \<Rightarrow> va \<Rightarrow> u64 \<Rightarrow> u32 \<Rightarrow> va \<Rightarrow> bool" where
  "placement_ok P addr len flags r \<longleftrightarrow>
     page_aligned r \<and> r \<noteq> 0 \<and> unat len + 4095 < 2 ^ 64 \<and> no_wrap r (ROUND_UP len) \<and>
     (has_flag flags MAP_FIXED \<longrightarrow> r = addr) \<and>
     (\<not> has_flag flags MAP_FIXED \<longrightarrow> (\<forall>x. in_range r (ROUND_UP len) x \<longrightarrow> P x = None))"

definition kernel_ok :: "kernel \<Rightarrow> bool" where
  "kernel_ok K \<longleftrightarrow>
     (\<forall>P addr len prot flags fd off r.
        k_place K P addr len prot flags fd off = Some r \<longrightarrow> placement_ok P addr len flags r) \<and>
     (\<forall>P a n prot. k_mprotect K P a n prot \<longrightarrow>
        page_aligned a \<and> (\<forall>x. in_range a (ROUND_UP n) x \<longrightarrow> P x \<noteq> None))"

lemma kernel_ok_place:
  "kernel_ok K \<Longrightarrow> k_place K P addr len prot flags fd off = Some r \<Longrightarrow> placement_ok P addr len flags r"
  unfolding kernel_ok_def by blast

lemma kernel_ok_mprotect:
  "kernel_ok K \<Longrightarrow> k_mprotect K P a n prot \<Longrightarrow>
     page_aligned a \<and> (\<forall>x. in_range a (ROUND_UP n) x \<longrightarrow> P x \<noteq> None)"
  unfolding kernel_ok_def by blast

section \<open>Memory accesses of the program\<close>

definition peek :: "'a machine_scheme \<Rightarrow> va \<Rightarrow> nat \<Rightarrow> byte list" where
  "peek m a n = map (\<lambda>i. mem m (a + of_nat i)) [0..<n]"

definition poke :: "va \<Rightarrow> byte list \<Rightarrow> 'a machine_scheme \<Rightarrow> 'a machine_scheme" where
  "poke a bs m = m\<lparr>mem := (\<lambda>x. if unat (x - a) < length bs then bs ! unat (x - a) else mem m x)\<rparr>"

definition all_prot :: "u32 \<Rightarrow> 'a machine_scheme \<Rightarrow> va \<Rightarrow> nat \<Rightarrow> bool" where
  "all_prot flag m a n \<longleftrightarrow>
     list_all (\<lambda>i. case prot_at m (a + of_nat i) of None \<Rightarrow> False | Some p \<Rightarrow> has_flag p flag) [0..<n]"

text \<open>A store of the processor faults unless every byte it writes is writable.\<close>

definition store :: "va \<Rightarrow> byte list \<Rightarrow> 'a machine_scheme \<Rightarrow> 'a machine_scheme run" where
  "store a bs m = (if all_prot PROT_WRITE m a (length bs) then Inr (poke a bs m) else Inl Segv)"

text \<open>
  \<open>readAll\<close> into memory and \<open>writeAll\<close> from memory: the kernel refuses a buffer the process may
  not access (\<open>EFAULT\<close>, which both loops hand to their caller as \<open>-1\<close>).
\<close>

definition readAll_into ::
  "nat \<Rightarrow> va \<Rightarrow> ofile \<Rightarrow> 'a machine_scheme \<Rightarrow> int \<times> ofile \<times> 'a machine_scheme" where
  "readAll_into count a f m =
     (if all_prot PROT_WRITE m a count
      then (let (rc, got, f') = readAll count f in (rc, f', poke a got m))
      else (-1, f, m))"

definition writeAll_from :: "'a machine_scheme \<Rightarrow> va \<Rightarrow> nat \<Rightarrow> ofile \<Rightarrow> int \<times> ofile" where
  "writeAll_from m a count f =
     (if all_prot PROT_READ m a count then writeAll (peek m a count) f else (-1, f))"

subsection \<open>Facts\<close>

named_theorems machine_simps \<open>what a machine operation does to each part of the state\<close>

lemma machine_fields [simp, machine_simps]:
  "prot_at (poke a bs m) = prot_at m" "fs_base (poke a bs m) = fs_base m"
  "files (poke a bs m) = files m" "fds (poke a bs m) = fds m"
  "fs_base (map_pages a n p g m) = fs_base m" "files (map_pages a n p g m) = files m"
  "fds (map_pages a n p g m) = fds m"
  by (simp_all add: poke_def map_pages_def)

lemma mem_map_pages: "mem (map_pages a n p g m) x = (if in_range a n x then g (x - a) else mem m x)"
  by (simp add: map_pages_def)

lemma prot_map_pages: "prot_at (map_pages a n p g m) x = (if in_range a n x then Some p else prot_at m x)"
  by (simp add: map_pages_def)

lemma mem_poke: "mem (poke a bs m) x = (if unat (x - a) < length bs then bs ! unat (x - a) else mem m x)"
  by (simp add: poke_def)

lemma in_range_of_nat: "i < unat n \<Longrightarrow> in_range a n (a + of_nat i)"
  using unat_u64 [of n] by (simp add: in_range_def word_less_nat_alt unat_of_nat)

lemma in_range_nat_iff: "in_range a n x \<longleftrightarrow> (\<exists>i < unat n. x = a + of_nat i)"
proof
  assume "in_range a n x"
  then have "unat (x - a) < unat n" "x = a + of_nat (unat (x - a))"
    by (simp_all add: in_range_def word_less_nat_alt)
  then show "\<exists>i < unat n. x = a + of_nat i" by blast
qed (auto simp: in_range_of_nat)

lemma length_peek [simp]: "length (peek m a n) = n"
  by (simp add: peek_def)

lemma nth_peek: "i < n \<Longrightarrow> peek m a n ! i = mem m (a + of_nat i)"
  by (simp add: peek_def)

lemma peek_eqI: "(\<And>i. i < n \<Longrightarrow> mem m (a + of_nat i) = mem m' (a + of_nat i)) \<Longrightarrow> peek m a n = peek m' a n"
  by (simp add: peek_def)

lemma peek_poke: "length bs \<le> 2 ^ 64 \<Longrightarrow> peek (poke a bs m) a (length bs) = bs"
  by (rule nth_equalityI) (simp_all add: nth_peek mem_poke unat_of_nat)

lemma all_prot_iff:
  "all_prot flag m a n \<longleftrightarrow> (\<forall>i < n. \<exists>p. prot_at m (a + of_nat i) = Some p \<and> has_flag p flag)"
  by (fastforce simp: all_prot_def list_all_iff split: option.splits)

lemma all_prot_range:
  assumes "\<And>x. in_range a n x \<Longrightarrow> \<exists>p. prot_at m x = Some p \<and> has_flag p flag" "k \<le> unat n"
  shows "all_prot flag m a k"
  unfolding all_prot_iff using assms by (meson in_range_of_nat order_less_le_trans)

lemma unat_poke_range:
  "length bs = unat n \<Longrightarrow> unat (x - a) < length bs \<longleftrightarrow> in_range a n x"
  by (simp add: in_range_def word_less_nat_alt)

lemma MAP_FAILED_unaligned: "\<not> page_aligned MAP_FAILED"
  by (simp add: page_aligned_iff MAP_FAILED_def unsigned_minus_1_eq_mask mask_eq_exp_minus_1)

lemma sys_mmap_failed_or_placed:
  assumes "sys_mmap K addr len prot flags fd off m = (r, m')"
  shows "(r = MAP_FAILED \<and> m' = m) \<or>
    (len \<noteq> 0 \<and> k_place K (prot_at m) addr len prot flags fd off = Some r \<and>
     (\<exists>c. m' = map_pages r (ROUND_UP len) prot (mapped_byte flags c off) m))"
proof (cases "len = 0 \<or> \<not> has_flag flags MAP_ANONYMOUS \<and> file_of_fd fd m = None")
  case True
  then have "r = MAP_FAILED \<and> m' = m"
    using assms by (auto simp: sys_mmap_def split: if_splits)
  then show ?thesis by blast
next
  case False
  then show ?thesis
    using assms by (cases "k_place K (prot_at m) addr len prot flags fd off") (auto simp: sys_mmap_def)
qed

lemma sys_mmap_cases:
  assumes "sys_mmap K addr len prot flags fd off m = (r, m')" "kernel_ok K"
  obtains (failed) "r = MAP_FAILED" "m' = m"
    | (granted) c where "r \<noteq> MAP_FAILED" "len \<noteq> 0" "placement_ok (prot_at m) addr len flags r"
      "m' = map_pages r (ROUND_UP len) prot (mapped_byte flags c off) m"
  using sys_mmap_failed_or_placed [OF assms(1)]
proof (elim disjE conjE exE)
  fix c
  assume p: "len \<noteq> 0" "k_place K (prot_at m) addr len prot flags fd off = Some r"
    "m' = map_pages r (ROUND_UP len) prot (mapped_byte flags c off) m"
  have ok: "placement_ok (prot_at m) addr len flags r" by (rule kernel_ok_place [OF assms(2) p(2)])
  then have "r \<noteq> MAP_FAILED" using MAP_FAILED_unaligned by (auto simp: placement_ok_def)
  then show thesis using granted p(1,3) ok by blast
qed (rule failed)

lemma sys_mprotect_cases:
  assumes "sys_mprotect K a n prot m = (rc, m')" "kernel_ok K"
  obtains (failed) "rc = -1" "m' = m"
    | (granted) "rc = 0" "page_aligned a" "\<And>x. in_range a (ROUND_UP n) x \<Longrightarrow> prot_at m x \<noteq> None"
      "m' = m\<lparr>prot_at := (\<lambda>x. if in_range a (ROUND_UP n) x then Some prot else prot_at m x)\<rparr>"
proof (cases "k_mprotect K (prot_at m) a n prot")
  case True
  moreover have "page_aligned a \<and> (\<forall>x. in_range a (ROUND_UP n) x \<longrightarrow> prot_at m x \<noteq> None)"
    using kernel_ok_mprotect [OF assms(2) True] .
  ultimately show thesis
    using assms(1) granted by (auto simp: sys_mprotect_def)
next
  case False
  then show thesis using assms(1) failed by (simp add: sys_mprotect_def)
qed

section \<open>Jumping into the lower half (common.h)\<close>

text \<open>
  \<open>JUMP_TO_LOWER_HALF(lhFs)\<close> \<open>body\<close> \<open>RETURN_TO_UPPER_HALF()\<close>: the two macros open and close one
  block. A refused \<open>arch_prctl\<close> only prints a message.
\<close>

definition in_lower_half :: "kernel \<Rightarrow> u64 \<Rightarrow> ('a machine_scheme \<Rightarrow> ('r \<times> 'a machine_scheme) run) \<Rightarrow>
    'a machine_scheme \<Rightarrow> ('r \<times> 'a machine_scheme) run" where
  "in_lower_half K lhFs body m =
     (let upperHalfFs = fs_base m;
          m = (if lhFs > 0 then snd (set_fs K lhFs m) else m)
      in andThen (body m) (\<lambda>(r, m). Inr (r, snd (set_fs K upperHalfFs m))))"

text \<open>
  A call into the lower half leaves the \<open>fs\<close> base of the upper half as it was, whatever the
  body of the call does to it; the body itself runs with the lower half's base.
\<close>

theorem in_lower_half_restores_fs:
  assumes "k_set_fs K (fs_base m)" "k_set_fs K lhFs" "lhFs \<noteq> 0"
    and "in_lower_half K lhFs body m = Inr (r, m')"
  shows "fs_base m' = fs_base m \<and>
    (\<exists>m''. body (m\<lparr>fs_base := lhFs\<rparr>) = Inr (r, m'') \<and> m' = m''\<lparr>fs_base := fs_base m\<rparr>)"
  using assms by (auto simp: in_lower_half_def Let_def run_simps set_fs_def word_gt_0)

text \<open>A kernel and a process for concrete runs.\<close>

definition plain_kernel :: kernel where
  "plain_kernel = \<lparr>
     k_place = (\<lambda>P addr len prot flags fd off.
       if placement_ok P addr len flags addr then Some addr else None),
     k_mprotect = (\<lambda>P a n prot. page_aligned a \<and> (\<forall>x. in_range a (ROUND_UP n) x \<longrightarrow> P x \<noteq> None)),
     k_maps = (\<lambda>P. Some []), k_answers = (\<lambda>path. []), k_set_fs = (\<lambda>a. a < 2 ^ 47),
     k_creat = (\<lambda>path. True), k_malloc = (\<lambda>n. True), k_stale = (\<lambda>n. replicate n 0),
     k_brk_fails = False,
     k_sym = (\<lambda>s. if s = ''mmapWrapper'' then 0x5000 else 0x6000), k_sizeof_ucontext = 968\<rparr>"

lemma plain_kernel_ok: "kernel_ok plain_kernel"
  by (auto simp: kernel_ok_def plain_kernel_def placement_ok_def split: if_splits)

definition empty_machine :: machine where
  "empty_machine = \<lparr>mem = (\<lambda>x. 0), prot_at = (\<lambda>x. None), fs_base = 0x1000,
     files = (\<lambda>path. None), fds = (\<lambda>fd. None)\<rparr>"

theorem in_lower_half_restores_fs_witness:
  "fs_base (empty_machine\<lparr>mem := (\<lambda>x. 1)\<rparr>) = fs_base empty_machine \<and>
   (\<exists>m''. (Inr ((), (empty_machine\<lparr>fs_base := 0x2000\<rparr>)\<lparr>mem := (\<lambda>x. 1), fs_base := 0\<rparr>) :: (unit \<times> machine) run) =
       Inr ((), m'') \<and> empty_machine\<lparr>mem := (\<lambda>x. 1)\<rparr> = m''\<lparr>fs_base := fs_base empty_machine\<rparr>)"
  by (rule in_lower_half_restores_fs [where K = plain_kernel and lhFs = "0x2000" and
        body = "\<lambda>m. Inr ((), m\<lparr>mem := (\<lambda>x. 1), fs_base := 0\<rparr>)" and m = empty_machine and r = "()"])
     (simp_all add: plain_kernel_def empty_machine_def in_lower_half_def set_fs_def)

end
