(* ===== verification/CLib.thy ===== *)
theory CLib
  imports Machine
begin

text \<open>
  What the loaders use of the C library and of pointers into memory: loads and stores of 8-byte
  pointers, strings and NULL-terminated vectors of pointers in memory, \<open>getenv\<close> over the vector
  \<open>environ\<close>, \<open>atoi\<close>, \<open>atol\<close>, \<open>strtok\<close>, and descriptors. A load faults unless every byte is
  readable; a walk that would run over the last address faults there, which also bounds
  the loops.
\<close>

section \<open>Loads and stores\<close>

definition load64 :: "'a machine_scheme \<Rightarrow> va \<Rightarrow> u64 run" where
  "load64 m a = (if all_prot PROT_READ m a 8 then Inr (le_word (peek m a 8)) else Inl Segv)"

definition load32 :: "'a machine_scheme \<Rightarrow> va \<Rightarrow> u32 run" where
  "load32 m a = (if all_prot PROT_READ m a 4 then Inr (le_word (peek m a 4)) else Inl Segv)"

definition store64 :: "va \<Rightarrow> u64 \<Rightarrow> 'a machine_scheme \<Rightarrow> 'a machine_scheme run" where
  "store64 a w m = store a (le_bytes 8 w) m"

definition memcpy :: "va \<Rightarrow> va \<Rightarrow> u64 \<Rightarrow> 'a machine_scheme \<Rightarrow> 'a machine_scheme run" where
  "memcpy dst src n m =
     (if all_prot PROT_READ m src (unat n) then store dst (peek m src (unat n)) m else Inl Segv)"

definition memset0 :: "va \<Rightarrow> u64 \<Rightarrow> 'a machine_scheme \<Rightarrow> 'a machine_scheme run" where
  "memset0 a n m = store a (replicate (unat n) 0) m"

text \<open>The C string at an address.\<close>

function cstr_at :: "'a machine_scheme \<Rightarrow> va \<Rightarrow> byte list run" where
  "cstr_at m a =
     (if \<not> all_prot PROT_READ m a 1 then Inl Segv
      else if mem m a = 0 then Inr []
      else if a = -1 then Inl Segv
      else andThen (cstr_at m (a + 1)) (\<lambda>s. Inr (mem m a # s)))"
  by pat_completeness auto

lemma unat_next:
  assumes "a \<noteq> (-1 :: va)" shows "unat (a + 1) = Suc (unat a)"
proof -
  have "unat a \<noteq> 2 ^ 64 - 1"
    using assms by (simp add: word_unat_eq_iff unsigned_minus_1_eq_mask mask_eq_exp_minus_1)
  then have "unat a + 1 < 2 ^ 64" using unat_u64 [of a] by linarith
  then show ?thesis by (simp add: unat_word_ariths)
qed

lemma top_measure: "a \<noteq> (-1 :: va) \<Longrightarrow> 2 ^ 64 - unat (a + 1) < 2 ^ 64 - unat a"
  using unat_u64 [of a] by (simp add: unat_next)

termination cstr_at
  by (relation "measure (\<lambda>(m, a). 2 ^ 64 - unat a)") (auto simp only: in_measure split_conv wf_measure intro: top_measure)

declare cstr_at.simps [simp del]

section \<open>Vectors of pointers\<close>

text \<open>A vector walk goes on to the next slot while that slot lies inside the address space.\<close>

definition slot_ok :: "va \<Rightarrow> nat \<Rightarrow> bool" where
  "slot_ok p n \<longleftrightarrow> unat p + n < 2 ^ 64"

lemma unat_slot: "slot_ok p n \<Longrightarrow> unat (p + of_nat n) = unat p + n"
  by (simp add: slot_ok_def unat_word_ariths unat_of_nat)

lemma slot_measure:
  assumes "slot_ok p n" "0 < n" shows "2 ^ 64 - unat (p + of_nat n) < 2 ^ 64 - unat p"
  using unat_slot [OF assms(1)] assms(2) unat_u64 [of p] by linarith

text \<open>\<open>getenv\<close>\<close>

function getenv_loop :: "'a machine_scheme \<Rightarrow> va \<Rightarrow> byte list \<Rightarrow> va run" where
  "getenv_loop m ep name =
     (case load64 m ep of
        Inl h \<Rightarrow> Inl h
      | Inr p \<Rightarrow>
          if p = 0 then Inr 0
          else (case cstr_at m p of
                  Inl h \<Rightarrow> Inl h
                | Inr s \<Rightarrow>
                    if prefix (name @ [of_char CHR ''='']) s then Inr (p + of_nat (length name) + 1)
                    else if slot_ok ep 8 then getenv_loop m (ep + of_nat 8) name
                    else Inl Segv))"
  by pat_completeness auto
termination
  by (relation "measure (\<lambda>(m, ep, name). 2 ^ 64 - unat ep)")
     (auto simp only: in_measure split_conv wf_measure intro: slot_measure)

declare getenv_loop.simps [simp del]

definition getenv :: "'a machine_scheme \<Rightarrow> va \<Rightarrow> byte list \<Rightarrow> va run" where
  "getenv m environ name = getenv_loop m environ name"

section \<open>Numbers and tokens in strings\<close>

definition is_space :: "byte \<Rightarrow> bool" where
  "is_space c \<longleftrightarrow> c = 32 \<or> 9 \<le> c \<and> c \<le> 13"

definition is_digit :: "byte \<Rightarrow> bool" where
  "is_digit c \<longleftrightarrow> 48 \<le> c \<and> c \<le> 57"

definition digits_val :: "byte list \<Rightarrow> int" where
  "digits_val ds = foldl (\<lambda>v d. v * 10 + (uint d - 48)) 0 (takeWhile is_digit ds)"

text \<open>\<open>strtol(s, NULL, 10)\<close>, which stops at the limits of \<open>long\<close>; \<open>atol\<close> and \<open>atoi\<close> by it.\<close>

definition strtol :: "byte list \<Rightarrow> int" where
  "strtol s =
     (let s = dropWhile is_space s;
          v = (case s of
                 [] \<Rightarrow> 0
               | c # cs \<Rightarrow> if c = of_char CHR ''-'' then - digits_val cs
                           else if c = of_char CHR ''+'' then digits_val cs else digits_val (c # cs))
      in max (- (2 ^ 63)) (min (2 ^ 63 - 1) v))"

definition atol :: "byte list \<Rightarrow> u64" where "atol s = word_of_int (strtol s)"

definition atoi :: "byte list \<Rightarrow> u32" where "atoi s = word_of_int (strtol s)"

text \<open>The tokens \<open>strtok(s, " ")\<close> delivers, one call after the other.\<close>

function tokens :: "byte list \<Rightarrow> byte list list" where
  "tokens s =
     (let s = dropWhile (\<lambda>c. c = 32) s
      in if s = [] then [] else takeWhile (\<lambda>c. c \<noteq> 32) s # tokens (dropWhile (\<lambda>c. c \<noteq> 32) s))"
  by pat_completeness auto
termination
proof (relation "measure length", simp, unfold in_measure)
  fix s r :: "byte list"
  assume r: "r = dropWhile (\<lambda>c. c = 32) s" "r \<noteq> []"
  have "hd r \<noteq> 32" using hd_dropWhile [of "\<lambda>c. c = 32" s] r by simp
  then have "length (dropWhile (\<lambda>c. c \<noteq> 32) r) \<le> length (tl r)"
    using r(2) by (cases r) (simp_all add: length_dropWhile_le)
  also have "\<dots> < length r" using r(2) by (cases r) simp_all
  also have "\<dots> \<le> length s" by (simp add: r(1) length_dropWhile_le)
  finally show "length (dropWhile (\<lambda>c. c \<noteq> 32) r) < length s" .
qed

declare tokens.simps [simp del]

text \<open>\<open>strncpy(out, s, n)\<close> into an array of \<open>n\<close> bytes.\<close>

definition strncpy :: "byte list \<Rightarrow> nat \<Rightarrow> byte list" where
  "strncpy s n = take n (s @ replicate n 0)"

section \<open>Descriptors\<close>

text \<open>\<open>open\<close> takes the lowest descriptor that is free, of the 1024 a process may have.\<close>

definition free_fd :: "'a machine_scheme \<Rightarrow> int option" where
  "free_fd m = map_option int (find (\<lambda>i. fds m (int i) = None) [0..<1024])"

definition sys_open :: "byte list \<Rightarrow> 'a machine_scheme \<Rightarrow> int \<times> 'a machine_scheme" where
  "sys_open path m =
     (case (files m path, free_fd m) of
        (Some c, Some fd) \<Rightarrow> (fd, m\<lparr>fds := (fds m)(fd := Some path)\<rparr>)
      | _ \<Rightarrow> (-1, m))"

definition sys_close :: "int \<Rightarrow> 'a machine_scheme \<Rightarrow> 'a machine_scheme" where
  "sys_close fd m = (if fd < 0 then m else m\<lparr>fds := (fds m)(fd := None)\<rparr>)"

section \<open>Strings and vectors in memory\<close>

lemma peek_Suc: "peek m a (Suc n) = mem m a # peek m (a + 1) n"
  unfolding peek_def by (simp add: upt_conv_Cons map_Suc_upt [symmetric] comp_def add.assoc del: upt_Suc)

lemma all_prot_Suc: "all_prot flag m a (Suc n) \<longleftrightarrow> all_prot flag m a 1 \<and> all_prot flag m (a + 1) n"
proof -
  have "(\<forall>i < Suc n. Q (a + of_nat i)) \<longleftrightarrow> Q a \<and> (\<forall>i < n. Q (a + 1 + of_nat i))" for Q :: "va \<Rightarrow> bool"
    by (simp add: All_less_Suc2 add.assoc)
  then show ?thesis
    unfolding all_prot_iff by (simp del: all_simps)
qed

text \<open>The string \<open>s\<close>, with its terminator, lies at \<open>p\<close>.\<close>

definition holds_str :: "'a machine_scheme \<Rightarrow> va \<Rightarrow> byte list \<Rightarrow> bool" where
  "holds_str m p s \<longleftrightarrow> 0 \<notin> set s \<and> unat p + length s < 2 ^ 64 \<and>
     peek m p (Suc (length s)) = s @ [0] \<and> all_prot PROT_READ m p (Suc (length s))"

lemma holds_str_Cons:
  "holds_str m p (b # s) \<longleftrightarrow>
     b \<noteq> 0 \<and> mem m p = b \<and> p \<noteq> -1 \<and> all_prot PROT_READ m p 1 \<and> holds_str m (p + 1) s"
proof (cases "p = -1")
  case True
  then show ?thesis by (simp add: holds_str_def unsigned_minus_1_eq_mask mask_eq_exp_minus_1)
next
  case False
  then show ?thesis
    using unat_next [OF False]
    by (auto simp: holds_str_def peek_Suc [of m p] all_prot_Suc [of _ m p "Suc (length s)"] simp del: One_nat_def)
qed

lemma cstr_at_holds: "holds_str m p s \<Longrightarrow> cstr_at m p = Inr s"
proof (induction s arbitrary: p)
  case Nil
  then show ?case by (simp add: holds_str_def peek_Suc cstr_at.simps [of m p])
next
  case (Cons b s)
  then show ?case by (simp add: holds_str_Cons cstr_at.simps [of m p] del: One_nat_def)
qed

lemma holds_str_drop: "holds_str m p s \<Longrightarrow> k \<le> length s \<Longrightarrow> holds_str m (p + of_nat k) (drop k s)"
proof (induction k arbitrary: p s)
  case (Suc k)
  then obtain b t where s: "s = b # t" by (cases s) auto
  then have "holds_str m (p + 1 + of_nat k) (drop k t)"
    using Suc.prems by (intro Suc.IH) (simp_all add: holds_str_Cons del: One_nat_def)
  then show ?case by (simp add: s ac_simps)
qed simp

text \<open>Loads, strings and \<open>getenv\<close> depend on the memory and its protections only.\<close>

lemma load_cong:
  assumes "mem m' = mem m" "prot_at m' = prot_at m"
  shows "load64 m' a = load64 m a" "cstr_at m' a = cstr_at m a"
proof -
  have p: "all_prot q m' x n = all_prot q m x n" "peek m' x n = peek m x n" for q x n
    using assms by (simp_all add: all_prot_def peek_def)
  show "load64 m' a = load64 m a" by (simp add: load64_def p)
  have "n = m \<longrightarrow> cstr_at m' a = cstr_at m a" for n
  proof (induction n a rule: cstr_at.induct)
    case (1 n a)
    show ?case
    proof
      assume "n = m"
      then show "cstr_at m' a = cstr_at m a"
        using 1 assms by (subst (1 2) cstr_at.simps) (simp add: p del: One_nat_def)
    qed
  qed
  then show "cstr_at m' a = cstr_at m a" by simp
qed

lemma getenv_cong:
  assumes "mem m' = mem m" "prot_at m' = prot_at m"
  shows "getenv m' a name = getenv m a name"
proof -
  have "n = m \<longrightarrow> getenv_loop m' ep nm = getenv_loop m ep nm" for n ep nm
  proof (induction n ep nm rule: getenv_loop.induct)
    case (1 n ep nm)
    show ?case
    proof
      assume "n = m"
      then show "getenv_loop m' ep nm = getenv_loop m ep nm"
        using 1 by (subst (1 2) getenv_loop.simps) (auto simp: load_cong [OF assms] split: sum.split)
    qed
  qed
  then show ?thesis by (simp add: getenv_def)
qed

text \<open>A vector of non-\<open>NULL\<close> pointers with the \<open>NULL\<close> that ends it.\<close>

fun vec :: "'a machine_scheme \<Rightarrow> va \<Rightarrow> va list \<Rightarrow> bool" where
  "vec m a [] \<longleftrightarrow> load64 m a = Inr 0"
| "vec m a (p # ps) \<longleftrightarrow> load64 m a = Inr p \<and> p \<noteq> 0 \<and> slot_ok a 8 \<and> vec m (a + 8) ps"

text \<open>The value of a variable in a list of strings \<open>NAME=value\<close>: the first entry counts.\<close>

definition value_of :: "byte list \<Rightarrow> byte list list \<Rightarrow> byte list option" where
  "value_of name env = map_option (drop (Suc (length name))) (find (prefix (name @ [of_char CHR ''=''])) env)"

lemma getenv_vec:
  assumes "vec m ep ps" "list_all2 (holds_str m) ps env"
  shows "case value_of name env of
      None \<Rightarrow> getenv m ep name = Inr 0
    | Some v \<Rightarrow> \<exists>p s. (p, s) \<in> set (zip ps env) \<and> prefix (name @ [of_char CHR ''='']) s \<and>
        v = drop (Suc (length name)) s \<and> getenv m ep name = Inr (p + of_nat (length name) + 1)"
  using assms(2,1)
proof (induction ps env arbitrary: ep rule: list_all2_induct)
  case Nil
  then show ?case by (simp add: value_of_def getenv_def getenv_loop.simps [of m ep])
next
  case (Cons p ps s env)
  note eq = getenv_loop.simps [of m ep name]
  have c: "cstr_at m p = Inr s" by (rule cstr_at_holds) (rule Cons.hyps(1))
  show ?case
  proof (cases "prefix (name @ [of_char CHR ''='']) s")
    case True
    then have "getenv m ep name = Inr (p + of_nat (length name) + 1)"
      "value_of name (s # env) = Some (drop (Suc (length name)) s)"
      using Cons.prems c by (simp_all add: value_of_def getenv_def eq)
    then show ?thesis using True by auto
  next
    case False
    then have "getenv m ep name = getenv m (ep + 8) name" "value_of name (s # env) = value_of name env"
      using Cons.prems c by (simp_all add: value_of_def getenv_def eq)
    moreover have "vec m (ep + 8) ps" using Cons.prems by simp
    ultimately show ?thesis using Cons.IH [of "ep + 8"] by (auto split: option.split_asm option.split)
  qed
qed

lemma getenv_value:
  assumes "vec m ep ps" "list_all2 (holds_str m) ps env" "value_of name env = Some v"
  obtains q where "getenv m ep name = Inr q" "q \<noteq> 0" "holds_str m q v"
proof -
  obtain p s where ps: "(p, s) \<in> set (zip ps env)" "prefix (name @ [of_char CHR ''='']) s"
    "v = drop (Suc (length name)) s" "getenv m ep name = Inr (p + of_nat (length name) + 1)"
    using getenv_vec [OF assms(1,2), of name] assms(3) by auto
  have h: "holds_str m p s" using ps(1) assms(2) by (auto simp: list_all2_iff)
  have len: "Suc (length name) \<le> length s" using prefix_length_le [OF ps(2)] by simp
  let ?q = "p + of_nat (Suc (length name))"
  have "holds_str m ?q v" unfolding ps(3) by (rule holds_str_drop [OF h len])
  moreover have "?q \<noteq> 0"
  proof
    assume "?q = 0"
    moreover have "unat ?q = unat p + Suc (length name)"
      using h len by (intro unat_slot) (simp add: slot_ok_def holds_str_def)
    ultimately show False by simp
  qed
  ultimately show thesis using that [of ?q] ps(4) by (simp add: ac_simps)
qed

end
