(* ===== verification/ElfSymbols.thy ===== *)
theory ElfSymbols
  imports Machine
begin

text \<open>
  The ELF symbol reader of \<open>trampoline_setup.c\<close>: \<open>readElfSection\<close>, \<open>getSymbolTable\<close> and
  \<open>get_symbol_offset\<close>, over an open file with its position. The structures of \<open>elf.h\<close> keep the
  fields the code reads, at their offsets in the 64-bit format. A short \<open>read\<close> of a header
  is a failed assertion, as in the source; a buffer from \<open>malloc\<close> that is read only in part
  holds zeros after that part. What the second attempt leaks (a descriptor and a buffer) has
  no effect on the results and is not modelled.
\<close>

section \<open>Structures of elf.h\<close>

type_synonym u16 = "16 word"
type_synonym i32 = "32 word"

record Ehdr =
  e_entry :: u64
  e_phoff :: u64
  e_shoff :: u64
  e_phentsize :: u16
  e_phnum :: u16
  e_shentsize :: u16
  e_shnum :: u16
  e_shstrndx :: u16

record Shdr =
  sh_name :: u32
  sh_type :: u32
  sh_offset :: u64
  sh_size :: u64

record Sym =
  st_name :: u32
  st_value :: u64

definition field :: "nat \<Rightarrow> nat \<Rightarrow> byte list \<Rightarrow> 'a::len word" where
  "field off n bs = le_word (take n (drop off bs))"

definition ehdr_of_bytes :: "byte list \<Rightarrow> Ehdr" where
  "ehdr_of_bytes bs = \<lparr>e_entry = field 24 8 bs, e_phoff = field 32 8 bs, e_shoff = field 40 8 bs,
     e_phentsize = field 54 2 bs, e_phnum = field 56 2 bs, e_shentsize = field 58 2 bs,
     e_shnum = field 60 2 bs, e_shstrndx = field 62 2 bs\<rparr>"

definition shdr_of_bytes :: "byte list \<Rightarrow> Shdr" where
  "shdr_of_bytes bs = \<lparr>sh_name = field 0 4 bs, sh_type = field 4 4 bs,
     sh_offset = field 24 8 bs, sh_size = field 32 8 bs\<rparr>"

definition sym_of_bytes :: "byte list \<Rightarrow> Sym" where
  "sym_of_bytes bs = \<lparr>st_name = field 0 4 bs, st_value = field 8 8 bs\<rparr>"

definition SHT_PROGBITS :: u32 where "SHT_PROGBITS = 1"
definition SHT_SYMTAB :: u32 where "SHT_SYMTAB = 2"
definition SHT_STRTAB :: u32 where "SHT_STRTAB = 3"

definition ELF_STRTAB_SECT :: "byte list" where "ELF_STRTAB_SECT = bytes_of ''.strtab''"
definition ELF_DEBUGLINK_SECT :: "byte list" where "ELF_DEBUGLINK_SECT = bytes_of ''.gnu_debuglink''"
definition DEBUG_FILES_PATH :: "byte list" where
  "DEBUG_FILES_PATH = bytes_of ''/usr/lib/debug/lib/x86_64-linux-gnu''"

section \<open>System calls on one file\<close>

text \<open>\<open>lseek(fd, off, SEEK_SET)\<close>: a negative offset is refused.\<close>

definition lseek_set :: "u64 \<Rightarrow> ofile \<Rightarrow> u64 \<times> ofile" where
  "lseek_set off f = (if off <s 0 then (-1, f) else (off, f\<lparr>pos := unat off\<rparr>))"

text \<open>\<open>rc = read(fd, &x, sizeof x); assert(rc == sizeof x)\<close>\<close>

definition read_struct :: "nat \<Rightarrow> ofile \<Rightarrow> (byte list \<times> ofile) run" where
  "read_struct n f =
     (case sys_read n f of
        (ReadErr e, f') \<Rightarrow> Inl AssertFail
      | (Data d, f') \<Rightarrow> if length d = n then Inr (d, f') else Inl AssertFail)"

text \<open>\<open>strcmp(p + i, s) == 0\<close> for a pointer \<open>p\<close> that may be \<open>NULL\<close>.\<close>

definition str_at_eq :: "byte list option \<Rightarrow> u32 \<Rightarrow> byte list \<Rightarrow> bool run" where
  "str_at_eq p i s =
     (case p of None \<Rightarrow> Inl Segv | Some bs \<Rightarrow> Inr (cstr (drop (unat i) bs) = s))"

section \<open>readElfSection\<close>

definition readElfSection :: "kernel \<Rightarrow> ofile \<Rightarrow> nat \<Rightarrow> Ehdr \<Rightarrow> byte list option \<Rightarrow>
    (int \<times> Shdr \<times> byte list option \<times> ofile) run" where
  "readElfSection K f sidx ehdr data =
     (let currOff = of_nat (pos f);
          sidx_off = scast (ucast (e_shentsize ehdr) * of_nat sidx :: i32) + e_shoff ehdr;
          (_, f) = lseek_set sidx_off f
      in andThen (read_struct 64 f) (\<lambda>(bs, f).
        let shdr = shdr_of_bytes bs;
            (off, f) = lseek_set (sh_offset shdr) f;
            (data, f) =
              (if 0 <s (ucast off :: i32) then
                 (if k_malloc K (sh_size shdr) then
                    (let (_, f) = lseek_set (sh_offset shdr) f;
                         (_, got, f) = readAll (unat (sh_size shdr)) f
                     in (Some (got @ replicate (unat (sh_size shdr) - length got) 0), f))
                  else (None, f))
               else (data, f));
            (_, f) = lseek_set currOff f
        in Inr (if data \<noteq> None then 0 else -1, shdr, data, f)))"

section \<open>getSymbolTable\<close>

text \<open>
  The variables the loops of \<open>getSymbolTable\<close> update: the symbol table header and whether one was
  found, the string table, and the debug file's path and whether one was found.
\<close>

record scan =
  sc_symtab :: "Shdr option"
  sc_strtab :: "byte list option"
  sc_debug :: "byte list option"

text \<open>\<open>snprintf(debugLibName, PATH_MAX, "%s/%s", DEBUG_FILES_PATH, debugName)\<close>\<close>

definition debug_path :: "byte list \<Rightarrow> byte list" where
  "debug_path debugName = take (PATH_MAX - 1) (DEBUG_FILES_PATH @ [of_char CHR ''/''] @ cstr debugName)"

definition scan_section :: "kernel \<Rightarrow> Ehdr \<Rightarrow> byte list option \<Rightarrow> nat \<Rightarrow> scan \<Rightarrow> ofile \<Rightarrow>
    (scan \<times> ofile) run" where
  "scan_section K ehdr shsectData i sc f =
     andThen (read_struct 64 f) (\<lambda>(bs, f).
       let sect_hdr = shdr_of_bytes bs in
       if sh_type sect_hdr = SHT_SYMTAB then Inr (sc\<lparr>sc_symtab := Some sect_hdr\<rparr>, f)
       else
         andThen (if sh_type sect_hdr = SHT_STRTAB
                  then str_at_eq shsectData (sh_name sect_hdr) ELF_STRTAB_SECT else Inr False) (\<lambda>is_strtab.
         if is_strtab then
           andThen (readElfSection K f i ehdr (sc_strtab sc)) (\<lambda>(_, _, strtab, f).
             Inr (sc\<lparr>sc_strtab := strtab\<rparr>, f))
         else
           andThen (if sh_type sect_hdr = SHT_PROGBITS
                    then str_at_eq shsectData (sh_name sect_hdr) ELF_DEBUGLINK_SECT else Inr False) (\<lambda>is_link.
           if is_link then
             andThen (readElfSection K f i ehdr None) (\<lambda>(_, _, debugName, f).
               case debugName of
                 None \<Rightarrow> Inl AssertFail
               | Some name \<Rightarrow> Inr (sc\<lparr>sc_debug := Some (debug_path name)\<rparr>, f))
           else Inr (sc, f))))"

fun scan_sections :: "kernel \<Rightarrow> Ehdr \<Rightarrow> byte list option \<Rightarrow> nat list \<Rightarrow> scan \<Rightarrow> ofile \<Rightarrow>
    (scan \<times> ofile) run" where
  "scan_sections K ehdr shsectData [] sc f = Inr (sc, f)"
| "scan_sections K ehdr shsectData (i # is) sc f =
     andThen (scan_section K ehdr shsectData i sc f) (\<lambda>(sc, f).
       scan_sections K ehdr shsectData is sc f)"

text \<open>
  The loop over the library and its debug file: \<open>retries\<close> counts what is left of the two attempts.
  The result is the descriptor (\<open>None\<close>: \<open>-1\<close>) with the variables.
\<close>

fun getSymbolTable_loop :: "kernel \<Rightarrow> 'a machine_scheme \<Rightarrow> nat \<Rightarrow> byte list option \<Rightarrow> scan \<Rightarrow>
    byte list \<Rightarrow> ofile option \<Rightarrow> (ofile option \<times> scan) run" where
  "getSymbolTable_loop K m 0 shsectData sc lname fd =
     Inr (if sc_symtab sc = None then None else fd, sc)"
| "getSymbolTable_loop K m (Suc retries) shsectData sc lname fd =
     (case open_ro K lname m of
        None \<Rightarrow> Inl AssertFail
      | Some f \<Rightarrow>
          andThen (read_struct 64 (snd (lseek_set 0 f))) (\<lambda>(bs, f).
            let elf_hdr = ehdr_of_bytes bs in
            andThen (readElfSection K f (unat (e_shstrndx elf_hdr)) elf_hdr shsectData)
              (\<lambda>(_, _, shsectData, f).
                andThen (scan_sections K elf_hdr shsectData [0..<unat (e_shnum elf_hdr)] sc
                           (snd (lseek_set (e_shoff elf_hdr) f))) (\<lambda>(sc, f).
                  if sc_symtab sc \<noteq> None \<or> sc_debug sc = None then Inr (Some f, sc)
                  else getSymbolTable_loop K m retries shsectData sc (the (sc_debug sc)) (Some f)))))"

definition getSymbolTable :: "kernel \<Rightarrow> 'a machine_scheme \<Rightarrow> byte list \<Rightarrow> (ofile option \<times> scan) run" where
  "getSymbolTable K m libname =
     getSymbolTable_loop K m 2 None \<lparr>sc_symtab = None, sc_strtab = None, sc_debug = None\<rparr> libname None"

section \<open>get_symbol_offset\<close>

lemma read_struct_pending:
  assumes "read_struct n f = Inr (d, f')"
  shows "d = take n (pending f) \<and> n \<le> length (pending f) \<and> pending f' = drop n (pending f)"
proof -
  obtain r g where rd: "sys_read n f = (r, g)" by fastforce
  then show ?thesis
    by (cases rule: sys_read_cases) (use assms rd in \<open>auto simp: read_struct_def split: if_splits\<close>)
qed

text \<open>
  The loop over the symbol table: \<open>-1\<close> is the value \<open>result\<close> keeps when no entry matches. The
  comparison is the unsigned one of \<open>off_t - Elf64_Off < Elf64_Xword\<close>.
\<close>

function symbol_loop :: "Shdr \<Rightarrow> byte list option \<Rightarrow> byte list \<Rightarrow> ofile \<Rightarrow> u64 run" where
  "symbol_loop symtab strtab symbol f =
     (if of_nat (pos f) - sh_offset symtab < sh_size symtab then
        (case read_struct 24 f of
           Inl h \<Rightarrow> Inl h
         | Inr (bs, f') \<Rightarrow>
             let symtab_entry = sym_of_bytes bs in
             (case str_at_eq strtab (st_name symtab_entry) symbol of
                Inl h \<Rightarrow> Inl h
              | Inr True \<Rightarrow> Inr (st_value symtab_entry)
              | Inr False \<Rightarrow> symbol_loop symtab strtab symbol f'))
      else Inr (-1))"
  by pat_completeness auto
termination
  by (relation "measure (\<lambda>(_, _, _, f). length (pending f))") (auto dest: read_struct_pending)

declare symbol_loop.simps [simp del]

definition get_symbol_offset :: "kernel \<Rightarrow> 'a machine_scheme \<Rightarrow> byte list \<Rightarrow> byte list \<Rightarrow> u64 run" where
  "get_symbol_offset K m libname symbol =
     andThen (getSymbolTable K m libname) (\<lambda>(fd, sc).
       case fd of
         None \<Rightarrow> Inr (-1)
       | Some f \<Rightarrow>
           let symtab = (case sc_symtab sc of Some s \<Rightarrow> s | None \<Rightarrow> shdr_of_bytes (k_stale K 64))
           in symbol_loop symtab (sc_strtab sc) symbol (snd (lseek_set (sh_offset symtab) f)))"

section \<open>What the symbol loop finds\<close>

lemma read_struct_undisturbed:
  assumes "answers f = []" "n \<le> length (pending f)"
  shows "read_struct n f = Inr (take n (pending f), f\<lparr>pos := pos f + n\<rparr>)"
  using assms by (simp add: read_struct_def sys_read.simps Let_def min_absorb2)

text \<open>The first entry of a symbol table with a given name.\<close>

definition symbol_in :: "byte list \<Rightarrow> byte list \<Rightarrow> byte list list \<Rightarrow> u64" where
  "symbol_in strtab symbol es =
     (case find (\<lambda>e. cstr (drop (unat (st_name (sym_of_bytes e))) strtab) = symbol) es of
        None \<Rightarrow> -1
      | Some e \<Rightarrow> st_value (sym_of_bytes e))"

lemma symbol_loop_from:
  assumes "answers f = []" "pending f = concat es @ r" "list_all (\<lambda>e. length e = 24) es"
    and "of_nat (pos f) = sh_offset symtab + of_nat (24 * k)"
    and "sh_size symtab = of_nat (24 * (k + length es))" "24 * (k + length es) < 2 ^ 64"
  shows "symbol_loop symtab (Some strtab) symbol f = Inr (symbol_in strtab symbol es)"
  using assms
proof (induction es arbitrary: f k)
  case Nil
  then show ?case by (simp add: symbol_loop.simps [of symtab] symbol_in_def)
next
  case (Cons e es)
  let ?g = "f\<lparr>pos := pos f + 24\<rparr>"
  have rd: "read_struct 24 f = Inr (e, ?g)"
    using Cons.prems(1-3) by (simp add: read_struct_undisturbed)
  have inside: "of_nat (pos f) - sh_offset symtab < sh_size symtab"
  proof -
    have "24 * k < 24 * (k + length (e # es))" by simp
    then have "(of_nat (24 * k) :: u64) < of_nat (24 * (k + length (e # es)))"
      using Cons.prems(6) by (simp only: word_less_nat_alt unat_of_nat) simp
    then show ?thesis using Cons.prems(4,5) by (simp only: add_diff_cancel_left')
  qed
  have "symbol_loop symtab (Some strtab) symbol ?g = Inr (symbol_in strtab symbol es)"
  proof (rule Cons.IH [where k = "Suc k"])
    show "pending ?g = concat es @ r"
      using Cons.prems(2,3) by (simp add: pending_advance)
    show "of_nat (pos ?g) = sh_offset symtab + of_nat (24 * Suc k)"
      using Cons.prems(4) by (simp add: algebra_simps)
  qed (use Cons.prems in simp_all)
  then show ?case
    using inside
    by (simp add: symbol_loop.simps [of symtab "Some strtab" symbol f] rd Let_def str_at_eq_def
        symbol_in_def split: bool.split)
qed

text \<open>
  C19. When \<open>getSymbolTable\<close> has found the symbol and string tables of a library and the symbol
  table lies inside the file, \<open>get_symbol_offset\<close> answers the value of the first entry whose name is
  the symbol, and \<open>-1\<close> when there is none: it looks at every entry and at nothing behind the table.
  The kernel is taken to deliver what each \<open>read\<close> asks for (\<open>answers f = []\<close>).
\<close>

theorem get_symbol_offset_finds:
  assumes "getSymbolTable K m libname = Inr (Some f, sc)"
    and "sc_symtab sc = Some symtab" "sc_strtab sc = Some strtab"
    and "answers f = []" "\<not> sh_offset symtab <s 0"
    and "drop (unat (sh_offset symtab)) (content f) = concat es @ r" "list_all (\<lambda>e. length e = 24) es"
    and "sh_size symtab = of_nat (24 * length es)" "24 * length es < 2 ^ 64"
  shows "get_symbol_offset K m libname symbol = Inr (symbol_in strtab symbol es)"
proof -
  have "symbol_loop symtab (Some strtab) symbol (f\<lparr>pos := unat (sh_offset symtab)\<rparr>) =
      Inr (symbol_in strtab symbol es)"
    by (rule symbol_loop_from [where k = 0]) (use assms in \<open>simp_all add: pending_def\<close>)
  then show ?thesis using assms(1-5) by (simp add: get_symbol_offset_def lseek_set_def)
qed

subsection \<open>A library in the ELF format\<close>

text \<open>
  What the bytes of a file say: the header, the section headers from \<open>e_shoff\<close> on, the
  contents of a section, and the name of a section in the section named by \<open>e_shstrndx\<close>.
\<close>

definition elf_header :: "byte list \<Rightarrow> Ehdr" where
  "elf_header c = ehdr_of_bytes (take 64 c)"

definition section_header :: "byte list \<Rightarrow> nat \<Rightarrow> Shdr" where
  "section_header c i = shdr_of_bytes (take 64 (drop (unat (e_shoff (elf_header c)) + 64 * i) c))"

definition section_headers :: "byte list \<Rightarrow> Shdr list" where
  "section_headers c = map (section_header c) [0..<unat (e_shnum (elf_header c))]"

definition section_data :: "byte list \<Rightarrow> Shdr \<Rightarrow> byte list" where
  "section_data c sh = take (unat (sh_size sh)) (drop (unat (sh_offset sh)) c)"

definition name_table :: "byte list \<Rightarrow> Shdr" where
  "name_table c = section_header c (unat (e_shstrndx (elf_header c)))"

definition section_name :: "byte list \<Rightarrow> Shdr \<Rightarrow> byte list" where
  "section_name c sh = cstr (drop (unat (sh_name sh)) (section_data c (name_table c)))"

definition is_symtab :: "Shdr \<Rightarrow> bool" where
  "is_symtab sh \<longleftrightarrow> sh_type sh = SHT_SYMTAB"

definition is_strtab :: "byte list \<Rightarrow> Shdr \<Rightarrow> bool" where
  "is_strtab c sh \<longleftrightarrow> sh_type sh = SHT_STRTAB \<and> section_name c sh = ELF_STRTAB_SECT"

definition is_debuglink :: "byte list \<Rightarrow> Shdr \<Rightarrow> bool" where
  "is_debuglink c sh \<longleftrightarrow> sh_type sh = SHT_PROGBITS \<and> section_name c sh = ELF_DEBUGLINK_SECT"

text \<open>
  A file (of less than 2 GiB, as \<open>readElfSection\<close> keeps offsets in an \<open>int\<close>) that is well formed as far as
  the reader looks at it: the section headers, anywhere in the file, the section names, and the sections to be read
  lie inside it, names point into a NUL-terminated table, and there is a symbol table and a section
  \<open>.strtab\<close>. There may be any number of other sections.
\<close>

definition inside :: "byte list \<Rightarrow> Shdr \<Rightarrow> bool" where
  "inside c sh \<longleftrightarrow> 0 < unat (sh_offset sh) \<and> unat (sh_offset sh) + unat (sh_size sh) \<le> length c"

definition string_table :: "byte list \<Rightarrow> bool" where
  "string_table bs \<longleftrightarrow> bs \<noteq> [] \<and> last bs = 0"

definition elf_ok :: "byte list \<Rightarrow> bool" where
  "elf_ok c \<longleftrightarrow> length c < 2 ^ 31 \<and> 64 \<le> length c \<and> e_shentsize (elf_header c) = 64 \<and>
     unat (e_shoff (elf_header c)) + 64 * unat (e_shnum (elf_header c)) \<le> length c \<and>
     e_shstrndx (elf_header c) < e_shnum (elf_header c) \<and> inside c (name_table c) \<and>
     string_table (section_data c (name_table c)) \<and>
     list_all (\<lambda>sh. unat (sh_name sh) < length (section_data c (name_table c)) \<and>
        (is_symtab sh \<or> is_strtab c sh \<or> is_debuglink c sh \<longrightarrow> inside c sh)) (section_headers c) \<and>
     list_ex is_symtab (section_headers c) \<and> list_ex (is_strtab c) (section_headers c)"

text \<open>The tables the reader ends up with are the last ones.\<close>

definition elf_symtab :: "byte list \<Rightarrow> Shdr" where
  "elf_symtab c = last (filter is_symtab (section_headers c))"

definition elf_strtab :: "byte list \<Rightarrow> byte list" where
  "elf_strtab c = section_data c (last (filter (is_strtab c) (section_headers c)))"

lemma not_negative_numeral: "\<not> (0 :: u64) <s 0" "\<not> (64 :: u64) <s 0"
  by (simp_all add: not_negative_u64)

text \<open>One step of the scan, and what all of them leave.\<close>

definition note_section :: "byte list \<Rightarrow> Shdr \<Rightarrow> scan \<Rightarrow> scan" where
  "note_section c sh sc =
     (if is_symtab sh then sc\<lparr>sc_symtab := Some sh\<rparr>
      else if is_strtab c sh then sc\<lparr>sc_strtab := Some (section_data c sh)\<rparr>
      else if is_debuglink c sh then sc\<lparr>sc_debug := Some (debug_path (section_data c sh))\<rparr> else sc)"

lemma noted_symtab:
  "sc_symtab (fold (note_section c) hs sc) =
     (if list_ex is_symtab hs then Some (last (filter is_symtab hs)) else sc_symtab sc)"
proof (induction hs arbitrary: sc)
  case (Cons h hs)
  then show ?case by (auto simp: note_section_def filter_empty_conv list_ex_iff)
qed simp

lemma noted_strtab:
  "sc_strtab (fold (note_section c) hs sc) =
     (if list_ex (is_strtab c) hs then Some (section_data c (last (filter (is_strtab c) hs))) else sc_strtab sc)"
proof (induction hs arbitrary: sc)
  case (Cons h hs)
  have "is_strtab c h \<Longrightarrow> \<not> is_symtab h" by (simp add: is_strtab_def is_symtab_def SHT_STRTAB_def SHT_SYMTAB_def)
  with Cons show ?case by (auto simp: note_section_def filter_empty_conv list_ex_iff)
qed simp

lemma read_struct_at:
  assumes "answers f = []" "content f = a @ d @ r" "pos f = length a" "length d = n"
  shows "read_struct n f = Inr (d, f\<lparr>pos := length a + n\<rparr>)"
  using assms by (simp add: read_struct_undisturbed pending_def)

lemma sys_read_undisturbed:
  "answers f = [] \<Longrightarrow> sys_read n f = (Data (take n (pending f)), f\<lparr>pos := pos f + length (take n (pending f))\<rparr>)"
  by (simp add: sys_read.simps Let_def)

lemma readAll_undisturbed:
  assumes "answers f = []"
  shows "readAll n f = (int (length (take n (pending f))), take n (pending f),
    f\<lparr>pos := pos f + length (take n (pending f))\<rparr>)"
proof -
  let ?d = "take n (pending f)"
  let ?g = "f\<lparr>pos := pos f + length ?d\<rparr>"
  have "pending ?g = drop (length ?d) (pending f)" by (simp only: pending_advance)
  then have rest: "sys_read (n - length ?d) ?g = (Data [], ?g)"
    using assms by (simp add: sys_read_undisturbed) linarith
  have "readAll_loop n ?d ?g = (int (length ?d), ?d, ?g)"
    by (subst readAll_loop.simps) (simp only: rest prod.case read_ret.case simp_thms if_True if_cancel)
  moreover have "readAll_loop n [] f = (if ?d = [] then (0, [], f) else readAll_loop n ?d ?g)"
    by (subst readAll_loop.simps) (use assms in \<open>auto simp: sys_read_undisturbed\<close>)
  ultimately show ?thesis by (auto simp: readAll_def)
qed

lemma readElfSection_at:
  assumes "answers f = []" "content f = a @ hdr @ b" "length hdr = 64" "shdr_of_bytes hdr = sh"
    and "content f = c @ data @ d" "length c = unat (sh_offset sh)" "length data = unat (sh_size sh)"
    and "length a < 2 ^ 31" "0 < length c" "length c < 2 ^ 31" "pos f < 2 ^ 31" "k_malloc K (sh_size sh)"
    and "scast (ucast (e_shentsize ehdr) * of_nat sidx :: i32) + e_shoff ehdr = of_nat (length a)"
  shows "readElfSection K f sidx ehdr old = Inr (0, sh, Some data, f)"
proof -
  have off: "sh_offset sh = of_nat (length c)" using assms(6) by simp
  have small: "unat (of_nat n :: u64) = n" "\<not> (of_nat n :: u64) <s 0" if "n < 2 ^ 31" for n
  proof -
    show n: "unat (of_nat n :: u64) = n" using that by (simp add: unat_of_nat)
    show "\<not> (of_nat n :: u64) <s 0" by (rule not_negative_u64) (use that in \<open>simp add: n\<close>)
  qed
  have low: "unat (ucast (of_nat (length c) :: u64) :: i32) = length c"
    using assms(10) by (simp add: unsigned_of_nat take_bit_nat_eq_self)
  have pos32: "0 <s (ucast (of_nat (length c) :: u64) :: i32)"
    by (rule positive_u32) (use assms(9,10) in \<open>simp_all add: low\<close>)
  have hdr: "read_struct 64 (f\<lparr>pos := length a\<rparr>) = Inr (hdr, f\<lparr>pos := length a + 64\<rparr>)"
    using read_struct_at [of "f\<lparr>pos := length a\<rparr>" a hdr b 64] assms(1-3) by simp
  have "readAll (length data) (f\<lparr>pos := length c\<rparr>) =
      (int (length data), data, f\<lparr>pos := length c + length data\<rparr>)"
    using readAll_undisturbed [of "f\<lparr>pos := length c\<rparr>" "length data"] assms(1,5) by (simp add: pending_def)
  then have body: "readAll (unat (sh_size sh)) (f\<lparr>pos := length c\<rparr>) =
      (int (length data), data, f\<lparr>pos := length c + length data\<rparr>)"
    using assms(7) by simp
  show ?thesis
    by (simp add: readElfSection_def Let_def lseek_set_def assms(13) small [OF assms(8)] hdr assms(4)
        pos32 off small [OF assms(10)] small [OF assms(11)] assms(12) body [unfolded off] assms(7))
qed

lemma read_struct_drop:
  assumes "answers f = []" "pos f + n \<le> length (content f)"
  shows "read_struct n f = Inr (take n (drop (pos f) (content f)), f\<lparr>pos := pos f + n\<rparr>)"
  using assms by (simp add: read_struct_undisturbed pending_def)

lemma scast_of_nat:
  assumes "n < 2 ^ 31"
  shows "scast (of_nat n :: i32) = (of_nat n :: u64)"
proof -
  have u: "unat (of_nat n :: i32) = n" using assms by (simp add: unat_of_nat)
  then have "sint (of_nat n :: i32) = int n" using assms sint_small [of "of_nat n :: i32"] by simp
  then show ?thesis by (simp only: scast_eq of_int_of_nat_eq)
qed

lemma section_index:
  assumes "64 * i < 2 ^ 31"
  shows "scast (ucast (64 :: u16) * of_nat i :: i32) = (of_nat (64 * i) :: u64)"
  using scast_of_nat [OF assms] by simp

lemma split_at: "c = take p c @ take n (drop p c) @ drop (p + n) c"
  using append_take_drop_id [of p c] append_take_drop_id [of n "drop p c"] by (simp add: add.commute)

lemma readElfSection_section:
  assumes "elf_ok c" "i < unat (e_shnum (elf_header c))" "inside c (section_header c i)"
    and "content f = c" "answers f = []" "pos f \<le> length c" "k_malloc K (sh_size (section_header c i))"
  shows "readElfSection K f i (elf_header c) old =
    Inr (0, section_header c i, Some (section_data c (section_header c i)), f)"
proof -
  let ?eh = "elf_header c" and ?sh = "section_header c i"
  define p where "p = unat (e_shoff ?eh) + 64 * i"
  have len: "length c < 2 ^ 31" "p + 64 \<le> length c" "e_shentsize ?eh = 64"
    using assms(1,2) by (auto simp: elf_ok_def p_def)
  let ?q = "unat (sh_offset ?sh)" and ?n = "unat (sh_size ?sh)"
  have q: "0 < ?q" "?q + ?n \<le> length c" using assms(3) by (simp_all add: inside_def)
  have "64 * i < 2 ^ 31" using len(1,2) by (simp add: p_def)
  then have "scast (ucast (e_shentsize ?eh) * of_nat i :: i32) = (of_nat (64 * i) :: u64)"
    unfolding len(3) by (rule section_index)
  then have off: "scast (ucast (e_shentsize ?eh) * of_nat i :: i32) + e_shoff ?eh = of_nat p"
    by (simp add: p_def)
  show ?thesis
  proof (rule readElfSection_at [where a = "take p c" and hdr = "take 64 (drop p c)" and b = "drop (p + 64) c" and
        c = "take ?q c" and d = "drop (?q + ?n) c"])
    show "content f = take p c @ take 64 (drop p c) @ drop (p + 64) c"
      unfolding assms(4) by (rule split_at)
    show "content f = take ?q c @ section_data c ?sh @ drop (?q + ?n) c"
      unfolding assms(4) section_data_def by (rule split_at)
    show "shdr_of_bytes (take 64 (drop p c)) = ?sh" by (simp add: section_header_def p_def)
    show "scast (ucast (e_shentsize ?eh) * of_nat i :: i32) + e_shoff ?eh = of_nat (length (take p c))"
      using off len(2) by (simp add: min_absorb2)
  qed (use assms(5-7) len q in \<open>simp_all add: section_data_def min_absorb2\<close>)
qed

lemma scan_section_notes:
  assumes "elf_ok c" "i < unat (e_shnum (elf_header c))" "content f = c" "answers f = []"
    and "pos f = unat (e_shoff (elf_header c)) + 64 * i" "\<forall>n. k_malloc K n"
  shows "scan_section K (elf_header c) (Some (section_data c (name_table c))) i sc f =
    Inr (note_section c (section_header c i) sc, f\<lparr>pos := pos f + 64\<rparr>)"
proof -
  let ?sh = "section_header c i" and ?g = "f\<lparr>pos := pos f + 64\<rparr>"
  have room: "pos f + 64 \<le> length c" using assms(1,2,5) by (auto simp: elf_ok_def)
  have rd: "read_struct 64 f = Inr (take 64 (drop (pos f) c), ?g)"
    using read_struct_drop [of f 64] assms(3,4) room by simp
  have sh: "shdr_of_bytes (take 64 (drop (pos f) c)) = ?sh" by (simp add: section_header_def assms(5))
  have "?sh \<in> set (section_headers c)" using assms(2) by (simp add: section_headers_def)
  then have ins: "is_strtab c ?sh \<or> is_debuglink c ?sh \<Longrightarrow> inside c ?sh"
    using assms(1) by (auto simp: elf_ok_def list_all_iff)
  have sec: "readElfSection K ?g i (elf_header c) old = Inr (0, ?sh, Some (section_data c ?sh), ?g)"
    if "is_strtab c ?sh \<or> is_debuglink c ?sh" for old
    by (rule readElfSection_section [OF assms(1,2) ins [OF that]]) (use assms(3,4,6) room in simp_all)
  have name: "str_at_eq (Some (section_data c (name_table c))) (sh_name ?sh) s = Inr (section_name c ?sh = s)" for s
    by (simp add: str_at_eq_def section_name_def)
  have kinds: "SHT_SYMTAB \<noteq> SHT_STRTAB" "SHT_SYMTAB \<noteq> SHT_PROGBITS" "SHT_STRTAB \<noteq> SHT_PROGBITS"
    by (simp_all add: SHT_STRTAB_def SHT_SYMTAB_def SHT_PROGBITS_def)
  consider "is_symtab ?sh" | "is_strtab c ?sh" | "is_debuglink c ?sh"
    | "\<not> is_symtab ?sh" "\<not> is_strtab c ?sh" "\<not> is_debuglink c ?sh" by blast
  then show ?thesis
  proof cases
    case 1
    then show ?thesis by (simp add: scan_section_def rd sh note_section_def is_symtab_def)
  next
    case 2
    then have ty: "sh_type ?sh = SHT_STRTAB" "section_name c ?sh = ELF_STRTAB_SECT" by (simp_all add: is_strtab_def)
    then show ?thesis
      using 2 sec [of "sc_strtab sc"] kinds
      by (simp add: scan_section_def rd sh note_section_def is_symtab_def name)
  next
    case 3
    then have ty: "sh_type ?sh = SHT_PROGBITS" "section_name c ?sh = ELF_DEBUGLINK_SECT" by (simp_all add: is_debuglink_def)
    then show ?thesis
      using 3 sec [of None] kinds
      by (simp add: scan_section_def rd sh note_section_def is_symtab_def is_strtab_def name)
  next
    case 4
    then show ?thesis
      by (auto simp: scan_section_def rd sh note_section_def is_symtab_def is_strtab_def is_debuglink_def name Let_def)
  qed
qed

lemma scan_sections_note:
  assumes "elf_ok c" "i \<le> unat (e_shnum (elf_header c))" "content f = c" "answers f = []"
    and "pos f = unat (e_shoff (elf_header c)) + 64 * i" "\<forall>n. k_malloc K n"
  shows "\<exists>p. scan_sections K (elf_header c) (Some (section_data c (name_table c)))
      [i..<unat (e_shnum (elf_header c))] sc f =
    Inr (fold (note_section c) (map (section_header c) [i..<unat (e_shnum (elf_header c))]) sc, f\<lparr>pos := p\<rparr>)"
  using assms(2-5)
proof (induction "unat (e_shnum (elf_header c)) - i" arbitrary: i sc f)
  case 0
  then have "[i..<unat (e_shnum (elf_header c))] = []" "f = f\<lparr>pos := pos f\<rparr>" by simp_all
  then show ?case by (metis scan_sections.simps(1) fold_simps(1) list.map(1))
next
  case (Suc n)
  then have i: "i < unat (e_shnum (elf_header c))" by simp
  let ?g = "f\<lparr>pos := pos f + 64\<rparr>"
  have "\<exists>p. scan_sections K (elf_header c) (Some (section_data c (name_table c)))
      [Suc i..<unat (e_shnum (elf_header c))] (note_section c (section_header c i) sc) ?g =
    Inr (fold (note_section c) (map (section_header c) [Suc i..<unat (e_shnum (elf_header c))])
      (note_section c (section_header c i) sc), ?g\<lparr>pos := p\<rparr>)"
    by (rule Suc.hyps(1)) (use Suc.hyps(2) Suc.prems i in simp_all)
  then show ?case
    using scan_section_notes [OF assms(1) i Suc.prems(2-4) assms(6), of sc] i
    by (auto simp: upt_conv_Cons)
qed

lemma elf_ok_symtab:
  assumes "elf_ok c"
  shows "inside c (elf_symtab c)"
proof -
  have "filter is_symtab (section_headers c) \<noteq> []" using assms by (auto simp: elf_ok_def list_ex_iff filter_empty_conv)
  then have "elf_symtab c \<in> set (filter is_symtab (section_headers c))" unfolding elf_symtab_def by (rule last_in_set)
  then show ?thesis using assms by (auto simp: elf_ok_def list_all_iff)
qed

lemma elf_getSymbolTable:
  assumes "elf_ok c" "\<forall>n. k_malloc K n" "open_ro K libname m = Some \<lparr>content = c, pos = 0, answers = []\<rparr>"
  shows "\<exists>p sc. getSymbolTable K m libname = Inr (Some \<lparr>content = c, pos = p, answers = []\<rparr>, sc) \<and>
    sc_symtab sc = Some (elf_symtab c) \<and> sc_strtab sc = Some (elf_strtab c)"
proof -
  let ?eh = "elf_header c" and ?f = "\<lambda>p. \<lparr>content = c, pos = p, answers = []\<rparr>"
  let ?sc = "\<lparr>sc_symtab = None, sc_strtab = None, sc_debug = None\<rparr>"
  have ok: "64 \<le> length c" "length c < 2 ^ 31" "e_shstrndx ?eh < e_shnum ?eh" "inside c (name_table c)"
    "unat (e_shoff ?eh) \<le> length c" "list_ex is_symtab (section_headers c)" "list_ex (is_strtab c) (section_headers c)"
    using assms(1) by (auto simp: elf_ok_def)
  have rd: "read_struct 64 (?f 0) = Inr (take 64 c, ?f 64)"
    using read_struct_drop [of "?f 0" 64] ok(1) by simp
  have zero: "snd (lseek_set 0 (?f 0)) = ?f 0" by (simp add: lseek_set_def)
  have names: "readElfSection K (?f 64) (unat (e_shstrndx ?eh)) ?eh None =
      Inr (0, name_table c, Some (section_data c (name_table c)), ?f 64)"
    unfolding name_table_def
    by (rule readElfSection_section [OF assms(1)]) (use ok assms(2) in \<open>simp_all add: name_table_def word_less_nat_alt\<close>)
  have "\<not> e_shoff ?eh <s 0" by (rule not_negative_u64) (use ok in simp)
  then have seek: "snd (lseek_set (e_shoff ?eh) (?f 64)) = ?f (unat (e_shoff ?eh))" by (simp add: lseek_set_def)
  obtain p where scan: "scan_sections K ?eh (Some (section_data c (name_table c))) [0..<unat (e_shnum ?eh)] ?sc
      (?f (unat (e_shoff ?eh))) = Inr (fold (note_section c) (section_headers c) ?sc, ?f p)"
    using scan_sections_note [OF assms(1), of 0 "?f (unat (e_shoff ?eh))" K ?sc] assms(2)
    by (auto simp: section_headers_def)
  let ?r = "fold (note_section c) (section_headers c) ?sc"
  have r: "sc_symtab ?r = Some (elf_symtab c)" "sc_strtab ?r = Some (elf_strtab c)"
    using ok(6,7) by (simp_all add: noted_symtab noted_strtab elf_symtab_def elf_strtab_def)
  have two: "getSymbolTable_loop K m 2 = getSymbolTable_loop K m (Suc 1)" by (simp add: numeral_2_eq_2)
  have "getSymbolTable K m libname = Inr (Some (?f p), ?r)"
    unfolding getSymbolTable_def two getSymbolTable_loop.simps assms(3) option.case zero rd andThen.simps
      Let_def elf_header_def [symmetric] prod.case names seek scan
    using r by simp
  then show ?thesis using r by blast
qed

lemma elf_symtab_entries:
  assumes "elf_ok c" "section_data c (elf_symtab c) = concat es" "list_all (\<lambda>e. length e = 24) es"
  shows "\<not> sh_offset (elf_symtab c) <s 0" "24 * length es < 2 ^ 64" "sh_size (elf_symtab c) = of_nat (24 * length es)"
    and "\<exists>r. drop (unat (sh_offset (elf_symtab c))) c = concat es @ r"
proof -
  let ?sy = "elf_symtab c"
  have ins: "inside c ?sy" by (rule elf_ok_symtab [OF assms(1)])
  have "length c < 2 ^ 31" using assms(1) by (simp add: elf_ok_def)
  moreover have len: "length (concat es) = 24 * length es" using assms(3) by (induction es) simp_all
  moreover have size: "unat (sh_size ?sy) = length (concat es)"
    unfolding assms(2) [symmetric] using ins by (simp add: section_data_def inside_def min_absorb2 le_diff_conv2)
  ultimately have "24 * length es < 2 ^ 31" "unat (sh_offset ?sy) < 2 ^ 31" using ins by (simp_all add: inside_def)
  then show "\<not> sh_offset ?sy <s 0" "24 * length es < 2 ^ 64" by (simp_all add: not_negative_u64)
  have "sh_size ?sy = of_nat (unat (sh_size ?sy))" by simp
  then show "sh_size ?sy = of_nat (24 * length es)" by (simp only: size len)
  have "drop (unat (sh_offset ?sy)) c = concat es @ drop (unat (sh_offset ?sy) + unat (sh_size ?sy)) c"
    unfolding assms(2) [symmetric] section_data_def
    using append_take_drop_id [of "unat (sh_size ?sy)" "drop (unat (sh_offset ?sy)) c"] by (simp add: add.commute)
  then show "\<exists>r. drop (unat (sh_offset ?sy)) c = concat es @ r" by blast
qed

lemma elf_lookup:
  assumes "elf_ok c" "\<forall>n. k_malloc K n" "open_ro K libname m = Some \<lparr>content = c, pos = 0, answers = []\<rparr>"
    and "section_data c (elf_symtab c) = concat es" "list_all (\<lambda>e. length e = 24) es"
  shows "get_symbol_offset K m libname symbol = Inr (symbol_in (elf_strtab c) symbol es)"
proof -
  let ?sy = "elf_symtab c"
  obtain p sc where t: "getSymbolTable K m libname = Inr (Some \<lparr>content = c, pos = p, answers = []\<rparr>, sc)"
    "sc_symtab sc = Some ?sy" "sc_strtab sc = Some (elf_strtab c)"
    using elf_getSymbolTable [OF assms(1-3)] by blast
  note sy = elf_symtab_entries [OF assms(1,4,5)]
  obtain r where "drop (unat (sh_offset ?sy)) c = concat es @ r" using sy(4) by blast
  then have "symbol_loop ?sy (Some (elf_strtab c)) symbol \<lparr>content = c, pos = unat (sh_offset ?sy), answers = []\<rparr> =
      Inr (symbol_in (elf_strtab c) symbol es)"
    by (intro symbol_loop_from [where k = 0]) (use assms(5) sy(2,3) in \<open>simp_all add: pending_def\<close>)
  then show ?thesis using t sy(1) by (simp add: get_symbol_offset_def lseek_set_def)
qed


subsection \<open>A library on disk\<close>

text \<open>
  A library with one symbol table: the header, whose 40 bytes before \<open>e_shoff\<close> and 10 bytes behind it are
  free, the null section header and those of \<open>.symtab\<close>, \<open>.strtab\<close> and \<open>.shstrtab\<close>, the section names, the
  two tables, and what follows them.
\<close>

definition raw_ehdr :: "byte list \<Rightarrow> byte list \<Rightarrow> u64 \<Rightarrow> u16 \<Rightarrow> u16 \<Rightarrow> byte list" where
  "raw_ehdr pre mid shoff shnum shstrndx = pre @ le_bytes 8 shoff @ mid @
     le_bytes 2 (64 :: u16) @ le_bytes 2 shnum @ le_bytes 2 shstrndx"

definition raw_shdr :: "u32 \<Rightarrow> u32 \<Rightarrow> u64 \<Rightarrow> u64 \<Rightarrow> byte list" where
  "raw_shdr nm ty off n = le_bytes 4 nm @ le_bytes 4 ty @ replicate 16 0 @ le_bytes 8 off @
     le_bytes 8 n @ replicate 24 0"

definition raw_sym :: "u32 \<Rightarrow> u64 \<Rightarrow> byte list" where
  "raw_sym nm val = le_bytes 4 nm @ replicate 4 0 @ le_bytes 8 val @ replicate 8 0"

lemma le_word_u16 [codec_simps]: "le_word (le_bytes 2 w) = (w :: u16)"
  by (simp add: le_word_le_bytes take_bit_word_eq_self)

lemma length_raw [simp]:
  "length pre = 40 \<Longrightarrow> length mid = 10 \<Longrightarrow> length (raw_ehdr pre mid a b c) = 64" "length (raw_shdr nm ty off n) = 64" "length (raw_sym nm val) = 24"
  by (simp_all add: raw_ehdr_def raw_shdr_def raw_sym_def)

lemma raw_ehdr_fields [codec_simps]:
  assumes "length pre = 40" "length mid = 10"
  shows "e_shoff (ehdr_of_bytes (raw_ehdr pre mid a b c)) = a" "e_shnum (ehdr_of_bytes (raw_ehdr pre mid a b c)) = b"
    "e_shstrndx (ehdr_of_bytes (raw_ehdr pre mid a b c)) = c" "e_shentsize (ehdr_of_bytes (raw_ehdr pre mid a b c)) = 64"
  using assms by (simp_all add: ehdr_of_bytes_def field_def raw_ehdr_def codec_simps)

lemma raw_fields [codec_simps]:
  "shdr_of_bytes (raw_shdr nm ty off n) = \<lparr>sh_name = nm, sh_type = ty, sh_offset = off, sh_size = n\<rparr>"
  "sym_of_bytes (raw_sym nm val) = \<lparr>st_name = nm, st_value = val\<rparr>"
  by (simp_all add: ehdr_of_bytes_def shdr_of_bytes_def sym_of_bytes_def field_def raw_ehdr_def
      raw_shdr_def raw_sym_def codec_simps)

definition section_names :: "byte list" where
  "section_names = 0 # bytes_of ''.symtab'' @ 0 # bytes_of ''.strtab'' @ 0 # bytes_of ''.shstrtab'' @ [0]"

definition elf_file :: "byte list \<Rightarrow> byte list \<Rightarrow> byte list list \<Rightarrow> byte list \<Rightarrow> byte list \<Rightarrow> byte list" where
  "elf_file pre mid es strtab rest = raw_ehdr pre mid 64 4 3 @
     raw_shdr 0 0 0 0 @ raw_shdr 1 SHT_SYMTAB 347 (of_nat (24 * length es)) @
     raw_shdr 9 SHT_STRTAB (347 + of_nat (24 * length es)) (of_nat (length strtab)) @
     raw_shdr 17 SHT_STRTAB 320 27 @
     section_names @ concat es @ strtab @ rest"

definition elf_lib :: "byte list list \<Rightarrow> byte list \<Rightarrow> byte list" where
  "elf_lib es strtab = elf_file (replicate 40 0) (replicate 10 0) es strtab []"

lemma length_concat_24: "list_all (\<lambda>e. length e = 24) es \<Longrightarrow> length (concat es) = 24 * length es"
  by (induction es) simp_all

lemma section_names_facts:
  "length section_names = 27" "string_table section_names"
  "cstr (drop 9 section_names) = ELF_STRTAB_SECT" "cstr (drop 17 section_names) \<noteq> ELF_STRTAB_SECT"
  by (simp_all add: section_names_def ELF_STRTAB_SECT_def bytes_of_def cstr_def string_table_def)

lemma elf_file_facts:
  assumes "347 + 24 * length es + length strtab + length rest < 2 ^ 31" "list_all (\<lambda>e. length e = 24) es"
    and "length pre = 40" "length mid = 10"
  defines "c \<equiv> elf_file pre mid es strtab rest"
  shows "elf_ok c" "section_data c (elf_symtab c) = concat es" "elf_strtab c = strtab"
proof -
  define h0 where "h0 = raw_shdr 0 0 0 0"
  define h1 where "h1 = raw_shdr 1 SHT_SYMTAB 347 (of_nat (24 * length es))"
  define h2 where "h2 = raw_shdr 9 SHT_STRTAB (347 + of_nat (24 * length es)) (of_nat (length strtab))"
  define h3 where "h3 = raw_shdr 17 SHT_STRTAB 320 27"
  let ?eh = "raw_ehdr pre mid 64 4 3"
  have len: "length h0 = 64" "length h1 = 64" "length h2 = 64" "length h3 = 64" "length ?eh = 64"
    "length (concat es) = 24 * length es"
    using assms(3,4) length_concat_24 [OF assms(2)] by (simp_all add: h0_def h1_def h2_def h3_def)
  have c: "c = ?eh @ h0 @ h1 @ h2 @ h3 @ section_names @ concat es @ strtab @ rest"
    by (simp add: c_def elf_file_def h0_def h1_def h2_def h3_def)
  have eh: "elf_header c = ehdr_of_bytes ?eh" by (simp add: elf_header_def c len)
  note ehf = raw_ehdr_fields [OF assms(3,4), of 64 4 3]
  have at: "section_header c i = shdr_of_bytes (take 64 (drop (64 + 64 * i) c))" for i
    by (simp add: section_header_def eh ehf)
  define s1 where "s1 = \<lparr>sh_name = 1, sh_type = SHT_SYMTAB, sh_offset = 347, sh_size = of_nat (24 * length es)\<rparr>"
  define s2 where "s2 = \<lparr>sh_name = 9, sh_type = SHT_STRTAB, sh_offset = 347 + of_nat (24 * length es),
    sh_size = of_nat (length strtab)\<rparr>"
  have "section_header c 0 = \<lparr>sh_name = 0, sh_type = 0, sh_offset = 0, sh_size = 0\<rparr>"
    "section_header c 1 = s1" "section_header c 2 = s2"
    "section_header c 3 = \<lparr>sh_name = 17, sh_type = SHT_STRTAB, sh_offset = 320, sh_size = 27\<rparr>"
    unfolding at by (simp_all add: c len s1_def s2_def) (simp_all add: h0_def h1_def h2_def h3_def raw_fields)
  note sh = this
  have off: "unat (347 + of_nat (24 * length es) :: u64) = 347 + 24 * length es"
    "unat (of_nat (length strtab) :: u64) = length strtab" "unat (of_nat (24 * length es) :: u64) = 24 * length es"
    using assms(1) by (simp_all add: unat_word_ariths unat_of_nat)
  have "[0..<4] = [0, 1, 2, 3]" by (simp add: upt_rec)
  then have hs: "section_headers c = [\<lparr>sh_name = 0, sh_type = 0, sh_offset = 0, sh_size = 0\<rparr>, s1, s2,
      \<lparr>sh_name = 17, sh_type = SHT_STRTAB, sh_offset = 320, sh_size = 27\<rparr>]"
    using sh by (simp add: section_headers_def eh ehf del: One_nat_def)
  have nt: "name_table c = \<lparr>sh_name = 17, sh_type = SHT_STRTAB, sh_offset = 320, sh_size = 27\<rparr>"
    using sh(4) by (simp add: name_table_def eh ehf)
  have names: "section_data c (name_table c) = section_names"
    unfolding nt section_data_def by (simp add: c len section_names_facts)
  have kinds: "is_symtab s1" "\<not> is_symtab s2" "\<not> is_strtab c s1" "is_strtab c s2" "\<not> is_debuglink c s1" "\<not> is_debuglink c s2"
    by (simp_all add: is_symtab_def is_strtab_def is_debuglink_def section_name_def names s1_def s2_def
        section_names_facts SHT_STRTAB_def SHT_SYMTAB_def SHT_PROGBITS_def)
  have others: "\<not> is_symtab h \<and> \<not> is_strtab c h \<and> \<not> is_debuglink c h"
    if "h = \<lparr>sh_name = 0, sh_type = 0, sh_offset = 0, sh_size = 0\<rparr> \<or>
        h = \<lparr>sh_name = 17, sh_type = SHT_STRTAB, sh_offset = 320, sh_size = 27\<rparr>" for h
    using that section_names_facts(4)
    by (auto simp: is_symtab_def is_strtab_def is_debuglink_def section_name_def names
        SHT_STRTAB_def SHT_SYMTAB_def SHT_PROGBITS_def)
  have total: "length c = 347 + 24 * length es + length strtab + length rest"
    by (simp add: c len section_names_facts)
  show sy: "section_data c (elf_symtab c) = concat es"
    using kinds others by (simp add: elf_symtab_def hs) (simp add: s1_def section_data_def off [simplified] c len section_names_facts)
  show "elf_strtab c = strtab"
    using kinds others by (simp add: elf_strtab_def hs) (simp add: s2_def section_data_def off [simplified] c len section_names_facts)
  show "elf_ok c"
    unfolding elf_ok_def
  proof (intro conjI)
    show "list_all (\<lambda>sh. unat (sh_name sh) < length (section_data c (name_table c)) \<and>
        (is_symtab sh \<or> is_strtab c sh \<or> is_debuglink c sh \<longrightarrow> inside c sh)) (section_headers c)"
      using others by (simp add: hs names section_names_facts)
        (simp add: s1_def s2_def inside_def off [simplified] total)
  qed (use assms(1) kinds in \<open>simp_all add: total eh ehf hs names [unfolded nt] section_names_facts inside_def nt word_less_nat_alt\<close>)
qed

lemma elf_file_lookup:
  assumes "347 + 24 * length es + length strtab + length rest < 2 ^ 31" "list_all (\<lambda>e. length e = 24) es"
    and "\<forall>n. k_malloc K n" "length pre = 40" "length mid = 10"
    and "open_ro K libname m = Some \<lparr>content = elf_file pre mid es strtab rest, pos = 0, answers = []\<rparr>"
  shows "get_symbol_offset K m libname symbol = Inr (symbol_in strtab symbol es)"
  using elf_lookup [OF elf_file_facts(1) [OF assms(1,2,4,5)] assms(3,6)] elf_file_facts(2,3) [OF assms(1,2,4,5)] assms(2)
  by simp

lemma elf_lib_lookup:
  assumes "347 + 24 * length es + length strtab < 2 ^ 31" "list_all (\<lambda>e. length e = 24) es"
    and "\<forall>n. k_malloc K n" "open_ro K libname m = Some \<lparr>content = elf_lib es strtab, pos = 0, answers = []\<rparr>"
  shows "get_symbol_offset K m libname symbol = Inr (symbol_in strtab symbol es)"
  by (rule elf_file_lookup [OF _ assms(2,3) _ _ assms(4) [unfolded elf_lib_def]]) (use assms(1) in simp_all)

text \<open>A library of two functions, and a machine that has it on disk.\<close>

definition tiny_strtab :: "byte list" where
  "tiny_strtab = 0 # bytes_of ''brk'' @ 0 # bytes_of ''sbrk'' @ [0]"

definition tiny_syms :: "byte list list" where
  "tiny_syms = [raw_sym 0 0, raw_sym 1 0x11, raw_sym 5 0x22]"

definition tiny_machine :: machine where
  "tiny_machine = empty_machine\<lparr>files := [bytes_of ''lib'' \<mapsto> elf_lib tiny_syms tiny_strtab]\<rparr>"

lemma tiny_elf:
  "elf_ok (elf_lib tiny_syms tiny_strtab)"
  "section_data (elf_lib tiny_syms tiny_strtab) (elf_symtab (elf_lib tiny_syms tiny_strtab)) = concat tiny_syms"
  "elf_strtab (elf_lib tiny_syms tiny_strtab) = tiny_strtab"
  unfolding elf_lib_def
  by (rule elf_file_facts; simp add: tiny_syms_def tiny_strtab_def)+

lemma tiny_facts:
  "list_all (\<lambda>e. length e = 24) tiny_syms" "\<forall>n. k_malloc plain_kernel n"
  "open_ro plain_kernel (bytes_of ''lib'') tiny_machine =
     Some \<lparr>content = elf_lib tiny_syms tiny_strtab, pos = 0, answers = []\<rparr>"
  "symbol_in tiny_strtab (bytes_of ''sbrk'') tiny_syms = 0x22"
  "list_all (\<lambda>e. unat (st_name (sym_of_bytes e)) < length tiny_strtab) tiny_syms" "string_table tiny_strtab"
  by (simp_all add: tiny_syms_def tiny_strtab_def plain_kernel_def open_ro_def tiny_machine_def
      symbol_in_def codec_simps bytes_of_def cstr_def string_table_def)


theorem get_symbol_offset_finds_witness:
  "get_symbol_offset plain_kernel tiny_machine (bytes_of ''lib'') (bytes_of ''sbrk'') = Inr 0x22"
proof -
  let ?c = "elf_lib tiny_syms tiny_strtab"
  obtain p sc where t: "getSymbolTable plain_kernel tiny_machine (bytes_of ''lib'') =
      Inr (Some \<lparr>content = ?c, pos = p, answers = []\<rparr>, sc)"
    "sc_symtab sc = Some (elf_symtab ?c)" "sc_strtab sc = Some (elf_strtab ?c)"
    using elf_getSymbolTable [OF tiny_elf(1) tiny_facts(2,3)] by blast
  note sy = elf_symtab_entries [OF tiny_elf(1,2) tiny_facts(1)]
  obtain r where r: "drop (unat (sh_offset (elf_symtab ?c))) ?c = concat tiny_syms @ r" using sy(4) by blast
  have "get_symbol_offset plain_kernel tiny_machine (bytes_of ''lib'') (bytes_of ''sbrk'') =
      Inr (symbol_in (elf_strtab ?c) (bytes_of ''sbrk'') tiny_syms)"
    by (rule get_symbol_offset_finds [OF t]) (use sy r tiny_facts(1) in simp_all)
  then show ?thesis by (simp add: tiny_elf(3) tiny_facts(4))
qed

end
