(* ===== verification/Trampoline.thy ===== *)
theory Trampoline
  imports Machine
begin

text \<open>
  \<open>insertTrampoline\<close> of \<open>trampoline_setup.c\<close> (the x86-64 variant): it overwrites the first
  instructions of a function with a jump. The two \<open>memcpy\<close>s are stores that fault unless the
  bytes they write are writable.
\<close>

definition asm_jump :: "byte list" where
  "asm_jump = [0x48, 0xb8, 0x78, 0x56, 0x34, 0x12, 0x78, 0x56, 0x34, 0x12, 0xff, 0xe0]"

definition addr_offset :: u64 where "addr_offset = 2"

definition insertTrampoline :: "kernel \<Rightarrow> va \<Rightarrow> va \<Rightarrow> 'a machine_scheme \<Rightarrow>
    (int \<times> 'a machine_scheme) run" where
  "insertTrampoline K from_addr to_addr m =
     (if from_addr = 0 \<or> to_addr = 0 then Inr (-1, m)
      else
        let page_base = ROUND_DOWN from_addr;
            page_length = (if from_addr + of_nat (length asm_jump) - page_base > PAGE_SIZE
                           then 2 * PAGE_SIZE else PAGE_SIZE);
            (rc, m) = sys_mprotect K page_base page_length (PROT_READ OR PROT_WRITE OR PROT_EXEC) m
        in if rc < 0 then Inr (-1, m)
           else
             andThen (store from_addr asm_jump m) (\<lambda>m.
             andThen (store (from_addr + addr_offset) (le_bytes 8 to_addr) m) (\<lambda>m.
               let (rc, m) = sys_mprotect K page_base page_length (PROT_READ OR PROT_EXEC) m
               in if rc < 0 then Inr (-1, m) else Inr (rc, m))))"

text \<open>
  The instructions as the processor reads them: \<open>mov imm64, %rax\<close> and \<open>jmp *%rax\<close>. The target of
  the jump, when the bytes are these two instructions.
\<close>

definition jump_target :: "byte list \<Rightarrow> va option" where
  "jump_target bs =
     (if length bs = 12 \<and> take 2 bs = [0x48, 0xb8] \<and> drop 10 bs = [0xff, 0xe0]
      then Some (le_word (take 8 (drop 2 bs))) else None)"

section \<open>The pages the patch touches\<close>

definition patch_pages :: "va \<Rightarrow> u64" where
  "patch_pages from_addr =
     (if from_addr + of_nat (length asm_jump) - ROUND_DOWN from_addr > PAGE_SIZE
      then 2 * PAGE_SIZE else PAGE_SIZE)"

lemma page_offset: "unat (x - ROUND_DOWN x) = unat x mod 4096"
proof -
  have "unat (ROUND_DOWN x) \<le> unat x" by (simp add: unat_ROUND_DOWN)
  then have "unat (x - ROUND_DOWN x) = unat x - unat (ROUND_DOWN x)"
    by (simp add: unat_sub word_le_nat_alt)
  then show ?thesis by (simp add: unat_ROUND_DOWN minus_div_mult_eq_mod)
qed

lemma ROUND_UP_patch_pages: "ROUND_UP (patch_pages a) = patch_pages a"
  by (rule ROUND_UP_aligned) (simp add: patch_pages_def PAGE_SIZE_def page_aligned_iff)

text \<open>Every byte of the patch lies in the pages made writable, also at the end of a page.\<close>

lemma patch_in_pages:
  assumes "i < 12"
  shows "in_range (ROUND_DOWN a) (patch_pages a) (a + of_nat i)"
proof -
  define d where "d = a - ROUND_DOWN a"
  have d: "unat d < 4096" by (simp add: d_def page_offset)
  have eq: "a + of_nat k - ROUND_DOWN a = d + of_nat k" for k by (simp add: d_def)
  have u: "unat (d + of_nat k) = unat d + k" if "k \<le> 12" for k
    using d that by (simp add: unat_word_ariths unat_of_nat)
  have "patch_pages a = (if d + of_nat 12 > PAGE_SIZE then 2 * PAGE_SIZE else PAGE_SIZE)"
    by (simp only: patch_pages_def eq) (simp add: asm_jump_def)
  then have "unat d + i < unat (patch_pages a)"
    using d u [of 12] assms by (simp add: PAGE_SIZE_def word_less_nat_alt)
  then show ?thesis
    using u [of i] assms by (simp only: in_range_def eq word_less_nat_alt)
qed

lemma patch_offset_in_pages:
  "i < 8 \<Longrightarrow> in_range (ROUND_DOWN a) (patch_pages a) (a + addr_offset + of_nat i)"
  using patch_in_pages [of "i + 2" a] by (simp add: addr_offset_def ac_simps)

section \<open>What a patched function does\<close>

lemma poke_poke_inner:
  assumes "k + length e \<le> length d" "length d \<le> 2 ^ 64"
  shows "poke (a + of_nat k) e (poke a d m) = poke a (take k d @ e @ drop (k + length e) d) m"
proof -
  have "mem (poke (a + of_nat k) e (poke a d m)) x =
      mem (poke a (take k d @ e @ drop (k + length e) d) m) x" for x
  proof (cases "k = 2 ^ 64")
    case True
    then have "length e = 0" using assms by linarith
    then have "e = []" by simp
    then show ?thesis using assms True by (simp add: mem_poke)
  next
    case False
    define i where "i = unat (x - a)"
    have i: "i < 2 ^ 64" unfolding i_def by (rule unat_u64)
    have k: "unat (of_nat k :: u64) = k"
      using False assms by (simp add: unat_of_nat)
    have "unat (x - (a + of_nat k)) = unat (x - a - of_nat k)" by (simp add: algebra_simps)
    also have "\<dots> = (if k \<le> i then i - k else i + 2 ^ 64 - k)"
      by (simp add: unat_sub_if' k i_def)
    finally have j: "unat (x - (a + of_nat k)) = \<dots>" .
    show ?thesis
      using assms i unfolding mem_poke j i_def [symmetric]
      by (auto simp: nth_append not_less)
  qed
  then show ?thesis by (simp add: poke_def fun_eq_iff)
qed

lemma patched_bytes:
  "poke (a + addr_offset) (le_bytes 8 t) (poke a asm_jump m) =
    poke a ([0x48, 0xb8] @ le_bytes 8 t @ [0xff, 0xe0]) m"
  using poke_poke_inner [of 2 "le_bytes 8 t" asm_jump a m] by (simp add: asm_jump_def addr_offset_def)

lemma jump_target_patch: "jump_target ([0x48, 0xb8] @ le_bytes 8 t @ [0xff, 0xe0]) = Some t"
  by (simp add: jump_target_def codec_simps)

definition patched :: "va \<Rightarrow> va \<Rightarrow> 'a machine_scheme \<Rightarrow> 'a machine_scheme" where
  "patched a t m = (poke a ([0x48, 0xb8] @ le_bytes 8 t @ [0xff, 0xe0]) m)\<lparr>prot_at :=
     (\<lambda>x. if in_range (ROUND_DOWN a) (patch_pages a) x then Some (PROT_READ OR PROT_EXEC)
          else prot_at m x)\<rparr>"

lemma patch_stores:
  assumes "\<And>x. in_range (ROUND_DOWN a) (patch_pages a) x \<Longrightarrow>
      prot_at m x = Some (PROT_READ OR PROT_WRITE OR PROT_EXEC)"
  shows "store a asm_jump m = Inr (poke a asm_jump m)"
    and "store (a + addr_offset) (le_bytes 8 t) (poke a asm_jump m) =
      Inr (poke a ([0x48, 0xb8] @ le_bytes 8 t @ [0xff, 0xe0]) m)"
proof -
  have "has_flag (PROT_READ OR PROT_WRITE OR PROT_EXEC) PROT_WRITE"
    by (simp add: has_flag_def flag_defs)
  then have "all_prot PROT_WRITE m a (length asm_jump)" "all_prot PROT_WRITE m (a + addr_offset) 8"
    using assms by (auto simp: all_prot_iff patch_in_pages patch_offset_in_pages asm_jump_def)
  then show "store a asm_jump m = Inr (poke a asm_jump m)"
    "store (a + addr_offset) (le_bytes 8 t) (poke a asm_jump m) =
      Inr (poke a ([0x48, 0xb8] @ le_bytes 8 t @ [0xff, 0xe0]) m)"
    using patched_bytes [of a t m] by (simp_all add: store_def all_prot_iff)
qed

lemma mem_patched: "\<not> in_range a 12 x \<Longrightarrow> mem (patched a t m) x = mem m x"
  using unat_poke_range [of "[0x48, 0xb8] @ le_bytes 8 t @ [0xff, 0xe0]" 12 x a]
  by (simp add: patched_def mem_poke)

lemma prot_patched: "prot_at (patched a t m) x =
    (if in_range (ROUND_DOWN a) (patch_pages a) x then Some (PROT_READ OR PROT_EXEC) else prot_at m x)"
  by (simp add: patched_def)

lemma jump_target_patched: "jump_target (peek (patched a t m) a 12) = Some t"
proof -
  let ?code = "[0x48, 0xb8] @ le_bytes 8 t @ [0xff, 0xe0] :: byte list"
  have "peek (patched a t m) a (length ?code) = peek (poke a ?code m) a (length ?code)"
    by (simp add: patched_def peek_def)
  also have "\<dots> = ?code" by (rule peek_poke) simp
  finally have "peek (patched a t m) a 12 = ?code" by simp
  then show ?thesis using jump_target_patch [of t] by simp
qed

text \<open>What one call does, in three outcomes; the stores never fault.\<close>

lemma insertTrampoline_cases:
  assumes "kernel_ok K"
  obtains (refused) "insertTrampoline K a t m = Inr (-1, m)"
    | (unprotected) m' where "insertTrampoline K a t m = Inr (-1, m')" "a \<noteq> 0" "t \<noteq> 0"
      "m' = poke a ([0x48, 0xb8] @ le_bytes 8 t @ [0xff, 0xe0]) (m\<lparr>prot_at :=
         (\<lambda>x. if in_range (ROUND_DOWN a) (patch_pages a) x
              then Some (PROT_READ OR PROT_WRITE OR PROT_EXEC) else prot_at m x)\<rparr>)"
      "\<And>x. in_range (ROUND_DOWN a) (patch_pages a) x \<Longrightarrow> prot_at m x \<noteq> None"
    | (installed) "insertTrampoline K a t m = Inr (0, patched a t m)" "a \<noteq> 0" "t \<noteq> 0"
      "\<And>x. in_range (ROUND_DOWN a) (patch_pages a) x \<Longrightarrow> prot_at m x \<noteq> None"
proof (cases "a = 0 \<or> t = 0")
  case True
  then show thesis using refused by (simp add: insertTrampoline_def)
next
  case False
  let ?rwx = "PROT_READ OR PROT_WRITE OR PROT_EXEC"
  let ?code = "[0x48, 0xb8] @ le_bytes 8 t @ [0xff, 0xe0] :: byte list"
  let ?m1 = "m\<lparr>prot_at := (\<lambda>x. if in_range (ROUND_DOWN a) (patch_pages a) x then Some ?rwx else prot_at m x)\<rparr>"
  note eq = insertTrampoline_def [of K a t m, unfolded Let_def, folded patch_pages_def]
  obtain rc m1 where p1: "sys_mprotect K (ROUND_DOWN a) (patch_pages a) ?rwx m = (rc, m1)" by fastforce
  from p1 assms show thesis
  proof (cases rule: sys_mprotect_cases)
    case failed
    then show thesis using refused False p1 by (simp add: eq)
  next
    case granted
    have m1: "m1 = ?m1" using granted(4) by (simp add: ROUND_UP_patch_pages)
    have rwx: "prot_at m1 x = Some ?rwx" if "in_range (ROUND_DOWN a) (patch_pages a) x" for x
      using that by (simp add: m1)
    have stores: "store a asm_jump m1 = Inr (poke a asm_jump m1)"
      "store (a + addr_offset) (le_bytes 8 t) (poke a asm_jump m1) = Inr (poke a ?code m1)"
      by (rule patch_stores, rule rwx, assumption)+
    obtain rc' m2 where p2: "sys_mprotect K (ROUND_DOWN a) (patch_pages a) (PROT_READ OR PROT_EXEC)
        (poke a ?code m1) = (rc', m2)" by fastforce
    from p2 assms show thesis
    proof (cases rule: sys_mprotect_cases)
      case failed
      then show thesis
        using unprotected False p1 p2 granted(1,3) stores m1 by (simp add: eq ROUND_UP_patch_pages)
    next
      case again: granted
      have "m2 = patched a t m"
        using again(4) by (auto simp: patched_def m1 ROUND_UP_patch_pages poke_def fun_eq_iff)
      then show thesis
        using installed False p1 p2 granted(1,3) stores again(1) by (simp add: eq ROUND_UP_patch_pages)
    qed
  qed
qed

lemma patch_in_range: "in_range a 12 x \<Longrightarrow> in_range (ROUND_DOWN a) (patch_pages a) x"
  using patch_in_pages [of _ a] by (auto simp: in_range_nat_iff [of a 12])

text \<open>
  The pages made writable are just those that hold a byte of the patch, so two of them only if it
  crosses the end of a page.
\<close>

lemma same_page: "ROUND_DOWN x = ROUND_DOWN y \<longleftrightarrow> unat x div 4096 = unat y div 4096"
  by (simp add: word_unat_eq_iff unat_ROUND_DOWN)

lemma mod_add_cancel:
  fixes p :: nat
  assumes "p < n" "q < n"
  shows "(k + p) mod n = (k + q) mod n \<longleftrightarrow> p = q"
proof -
  have eq: "i = j" if "(k + i) mod n = (k + j) mod n" "i < n" "j \<le> i" for i j
  proof -
    have "n dvd k + i - (k + j)" using that(1,3) by (subst mod_eq_dvd_iff_nat [symmetric]) simp_all
    then show ?thesis using that(2,3) by (auto dest: dvd_imp_le)
  qed
  show ?thesis using eq [of p q] eq [of q p] assms by (metis nat_le_linear)
qed

lemma same_page_shift:
  assumes "page_aligned b"
  shows "ROUND_DOWN (b + x) = ROUND_DOWN (b + y) \<longleftrightarrow> unat x div 4096 = unat y div 4096"
proof -
  obtain k where k: "unat b = 4096 * k" using assms by (auto simp: page_aligned_iff mod_eq_0_iff_dvd)
  have page: "unat (b + z) div 4096 = (k + unat z div 4096) mod 2 ^ 52" for z
  proof -
    have "unat (b + z) = (4096 * k + unat z) mod (4096 * 2 ^ 52)" by (simp add: unat_word_ariths k)
    also have "\<dots> div 4096 = (k + unat z div 4096) mod 2 ^ 52" by (simp only: mod_mult2_eq) simp
    finally show ?thesis .
  qed
  have "unat z div 4096 < 2 ^ 52" for z :: u64 using unat_u64 [of z] by (simp add: div_less_iff_less_mult)
  from this [of x] this [of y] show ?thesis
    unfolding same_page page by (rule mod_add_cancel)
qed

lemma patch_pages_exact:
  "in_range (ROUND_DOWN a) (patch_pages a) x \<longleftrightarrow> (\<exists>y. in_range a 12 y \<and> ROUND_DOWN y = ROUND_DOWN x)"
proof -
  let ?b = "ROUND_DOWN a"
  define d z where "d = a - ?b" and "z = x - ?b"
  have eq: "a + of_nat k = ?b + (d + of_nat k)" "x = ?b + z" for k by (simp_all add: d_def z_def)
  have d: "unat d < 4096" by (simp add: d_def page_offset)
  have u: "unat (d + of_nat k) = unat d + k" if "k \<le> 12" for k
    using d that by (simp add: unat_word_ariths unat_of_nat)
  have al: "page_aligned ?b" by (simp add: page_aligned_iff unat_ROUND_DOWN)
  have "(\<exists>y. in_range a 12 y \<and> ROUND_DOWN y = ROUND_DOWN x) \<longleftrightarrow>
      (\<exists>k < 12. ROUND_DOWN (a + of_nat k) = ROUND_DOWN x)"
    by (auto simp: in_range_nat_iff)
  also have "\<dots> \<longleftrightarrow> (\<exists>k < 12. ROUND_DOWN (?b + (d + of_nat k)) = ROUND_DOWN (?b + z))"
    by (simp only: eq(1) [symmetric] eq(2) [symmetric])
  also have "\<dots> \<longleftrightarrow> (\<exists>k < 12. (unat d + k) div 4096 = unat z div 4096)"
    unfolding same_page_shift [OF al] using u by (intro ex_cong1 conj_cong refl) simp
  also have "\<dots> \<longleftrightarrow> unat z < (if unat d + 12 > 4096 then 8192 else 4096)"
  proof
    assume "\<exists>k < 12. (unat d + k) div 4096 = unat z div 4096"
    then obtain k where k: "k < 12" "(unat d + k) div 4096 = unat z div 4096" by blast
    then have "unat z div 4096 < (if unat d + 12 > 4096 then 2 else 1)"
      unfolding k(2) [symmetric] using d by (simp add: div_less_iff_less_mult split: if_split)
    then show "unat z < (if unat d + 12 > 4096 then 8192 else 4096)"
      by (simp add: div_less_iff_less_mult split: if_splits)
  next
    assume z: "unat z < (if unat d + 12 > 4096 then 8192 else 4096)"
    show "\<exists>k < 12. (unat d + k) div 4096 = unat z div 4096"
    proof (cases "unat z < 4096")
      case True
      then show ?thesis using d by (intro exI [of _ 0]) simp
    next
      case False
      then have "unat z div 4096 = 1" "(unat d + 11) div 4096 = 1"
        using z d by (auto intro!: div_nat_eqI split: if_splits)
      then show ?thesis by (intro exI [of _ 11]) simp
    qed
  qed
  also have "\<dots> \<longleftrightarrow> in_range ?b (patch_pages a) x"
  proof -
    have "a + of_nat k - ?b = d + of_nat k" for k by (simp add: d_def)
    then have "patch_pages a = (if d + of_nat 12 > PAGE_SIZE then 2 * PAGE_SIZE else PAGE_SIZE)"
      by (simp only: patch_pages_def) (simp add: asm_jump_def)
    then have "unat (patch_pages a) = (if unat d + 12 > 4096 then 8192 else 4096)"
      using u [of 12] by (simp add: PAGE_SIZE_def word_less_nat_alt)
    then show ?thesis by (simp only: in_range_def z_def word_less_nat_alt)
  qed
  finally show ?thesis by blast
qed

text \<open>
  C21. \<open>insertTrampoline\<close> that reports success has turned the function at \<open>from_addr\<close> into a
  jump to \<open>to_addr\<close>: the twelve bytes decode to that jump, no other byte of memory has changed, and
  every page that holds one of the twelve, both pages when the patch crosses a page, is readable and
  executable and no longer writable, while the protection of every other page is as before.
\<close>

theorem insertTrampoline_installs_jump:
  assumes "kernel_ok K" "insertTrampoline K a t m = Inr (0, m')"
  shows "jump_target (peek m' a 12) = Some t \<and>
    (\<forall>x. \<not> in_range a 12 x \<longrightarrow> mem m' x = mem m x) \<and>
    (\<forall>x. prot_at m' x =
      (if \<exists>y. in_range a 12 y \<and> ROUND_DOWN y = ROUND_DOWN x then Some (PROT_READ OR PROT_EXEC) else prot_at m x))"
  using assms(1)
proof (cases rule: insertTrampoline_cases [of K a t m])
  case installed
  then have "m' = patched a t m" using assms(2) by simp
  then show ?thesis
    by (simp add: jump_target_patched mem_patched prot_patched patch_pages_exact)
qed (use assms(2) in simp_all)

text \<open>
  Patching never stops the process: whatever the kernel allows, the stores do not fault, the
  call returns 0 or \<open>-1\<close>, what was mapped stays mapped, and at most the twelve bytes change.
\<close>

theorem insertTrampoline_total:
  assumes "kernel_ok K"
  shows "\<exists>rc m'. insertTrampoline K a t m = Inr (rc, m') \<and> rc \<in> {0, -1} \<and>
    (\<forall>x. prot_at m' x = None \<longleftrightarrow> prot_at m x = None) \<and>
    (\<forall>x. mem m' x \<noteq> mem m x \<longrightarrow> in_range a 12 x)"
  using assms
proof (cases rule: insertTrampoline_cases [of K a t m])
  case (unprotected m')
  then show ?thesis
    using unat_poke_range [of "[0x48, 0xb8] @ le_bytes 8 t @ [0xff, 0xe0]" 12 _ a]
    by (auto simp: mem_poke)
next
  case installed
  then show ?thesis
    by (auto simp: prot_patched intro: ccontr dest: mem_patched)
qed auto

text \<open>A function at the end of a page, and two mapped pages.\<close>

definition two_pages :: machine where
  "two_pages = empty_machine\<lparr>prot_at := (\<lambda>x. if in_range 0x1000 0x2000 x then Some (PROT_READ OR PROT_EXEC) else None)\<rparr>"

lemma two_pages_mapped: "in_range 0x1000 0x2000 x \<Longrightarrow> \<exists>p. prot_at two_pages x = Some p"
  by (simp add: two_pages_def)

lemma two_pages_patched:
  "insertTrampoline plain_kernel 0x1ffa 0x5000 two_pages = Inr (0, patched 0x1ffa 0x5000 two_pages)"
  (is "insertTrampoline _ ?a ?t _ = _")
proof -
  have pages: "patch_pages ?a = 0x2000" "ROUND_DOWN ?a = 0x1000"
    by (simp_all add: patch_pages_def ROUND_DOWN_def PAGE_SIZE_def asm_jump_def)
  note eq = insertTrampoline_def [of plain_kernel ?a ?t two_pages, unfolded Let_def, folded patch_pages_def]
  let ?rwx = "PROT_READ OR PROT_WRITE OR PROT_EXEC"
  let ?m = "two_pages\<lparr>prot_at := (\<lambda>x. if in_range 0x1000 0x2000 x then Some ?rwx else prot_at two_pages x)\<rparr>"
  have up: "ROUND_UP 0x2000 = 0x2000" using ROUND_UP_patch_pages [of ?a] by (simp add: pages)
  have mp: "sys_mprotect plain_kernel 0x1000 0x2000 p m =
      (0, m\<lparr>prot_at := (\<lambda>x. if in_range 0x1000 0x2000 x then Some p else prot_at m x)\<rparr>)"
    if "\<And>x. in_range 0x1000 0x2000 x \<Longrightarrow> prot_at m x \<noteq> None" for p and m :: machine
    using that by (simp add: sys_mprotect_def plain_kernel_def up page_aligned_iff)
  have stores: "store ?a asm_jump ?m = Inr (poke ?a asm_jump ?m)"
    "store (?a + addr_offset) (le_bytes 8 ?t) (poke ?a asm_jump ?m) =
      Inr (poke ?a ([0x48, 0xb8] @ le_bytes 8 ?t @ [0xff, 0xe0]) ?m)"
    by (rule patch_stores; simp add: pages)+
  show ?thesis
    unfolding eq pages
    by (simp add: mp two_pages_mapped stores) (simp add: patched_def pages poke_def fun_eq_iff)
qed

theorem insertTrampoline_installs_jump_witness:
  "jump_target (peek (patched 0x1ffa 0x5000 two_pages) 0x1ffa 12) = Some 0x5000 \<and>
   prot_at (patched 0x1ffa 0x5000 two_pages) 0x1ff9 = Some (PROT_READ OR PROT_EXEC) \<and>
   prot_at (patched 0x1ffa 0x5000 two_pages) 0x2fff = Some (PROT_READ OR PROT_EXEC) \<and>
   prot_at (patched 0x1ffa 0x5000 two_pages) 0x3000 = None"
proof -
  note installed = insertTrampoline_installs_jump [OF plain_kernel_ok two_pages_patched]
  have "in_range 0x1ffa 12 0x1ffa \<and> ROUND_DOWN 0x1ffa = ROUND_DOWN 0x1ff9"
    "in_range 0x1ffa 12 0x2000 \<and> ROUND_DOWN 0x2000 = ROUND_DOWN 0x2fff"
    by (simp_all add: in_range_def same_page)
  moreover have "\<not> (in_range 0x1ffa 12 y \<and> ROUND_DOWN y = ROUND_DOWN 0x3000)" for y
  proof (intro notI, elim conjE)
    assume y: "in_range 0x1ffa 12 y" "ROUND_DOWN y = ROUND_DOWN 0x3000"
    have "unat y < 0x2006" using y(1) by (simp add: in_range_unat no_wrap_def)
    moreover have "unat y div 4096 = 3" using y(2) by (simp add: same_page)
    then have "0x3000 \<le> unat y" using div_times_less_eq_dividend [of "unat y" 4096] by simp
    ultimately show False by simp
  qed
  then have "prot_at (patched 0x1ffa 0x5000 two_pages) 0x3000 = prot_at two_pages 0x3000"
    using installed by auto
  moreover have "prot_at two_pages 0x3000 = None" by (simp add: two_pages_def empty_machine_def in_range_def)
  ultimately show ?thesis using installed by metis
qed

theorem insertTrampoline_total_witness:
  "\<exists>rc m'. insertTrampoline plain_kernel 0x1000 0x5000 empty_machine = Inr (rc, m') \<and> rc \<in> {0, -1} \<and>
    (\<forall>x. prot_at m' x = None \<longleftrightarrow> prot_at empty_machine x = None) \<and>
    (\<forall>x. mem m' x \<noteq> mem empty_machine x \<longrightarrow> in_range 0x1000 12 x)"
  by (rule insertTrampoline_total) (rule plain_kernel_ok)

end
