(* ===== verification/MmapWrapper.thy ===== *)
theory MmapWrapper
  imports ElfSymbols Trampoline
begin

text \<open>
  The lower half's \<open>mmap\<close> (\<open>mmap-wrapper.c\<close>): it passes the request to the kernel, records every
  granted mapping in a table, and patches \<open>mmap\<close> and \<open>sbrk\<close> of a C library it sees being mapped
  executable. The globals of the lower half that its wrappers share are one record.
\<close>

section \<open>State\<close>

record lower_half = machine +
  numRegions :: nat
  mmaps :: "MmapInfo list"
  curbrk :: va
  endOfHeap :: va
  lhInfo :: LowerHalfInfo

definition MAX_TRACK :: nat where "MAX_TRACK = 1000"

definition MMAP_OFF_HIGH_MASK :: u64 where "MMAP_OFF_HIGH_MASK = push_bit (8 * 8 - 1) (- push_bit 1 4096)"
definition MMAP_OFF_LOW_MASK :: u64 where "MMAP_OFF_LOW_MASK = 4096 - 1"
definition MMAP_OFF_MASK :: u64 where "MMAP_OFF_MASK = MMAP_OFF_HIGH_MASK OR MMAP_OFF_LOW_MASK"

section \<open>Operations\<close>

text \<open>The array and the number of its valid items, as \<open>getMmappedList\<close> hands them out.\<close>

definition getMmappedList :: "'a lower_half_scheme \<Rightarrow> nat \<times> MmapInfo list" where
  "getMmappedList m = (numRegions m, mmaps m)"

definition patchLibc :: "kernel \<Rightarrow> int \<Rightarrow> va \<Rightarrow> byte list \<Rightarrow> 'a lower_half_scheme \<Rightarrow>
    'a lower_half_scheme run" where
  "patchLibc K fd base glibc m =
     (if base = 0 then Inl AssertFail
      else if \<not> fd > 0 then Inl AssertFail
      else
        andThen (get_symbol_offset K m glibc (bytes_of ''mmap'')) (\<lambda>mmapOffset.
        andThen (get_symbol_offset K m glibc (bytes_of ''sbrk'')) (\<lambda>sbrkOffset.
          if mmapOffset = -1 \<or> sbrkOffset = -1 then Inr m
          else
            andThen (insertTrampoline K (base + mmapOffset) (k_sym K ''mmapWrapper'') m) (\<lambda>(_, m).
            andThen (insertTrampoline K (base + sbrkOffset) (k_sym K ''sbrkWrapper'') m) (\<lambda>(_, m).
              Inr m)))))"

text \<open>\<open>__mmapWrapper\<close>, and the entry that switches to the lower half's \<open>fs\<close> around it.\<close>

definition mmap_lh :: "kernel \<Rightarrow> va \<Rightarrow> u64 \<Rightarrow> u32 \<Rightarrow> u32 \<Rightarrow> int \<Rightarrow> u64 \<Rightarrow>
    'a lower_half_scheme \<Rightarrow> (va \<times> 'a lower_half_scheme) run" where
  "mmap_lh K addr len prot flags fd offset m =
     (if offset AND MMAP_OFF_MASK \<noteq> 0 then Inr (MAP_FAILED, m)
      else
        let (ret, m) = sys_mmap K addr len prot flags fd offset m
        in if ret \<noteq> MAP_FAILED then
             let m = m\<lparr>mmaps := (mmaps m)[numRegions m := \<lparr>mi_addr = ret, mi_len = len\<rparr>],
                       numRegions := (numRegions m + 1) mod MAX_TRACK\<rparr>
             in if fd > 0 then
                  let (found, glibcFullPath) = checkLibrary (fds m fd) (bytes_of ''libc-'') PATH_MAX
                  in if found \<noteq> 0 \<and> has_flag prot PROT_EXEC
                     then andThen (patchLibc K fd ret glibcFullPath m) (\<lambda>m. Inr (ret, m))
                     else Inr (ret, m)
                else Inr (ret, m)
           else Inr (ret, m))"

definition mmapWrapper :: "kernel \<Rightarrow> va \<Rightarrow> u64 \<Rightarrow> u32 \<Rightarrow> u32 \<Rightarrow> int \<Rightarrow> u64 \<Rightarrow>
    'a lower_half_scheme \<Rightarrow> (va \<times> 'a lower_half_scheme) run" where
  "mmapWrapper K addr len prot flags fd offset m =
     in_lower_half K (lhFsAddr (lhInfo m)) (mmap_lh K addr len prot flags fd offset) m"

section \<open>The table\<close>

text \<open>What a caller of \<open>getMmappedList\<close> sees, and what is always true of the table.\<close>

definition tracked :: "'a lower_half_scheme \<Rightarrow> MmapInfo list" where
  "tracked m = (let (n, array) = getMmappedList m in take n array)"

definition table_ok :: "'a lower_half_scheme \<Rightarrow> bool" where
  "table_ok m \<longleftrightarrow> length (mmaps m) = MAX_TRACK \<and> numRegions m < MAX_TRACK"

lemma MMAP_OFF_MASK_eq: "MMAP_OFF_MASK = 0xfff"
  by (simp add: MMAP_OFF_MASK_def MMAP_OFF_HIGH_MASK_def MMAP_OFF_LOW_MASK_def)

text \<open>The wrappers around a call only change the \<open>fs\<close> base; patching only memory and protections.\<close>

definition same_globals :: "'a lower_half_scheme \<Rightarrow> 'a lower_half_scheme \<Rightarrow> bool" where
  "same_globals m m' \<longleftrightarrow> numRegions m' = numRegions m \<and> mmaps m' = mmaps m \<and> curbrk m' = curbrk m \<and>
     endOfHeap m' = endOfHeap m \<and> lhInfo m' = lhInfo m \<and> files m' = files m \<and> fds m' = fds m"

lemma same_globals_refl [simp]: "same_globals m m"
  by (simp add: same_globals_def)

lemma same_globals_trans: "same_globals m m' \<Longrightarrow> same_globals m' m'' \<Longrightarrow> same_globals m m''"
  by (simp add: same_globals_def)

lemma same_globals_machine [simp]:
  "same_globals m (m\<lparr>mem := f\<rparr>)" "same_globals m (m\<lparr>prot_at := p\<rparr>)" "same_globals m (m\<lparr>fs_base := a\<rparr>)"
  "same_globals m (poke a bs m)" "same_globals m (map_pages b n q g m)" "same_globals m (snd (set_fs K a m))"
  "same_globals m (snd (sys_mprotect K a n q m))"
  by (simp_all add: same_globals_def poke_def map_pages_def set_fs_def sys_mprotect_def)

lemma tracked_same: "same_globals m m' \<Longrightarrow> tracked m' = tracked m \<and> table_ok m' = table_ok m"
  by (simp add: same_globals_def tracked_def table_ok_def getMmappedList_def)

lemma insertTrampoline_same_globals:
  assumes "insertTrampoline K a t m = Inr (rc, m')" "kernel_ok K"
  shows "same_globals m m'"
  using assms(2)
  by (cases rule: insertTrampoline_cases [of K a t m])
     (use assms(1) in \<open>auto simp: patched_def same_globals_def poke_def\<close>)

lemma patchLibc_same_globals:
  assumes "patchLibc K fd base g m = Inr m'" "kernel_ok K"
  shows "same_globals m m'"
  using assms
  by (auto simp: patchLibc_def run_simps split: if_splits
      dest!: insertTrampoline_same_globals intro: same_globals_trans)

text \<open>One call of the wrapper without the switch of \<open>fs\<close>, then with it.\<close>

definition record_region :: "va \<Rightarrow> u64 \<Rightarrow> 'a lower_half_scheme \<Rightarrow> 'a lower_half_scheme" where
  "record_region r n m = m\<lparr>mmaps := (mmaps m)[numRegions m := \<lparr>mi_addr = r, mi_len = n\<rparr>],
     numRegions := (numRegions m + 1) mod MAX_TRACK\<rparr>"

lemma record_region_machine [simp]:
  "mem (record_region r n m) = mem m" "prot_at (record_region r n m) = prot_at m"
  "curbrk (record_region r n m) = curbrk m" "endOfHeap (record_region r n m) = endOfHeap m"
  "lhInfo (record_region r n m) = lhInfo m" "fs_base (record_region r n m) = fs_base m"
  "files (record_region r n m) = files m" "fds (record_region r n m) = fds m"
  by (simp_all add: record_region_def)

lemma record_region_cong: "same_globals m m' \<Longrightarrow> same_globals (record_region r n m) (record_region r n m')"
  by (simp add: same_globals_def record_region_def)

lemma mmap_lh_cases:
  assumes "mmap_lh K a n p fl fd off m = Inr (r, m')" "kernel_ok K"
  obtains (refused) "r = MAP_FAILED" "m' = m"
    | (granted) c where "r \<noteq> MAP_FAILED" "n \<noteq> 0" "placement_ok (prot_at m) a n fl r"
      "same_globals (record_region r n m) m'"
      "fd \<le> 0 \<Longrightarrow> m' = record_region r n (map_pages r (ROUND_UP n) p (mapped_byte fl c off) m)"
proof (cases "off AND MMAP_OFF_MASK = 0")
  case False
  then show thesis using assms(1) refused by (simp add: mmap_lh_def)
next
  case True
  obtain r1 m1 where sys: "sys_mmap K a n p fl fd off m = (r1, m1)" by fastforce
  from sys assms(2) show thesis
  proof (cases rule: sys_mmap_cases)
    case failed
    then show thesis using assms(1) True sys refused by (simp add: mmap_lh_def)
  next
    case (granted c)
    have m1: "same_globals (record_region r1 n m) (record_region r1 n m1)"
      by (rule record_region_cong) (simp add: granted(4))
    have r: "r = r1"
      using assms(1) True sys granted(1)
      by (auto simp: mmap_lh_def Let_def run_simps split: if_splits prod.splits)
    have "same_globals (record_region r1 n m1) m'"
      using assms True sys granted(1)
      by (auto simp: mmap_lh_def Let_def run_simps record_region_def split: if_splits prod.splits
          dest: patchLibc_same_globals)
    moreover have "fd \<le> 0 \<Longrightarrow> m' = record_region r1 n m1"
      using assms(1) True sys granted(1)
      by (auto simp: mmap_lh_def Let_def record_region_def split: if_splits)
    ultimately show thesis
      using that(2) granted r m1 by (blast intro: same_globals_trans)
  qed
qed

lemma in_lower_half_Inr:
  assumes "in_lower_half K lhFs body m = Inr (r, m')"
  obtains m1 where "body (m\<lparr>fs_base := (if lhFs > 0 \<and> k_set_fs K lhFs then lhFs else fs_base m)\<rparr>) = Inr (r, m1)"
    "m' = snd (set_fs K (fs_base m) m1)"
proof -
  have "m\<lparr>fs_base := (if lhFs > 0 \<and> k_set_fs K lhFs then lhFs else fs_base m)\<rparr> =
      (if lhFs > 0 then snd (set_fs K lhFs m) else m)"
    by (simp add: set_fs_def)
  then show thesis
    using assms that by (auto simp: in_lower_half_def Let_def run_simps)
qed

lemma set_fs_fields [simp]: "mem (snd (set_fs K a m)) = mem m" "prot_at (snd (set_fs K a m)) = prot_at m"
  by (simp_all add: set_fs_def)

lemma mmapWrapper_cases:
  assumes "mmapWrapper K a n p fl fd off m = Inr (r, m')" "kernel_ok K"
  obtains (refused) "r = MAP_FAILED" "same_globals m m'" "mem m' = mem m" "prot_at m' = prot_at m"
    | (granted) c where "r \<noteq> MAP_FAILED" "n \<noteq> 0" "placement_ok (prot_at m) a n fl r"
      "same_globals (record_region r n m) m'"
      "fd \<le> 0 \<Longrightarrow> mem m' = mem (map_pages r (ROUND_UP n) p (mapped_byte fl c off) m) \<and>
         prot_at m' = prot_at (map_pages r (ROUND_UP n) p (mapped_byte fl c off) m)"
  using assms(1) unfolding mmapWrapper_def
proof (rule in_lower_half_Inr)
  define fs where "fs = (if lhFsAddr (lhInfo m) > 0 \<and> k_set_fs K (lhFsAddr (lhInfo m))
    then lhFsAddr (lhInfo m) else fs_base m)"
  fix m1
  assume b: "mmap_lh K a n p fl fd off (m\<lparr>fs_base := (if lhFsAddr (lhInfo m) > 0 \<and>
      k_set_fs K (lhFsAddr (lhInfo m)) then lhFsAddr (lhInfo m) else fs_base m)\<rparr>) = Inr (r, m1)"
    and m': "m' = snd (set_fs K (fs_base m) m1)"
  have sg: "same_globals m1 m'" by (simp add: m')
  from b [folded fs_def] assms(2) show thesis
  proof (cases rule: mmap_lh_cases)
    case refused
    then show thesis using that(1) sg m' by (simp add: same_globals_def)
  next
    case (granted c)
    have "same_globals (record_region r n m) (record_region r n (m\<lparr>fs_base := fs\<rparr>))"
      by (rule record_region_cong) simp
    then have "same_globals (record_region r n m) m'"
      using granted(4) sg by (blast intro: same_globals_trans)
    moreover have "mem (map_pages r (ROUND_UP n) p (mapped_byte fl c off) (m\<lparr>fs_base := fs\<rparr>)) =
        mem (map_pages r (ROUND_UP n) p (mapped_byte fl c off) m)"
      "prot_at (map_pages r (ROUND_UP n) p (mapped_byte fl c off) (m\<lparr>fs_base := fs\<rparr>)) =
        prot_at (map_pages r (ROUND_UP n) p (mapped_byte fl c off) m)"
      by (simp_all add: map_pages_def fun_eq_iff)
    ultimately show thesis
      using that(2) [of c] granted(1-3,5) m' by simp
  qed
qed

lemma tracked_record:
  assumes "table_ok m"
  shows "table_ok (record_region r n m)"
    and "tracked (record_region r n m) =
      (if Suc (numRegions m) = MAX_TRACK then [] else tracked m @ [\<lparr>mi_addr = r, mi_len = n\<rparr>])"
  using assms
  by (auto simp: table_ok_def record_region_def tracked_def getMmappedList_def MAX_TRACK_def
      take_Suc_conv_app_nth)

text \<open>
  C22. The table of the lower half is always well formed, and it is the list of the granted
  mappings in the order of the calls as long as fewer than 1000 were granted; a refused call leaves
  it alone. The call that fills the last slot makes the table look empty.
\<close>

theorem mmapWrapper_records:
  assumes "kernel_ok K" "table_ok m" "mmapWrapper K a n p fl fd off m = Inr (r, m')"
  shows "table_ok m' \<and> tracked m' =
    (if r = MAP_FAILED then tracked m
     else if length (tracked m) = MAX_TRACK - 1 then []
     else tracked m @ [\<lparr>mi_addr = r, mi_len = n\<rparr>])"
proof -
  have len: "length (tracked m) = numRegions m"
    using assms(2) by (simp add: tracked_def getMmappedList_def table_ok_def)
  from assms(3,1) show ?thesis
  proof (cases rule: mmapWrapper_cases)
    case refused
    then show ?thesis using assms(2) tracked_same [of m m'] by simp
  next
    case granted
    then show ?thesis
      using tracked_record [OF assms(2), of r n] tracked_same [OF granted(4)] len
      by (auto simp: MAX_TRACK_def)
  qed
qed

section \<open>The interface of a fixed anonymous mapping\<close>

text \<open>
  What the heap, the stack and the restart code rely on when they ask for pages at an address of
  their choice: the request is refused and nothing changes, or the pages are there, zeroed, with the
  protection asked for, and everything else is as before.
\<close>

locale fixed_mapper =
  fixes mapf :: "'k \<Rightarrow> va \<Rightarrow> u64 \<Rightarrow> u32 \<Rightarrow> 's \<Rightarrow> (va \<times> 's) run"
    and ok :: "'k \<Rightarrow> bool"
    and bytes :: "'s \<Rightarrow> va \<Rightarrow> byte"
    and perm :: "'s \<Rightarrow> va \<Rightarrow> u32 option"
  assumes map_returns: "\<exists>r s'. mapf k a n p s = Inr (r, s')"
    and map_refused: "ok k \<Longrightarrow> mapf k a n p s = Inr (MAP_FAILED, s') \<Longrightarrow> bytes s' = bytes s \<and> perm s' = perm s"
    and map_granted: "ok k \<Longrightarrow> mapf k a n p s = Inr (r, s') \<Longrightarrow> r \<noteq> MAP_FAILED \<Longrightarrow>
      r = a \<and> n \<noteq> 0 \<and> page_aligned a \<and> unat n + 4095 < 2 ^ 64 \<and> no_wrap a (ROUND_UP n) \<and>
      bytes s' = (\<lambda>x. if in_range a (ROUND_UP n) x then 0 else bytes s x) \<and>
      perm s' = (\<lambda>x. if in_range a (ROUND_UP n) x then Some p else perm s x)"
begin

lemma map_result: "ok k \<Longrightarrow> mapf k a n p s = Inr (r, s') \<Longrightarrow> r = a \<or> r = MAP_FAILED"
  using map_granted by blast

lemma map_outside:
  assumes "ok k" "mapf k a n p s = Inr (r, s')" "\<not> in_range a (ROUND_UP n) x"
  shows "bytes s' x = bytes s x \<and> perm s' x = perm s x"
  using assms map_granted [OF assms(1,2)] map_refused [OF assms(1), of a n p s s']
  by (cases "r = MAP_FAILED") auto

lemma map_keeps_mapped:
  assumes "ok k" "mapf k a n p s = Inr (r, s')" "perm s x \<noteq> None"
  shows "perm s' x \<noteq> None"
  using assms map_granted [OF assms(1,2)] map_refused [OF assms(1), of a n p s s']
  by (cases "r = MAP_FAILED") auto

lemma map_covers:
  assumes "ok k" "mapf k a n p s = Inr (r, s')" "r \<noteq> MAP_FAILED" "in_range a n x"
  shows "perm s' x = Some p \<and> bytes s' x = 0"
proof -
  note g = map_granted [OF assms(1-3)]
  have "n \<le> ROUND_UP n"
    using g ROUND_UP_bounds(1) [of n] by (simp add: word_le_nat_alt)
  then have "in_range a (ROUND_UP n) x"
    using assms(4) by (simp add: in_range_def)
  then show ?thesis using g by simp
qed

end

locale tracking_mapper = fixed_mapper +
  fixes regions :: "'s \<Rightarrow> MmapInfo list"
    and ready :: "'s \<Rightarrow> bool"
    and room :: nat
  assumes map_ready: "ok k \<Longrightarrow> ready s \<Longrightarrow> mapf k a n p s = Inr (r, s') \<Longrightarrow> ready s'"
    and map_not_tracked: "ok k \<Longrightarrow> ready s \<Longrightarrow> mapf k a n p s = Inr (MAP_FAILED, s') \<Longrightarrow>
      regions s' = regions s"
    and map_tracked: "ok k \<Longrightarrow> ready s \<Longrightarrow> mapf k a n p s = Inr (r, s') \<Longrightarrow> r \<noteq> MAP_FAILED \<Longrightarrow>
      Suc (length (regions s)) < room \<Longrightarrow> regions s' = regions s @ [\<lparr>mi_addr = a, mi_len = n\<rparr>]"
begin

lemma map_regions_grow:
  assumes "ok k" "ready s" "mapf k a n p s = Inr (r, s')" "Suc (length (regions s)) < room"
  shows "prefix (regions s) (regions s') \<and> length (regions s') \<le> Suc (length (regions s))"
  using map_not_tracked [OF assms(1,2), of a n p s'] map_tracked [OF assms(1-3) _ assms(4)] assms(3)
  by (cases "r = MAP_FAILED") auto

end

definition map_fixed :: "kernel \<Rightarrow> va \<Rightarrow> u64 \<Rightarrow> u32 \<Rightarrow> 'a lower_half_scheme \<Rightarrow>
    (va \<times> 'a lower_half_scheme) run" where
  "map_fixed K a n p m = mmapWrapper K a n p (MAP_PRIVATE OR MAP_FIXED OR MAP_ANONYMOUS) (-1) 0 m"

lemma map_fixed_flags:
  "has_flag MAP_FIXED MAP_FIXED" "has_flag MAP_ANONYMOUS MAP_ANONYMOUS"
  "MAP_FIXED OR MAP_PRIVATE OR MAP_ANONYMOUS = MAP_PRIVATE OR MAP_FIXED OR MAP_ANONYMOUS"
  by (simp_all add: flag_defs has_flag_def)

lemma map_fixed_returns: "\<exists>r s'. map_fixed K a n p s = Inr (r, s')"
proof -
  have "\<exists>r s'. mmap_lh K a n p fl (-1) 0 m = Inr (r, s')" for fl and m :: "'a lower_half_scheme"
    by (auto simp: mmap_lh_def Let_def split: prod.splits)
  then show ?thesis
    by (fastforce simp: map_fixed_def mmapWrapper_def in_lower_half_def Let_def run_simps)
qed

lemma map_fixed_facts:
  assumes "kernel_ok K" "map_fixed K a n p s = Inr (r, s')"
  shows "r = MAP_FAILED \<and> same_globals s s' \<and> mem s' = mem s \<and> prot_at s' = prot_at s \<or>
    r = a \<and> a \<noteq> MAP_FAILED \<and> n \<noteq> 0 \<and> page_aligned a \<and> unat n + 4095 < 2 ^ 64 \<and> no_wrap a (ROUND_UP n) \<and>
      same_globals (record_region a n s) s' \<and>
      mem s' = (\<lambda>x. if in_range a (ROUND_UP n) x then 0 else mem s x) \<and>
      prot_at s' = (\<lambda>x. if in_range a (ROUND_UP n) x then Some p else prot_at s x)"
  using assms(2,1) unfolding map_fixed_def
proof (cases rule: mmapWrapper_cases)
  case (granted c)
  then have "r = a" by (simp add: placement_ok_def map_fixed_flags)
  then show ?thesis
    using granted
    by (auto simp: placement_ok_def map_pages_def mapped_byte_def map_fixed_flags fun_eq_iff)
qed simp

interpretation wrapper: tracking_mapper map_fixed kernel_ok mem prot_at tracked table_ok MAX_TRACK
proof (unfold_locales, goal_cases)
  case (1 k a n p s)
  then show ?case by (rule map_fixed_returns)
next
  case (2 k a n p s s')
  then show ?case using map_fixed_facts [OF 2] by auto
next
  case (3 k a n p s r s')
  then show ?case using map_fixed_facts [OF 3(1,2)] by auto
next
  case (4 k s a n p r s')
  then show ?case
    using map_fixed_facts [OF 4(1,3)] tracked_record(1) [OF 4(2)] tracked_same by fastforce
next
  case (5 k s a n p s')
  then show ?case using map_fixed_facts [OF 5(1,3)] tracked_same by auto
next
  case (6 k s a n p r s')
  then have "length (tracked s) = numRegions s"
    by (simp add: tracked_def getMmappedList_def table_ok_def)
  then show ?case
    using map_fixed_facts [OF 6(1,3)] tracked_record(2) [OF 6(2), of a n] tracked_same 6(4,5)
    by (auto dest!: tracked_same)
qed

section \<open>Patching the C library\<close>

text \<open>Symbol lookup reads the file system and nothing else of the machine.\<close>

lemma getSymbolTable_files:
  assumes "files m' = files m"
  shows "getSymbolTable_loop K m' n = getSymbolTable_loop K m n"
proof (induction n)
  case (Suc n)
  have "open_ro K lname m' = open_ro K lname m" for lname using assms by (simp add: open_ro_def)
  then show ?case unfolding getSymbolTable_loop.simps Suc fun_eq_iff by simp
qed (intro ext, simp)

lemma get_symbol_offset_files:
  "files m' = files m \<Longrightarrow> get_symbol_offset K m' lname symbol = get_symbol_offset K m lname symbol"
  by (simp add: get_symbol_offset_def getSymbolTable_def getSymbolTable_files [of m' m])

text \<open>A kernel that never refuses to change the protection of mapped pages.\<close>

definition grants_mprotect :: "kernel \<Rightarrow> bool" where
  "grants_mprotect K \<longleftrightarrow> (\<forall>P a n q. page_aligned a \<longrightarrow>
     (\<forall>x. in_range a (ROUND_UP n) x \<longrightarrow> P x \<noteq> None) \<longrightarrow> k_mprotect K P a n q)"

definition pages_mapped :: "va \<Rightarrow> 'a machine_scheme \<Rightarrow> bool" where
  "pages_mapped a m \<longleftrightarrow> (\<forall>x. in_range (ROUND_DOWN a) (patch_pages a) x \<longrightarrow> prot_at m x \<noteq> None)"

lemma insertTrampoline_granted:
  assumes "grants_mprotect K" "a \<noteq> 0" "t \<noteq> 0" "pages_mapped a m"
  shows "insertTrampoline K a t m = Inr (0, patched a t m)"
proof -
  let ?prot = "\<lambda>q m. m\<lparr>prot_at := (\<lambda>x. if in_range (ROUND_DOWN a) (patch_pages a) x then Some q else prot_at m x)\<rparr>"
  let ?rwx = "PROT_READ OR PROT_WRITE OR PROT_EXEC"
  note eq = insertTrampoline_def [of K a t m, unfolded Let_def, folded patch_pages_def]
  have mp: "sys_mprotect K (ROUND_DOWN a) (patch_pages a) q m' = (0, ?prot q m')"
    if "pages_mapped a m'" for q and m' :: "'a machine_scheme"
    using that assms(1) by (simp add: sys_mprotect_def grants_mprotect_def pages_mapped_def ROUND_UP_patch_pages)
  have pm: "pages_mapped a (?prot ?rwx m)"
    "pages_mapped a (poke a ([0x48, 0xb8] @ le_bytes 8 t @ [0xff, 0xe0]) (?prot ?rwx m))"
    using assms(4) by (simp_all add: pages_mapped_def)
  have stores: "store a asm_jump (?prot ?rwx m) = Inr (poke a asm_jump (?prot ?rwx m))"
    "store (a + addr_offset) (le_bytes 8 t) (poke a asm_jump (?prot ?rwx m)) =
      Inr (poke a ([0x48, 0xb8] @ le_bytes 8 t @ [0xff, 0xe0]) (?prot ?rwx m))"
    by (rule patch_stores; simp)+
  show ?thesis
    unfolding eq
    by (simp only: assms(2,3) mp [OF assms(4)] stores mp [OF pm(2)] andThen.simps prod.case simp_thms
        if_False less_irrefl) (simp add: patched_def poke_def fun_eq_iff)
qed

text \<open>The twelve bytes at an offset of a mapping, and the pages that hold them, lie in the mapping.\<close>

definition patch_inside :: "va \<Rightarrow> u64 \<Rightarrow> u64 \<Rightarrow> bool" where
  "patch_inside r n off \<longleftrightarrow> r + off \<noteq> 0 \<and>
     (\<forall>x. in_range (ROUND_DOWN (r + off)) (patch_pages (r + off)) x \<longrightarrow> in_range r (ROUND_UP n) x)"

lemma patchLibc_patches:
  assumes "grants_mprotect K" "base \<noteq> 0" "0 < fd"
    and "get_symbol_offset K m glibc (bytes_of ''mmap'') = Inr mo" "mo \<noteq> -1"
    and "get_symbol_offset K m glibc (bytes_of ''sbrk'') = Inr so" "so \<noteq> -1"
    and "k_sym K ''mmapWrapper'' \<noteq> 0" "k_sym K ''sbrkWrapper'' \<noteq> 0"
    and "patch_inside base n mo" "patch_inside base n so"
    and "\<And>x. in_range base (ROUND_UP n) x \<Longrightarrow> prot_at m x \<noteq> None"
  shows "patchLibc K fd base glibc m = Inr (patched (base + so) (k_sym K ''sbrkWrapper'')
      (patched (base + mo) (k_sym K ''mmapWrapper'') m))"
proof -
  let ?m = "patched (base + mo) (k_sym K ''mmapWrapper'') m"
  have inside: "base + mo \<noteq> 0" "base + so \<noteq> 0" "pages_mapped (base + mo) m" "pages_mapped (base + so) ?m"
    using assms(10-12) by (auto simp: patch_inside_def pages_mapped_def prot_patched)
  then show ?thesis
    using insertTrampoline_granted [OF assms(1) inside(1) assms(8) inside(3)]
      insertTrampoline_granted [OF assms(1) inside(2) assms(9) inside(4)] assms(2-7)
    by (simp add: patchLibc_def)
qed

lemma peek_patched_other:
  assumes "\<And>x. in_range b 12 x \<Longrightarrow> \<not> in_range a 12 x"
  shows "peek (patched a t m) b 12 = peek m b 12"
proof (rule peek_eqI)
  fix i :: nat assume "i < 12"
  then have "in_range b 12 (b + of_nat i)" by (intro in_range_of_nat) simp
  then show "mem (patched a t m) (b + of_nat i) = mem m (b + of_nat i)"
    using assms by (simp add: mem_patched)
qed

lemma peek_set_fs: "peek (snd (set_fs K b m)) a n = peek m a n"
  by (simp add: peek_def)

lemma mmap_lh_libc:
  assumes "sys_mmap K a n p fl fd off m = (r, map_pages r (ROUND_UP n) p (mapped_byte fl c off) m)"
    and "r \<noteq> MAP_FAILED" "r \<noteq> 0" "off AND MMAP_OFF_MASK = 0" "grants_mprotect K"
    and "0 < fd" "has_flag p PROT_EXEC"
    and "checkLibrary (fds m fd) (bytes_of ''libc-'') PATH_MAX = (1, glibc)"
    and "get_symbol_offset K m glibc (bytes_of ''mmap'') = Inr mo" "mo \<noteq> -1"
    and "get_symbol_offset K m glibc (bytes_of ''sbrk'') = Inr so" "so \<noteq> -1"
    and "k_sym K ''mmapWrapper'' \<noteq> 0" "k_sym K ''sbrkWrapper'' \<noteq> 0"
    and "patch_inside r n mo" "patch_inside r n so"
  shows "mmap_lh K a n p fl fd off m =
    Inr (r, patched (r + so) (k_sym K ''sbrkWrapper'') (patched (r + mo) (k_sym K ''mmapWrapper'')
      (record_region r n (map_pages r (ROUND_UP n) p (mapped_byte fl c off) m))))"
proof -
  let ?m = "record_region r n (map_pages r (ROUND_UP n) p (mapped_byte fl c off) m)"
  have "files ?m = files m" by simp
  note sym = get_symbol_offset_files [OF this, of K glibc]
  have "patchLibc K fd r glibc ?m = Inr (patched (r + so) (k_sym K ''sbrkWrapper'')
      (patched (r + mo) (k_sym K ''mmapWrapper'') ?m))"
    by (rule patchLibc_patches [OF assms(5,3,6) assms(9) [folded sym] assms(10) assms(11) [folded sym]
          assms(12-16)]) (simp add: prot_map_pages)
  then show ?thesis
    using assms(1,2,4,6-8) by (simp add: mmap_lh_def record_region_def)
qed

text \<open>
  C23. Mapping the C library executable redirects its allocator: when the symbols \<open>mmap\<close> and
  \<open>sbrk\<close> are found and the two patches lie in the mapping and do not overlap, both functions of
  the new image jump to the wrappers of the lower half.
\<close>

theorem mmapWrapper_patches_libc:
  assumes "kernel_ok K" "grants_mprotect K"
    and "mmapWrapper K a n p fl fd off m = Inr (r, m')" "r \<noteq> MAP_FAILED"
    and "0 < fd" "has_flag p PROT_EXEC"
    and "checkLibrary (fds m fd) (bytes_of ''libc-'') PATH_MAX = (1, glibc)"
    and "get_symbol_offset K m glibc (bytes_of ''mmap'') = Inr mo" "mo \<noteq> -1"
    and "get_symbol_offset K m glibc (bytes_of ''sbrk'') = Inr so" "so \<noteq> -1"
    and "k_sym K ''mmapWrapper'' \<noteq> 0" "k_sym K ''sbrkWrapper'' \<noteq> 0"
    and "patch_inside r n mo" "patch_inside r n so"
    and "\<forall>x. in_range (r + mo) 12 x \<longrightarrow> \<not> in_range (r + so) 12 x"
  shows "jump_target (peek m' (r + mo) 12) = Some (k_sym K ''mmapWrapper'') \<and>
    jump_target (peek m' (r + so) 12) = Some (k_sym K ''sbrkWrapper'')"
  using assms(3) unfolding mmapWrapper_def
proof (rule in_lower_half_Inr)
  fix m1 :: "'a lower_half_scheme"
  define m0 where "m0 = m\<lparr>fs_base := (if lhFsAddr (lhInfo m) > 0 \<and> k_set_fs K (lhFsAddr (lhInfo m))
    then lhFsAddr (lhInfo m) else fs_base m)\<rparr>"
  assume b: "mmap_lh K a n p fl fd off (m\<lparr>fs_base := (if lhFsAddr (lhInfo m) > 0 \<and>
      k_set_fs K (lhFsAddr (lhInfo m)) then lhFsAddr (lhInfo m) else fs_base m)\<rparr>) = Inr (r, m1)"
    and m': "m' = snd (set_fs K (fs_base m) m1)"
  note b' = b [folded m0_def]
  have m0: "files m0 = files m" "fds m0 = fds m" by (simp_all add: m0_def)
  have syms: "get_symbol_offset K m0 glibc (bytes_of ''mmap'') = Inr mo"
    "get_symbol_offset K m0 glibc (bytes_of ''sbrk'') = Inr so"
    using assms(8,10) by (simp_all only: get_symbol_offset_files [OF m0(1), of K glibc])
  obtain r1 m2 where sys: "sys_mmap K a n p fl fd off m0 = (r1, m2)" by fastforce
  have off: "off AND MMAP_OFF_MASK = 0"
    using b' assms(4) by (auto simp: mmap_lh_def split: if_splits)
  from sys assms(1) show ?thesis
  proof (cases rule: sys_mmap_cases)
    case failed
    then show ?thesis using b' assms(4) off sys by (simp add: mmap_lh_def)
  next
    case (granted c)
    have r: "r1 = r"
      using b' off sys granted(1)
      by (auto simp: mmap_lh_def Let_def run_simps split: if_splits prod.splits)
    have "mmap_lh K a n p fl fd off m0 =
      Inr (r, patched (r + so) (k_sym K ''sbrkWrapper'') (patched (r + mo) (k_sym K ''mmapWrapper'')
        (record_region r n (map_pages r (ROUND_UP n) p (mapped_byte fl c off) m0))))"
      by (rule mmap_lh_libc [OF _ _ _ _ _ _ _ _ syms(1) _ syms(2)])
         (use sys granted off assms in \<open>simp_all add: r placement_ok_def m0\<close>)
    then have "m1 = patched (r + so) (k_sym K ''sbrkWrapper'') (patched (r + mo) (k_sym K ''mmapWrapper'')
        (record_region r n (map_pages r (ROUND_UP n) p (mapped_byte fl c off) m0)))"
      using b' by simp
    then show ?thesis
      using assms(16) by (simp add: m' jump_target_patched peek_patched_other peek_set_fs)
  qed
qed

subsection \<open>A lower half that maps a C library\<close>

definition libc_name :: "byte list" where "libc_name = bytes_of ''/lib/libc-2.31.so''"
definition libc_strtab :: "byte list" where
  "libc_strtab = bytes_of ''mmap'' @ 0 # bytes_of ''sbrk'' @ [0]"
definition libc_syms :: "byte list list" where
  "libc_syms = [raw_sym 0 0x100, raw_sym 5 0xffa]"

definition fresh_lower_half :: lower_half where
  "fresh_lower_half = \<lparr>mem = (\<lambda>x. 0), prot_at = (\<lambda>x. None), fs_base = 0x1000,
     files = [libc_name \<mapsto> elf_lib libc_syms libc_strtab], fds = [5 \<mapsto> libc_name],
     numRegions = 0, mmaps = replicate MAX_TRACK \<lparr>mi_addr = 0, mi_len = 0\<rparr>, curbrk = 0, endOfHeap = 0,
     lhInfo = \<lparr>lhSbrk = 0x6000, lhMmap = 0x5000, lhDlsym = 0x7000, lhFsAddr = 0x2000,
       lhMmapListFptr = 0x8000\<rparr>\<rparr>"

lemma fresh_table_ok: "table_ok fresh_lower_half"
  by (simp add: table_ok_def fresh_lower_half_def MAX_TRACK_def)

lemma libc_symbols:
  "get_symbol_offset plain_kernel fresh_lower_half libc_name (bytes_of ''mmap'') = Inr 0x100"
  "get_symbol_offset plain_kernel fresh_lower_half libc_name (bytes_of ''sbrk'') = Inr 0xffa"
proof -
  have lib: "347 + 24 * length libc_syms + length libc_strtab < 2 ^ 31"
    "list_all (\<lambda>e. length e = 24) libc_syms" "\<forall>k. k_malloc plain_kernel k"
    "open_ro plain_kernel libc_name fresh_lower_half =
       Some \<lparr>content = elf_lib libc_syms libc_strtab, pos = 0, answers = []\<rparr>"
    by (simp_all add: libc_syms_def libc_strtab_def plain_kernel_def open_ro_def fresh_lower_half_def)
  have "get_symbol_offset plain_kernel fresh_lower_half libc_name sy =
      Inr (symbol_in libc_strtab sy libc_syms)" for sy
    by (rule elf_lib_lookup [OF lib])
  then show "get_symbol_offset plain_kernel fresh_lower_half libc_name (bytes_of ''mmap'') = Inr 0x100"
    "get_symbol_offset plain_kernel fresh_lower_half libc_name (bytes_of ''sbrk'') = Inr 0xffa"
    by (simp_all add: symbol_in_def libc_syms_def libc_strtab_def codec_simps bytes_of_def cstr_def)
qed

lemma patch_inside_libc: "patch_inside 0x10000 0x2000 0x100" "patch_inside 0x10000 0x2000 0xffa"
  by (auto simp: patch_inside_def patch_pages_def ROUND_DOWN_def ROUND_UP_def PAGE_SIZE_def
      asm_jump_def in_range_def intro: order_less_trans)

definition map_libc :: "(va \<times> lower_half) run" where
  "map_libc = mmapWrapper plain_kernel 0x10000 0x2000 (PROT_READ OR PROT_EXEC)
     (MAP_PRIVATE OR MAP_FIXED) 5 0 fresh_lower_half"

lemma plain_grants_mprotect: "grants_mprotect plain_kernel"
  by (simp add: grants_mprotect_def plain_kernel_def)

lemma checkLibrary_libc:
  "checkLibrary (fds fresh_lower_half 5) (bytes_of ''libc-'') PATH_MAX = (1, libc_name)"
  by (simp add: checkLibrary_def fresh_lower_half_def libc_name_def bytes_of_def cstr_def PATH_MAX_def
      Let_def)

lemma map_libc_done: "\<exists>m'. map_libc = Inr (0x10000, m')"
proof -
  let ?m = "fresh_lower_half\<lparr>fs_base := 0x2000\<rparr>"
  let ?fl = "MAP_PRIVATE OR MAP_FIXED" and ?p = "PROT_READ OR PROT_EXEC"
  have flags: "has_flag MAP_FIXED MAP_FIXED" "\<not> has_flag MAP_PRIVATE MAP_ANONYMOUS"
    "\<not> has_flag MAP_FIXED MAP_ANONYMOUS" "has_flag PROT_EXEC PROT_EXEC" "MAP_FAILED \<noteq> 0x10000"
    by (simp_all add: has_flag_def flag_defs MAP_FAILED_def)
  have place: "placement_ok P 0x10000 0x2000 ?fl 0x10000" for P
    by (simp add: placement_ok_def flags no_wrap_def ROUND_UP_def PAGE_SIZE_def page_aligned_iff)
  have libc: "file_of_fd 5 ?m = Some (elf_lib libc_syms libc_strtab)"
    by (simp add: file_of_fd_def fresh_lower_half_def)
  have sys: "sys_mmap plain_kernel 0x10000 0x2000 ?p ?fl 5 0 ?m =
      (0x10000, map_pages 0x10000 (ROUND_UP 0x2000) ?p
        (mapped_byte ?fl (elf_lib libc_syms libc_strtab) 0) ?m)"
    by (simp add: sys_mmap_def flags libc plain_kernel_def place)
  have sym: "get_symbol_offset plain_kernel ?m libc_name (bytes_of ''mmap'') = Inr 0x100"
    "get_symbol_offset plain_kernel ?m libc_name (bytes_of ''sbrk'') = Inr 0xffa"
    using libc_symbols get_symbol_offset_files [of ?m fresh_lower_half] by simp_all
  have "\<exists>m'. mmap_lh plain_kernel 0x10000 0x2000 ?p ?fl 5 0 ?m = Inr (0x10000, m')"
    using mmap_lh_libc [OF sys _ _ _ plain_grants_mprotect _ _ _ sym(1) _ sym(2)] patch_inside_libc
      checkLibrary_libc
    by (simp add: flags plain_kernel_def)
  then show ?thesis
    by (auto simp: map_libc_def mmapWrapper_def in_lower_half_def Let_def run_simps set_fs_def
        plain_kernel_def fresh_lower_half_def)
qed

theorem mmapWrapper_patches_libc_witness:
  "\<exists>m'. map_libc = Inr (0x10000, m') \<and> jump_target (peek m' 0x10100 12) = Some 0x5000 \<and>
     jump_target (peek m' 0x10ffa 12) = Some 0x6000"
proof -
  obtain m' where m': "map_libc = Inr (0x10000, m')" using map_libc_done by blast
  have syms: "k_sym plain_kernel ''mmapWrapper'' = 0x5000" "k_sym plain_kernel ''sbrkWrapper'' = 0x6000"
    by (simp_all add: plain_kernel_def)
  have disjoint: "in_range 0x10100 12 x \<Longrightarrow> \<not> in_range 0x10ffa 12 x" for x
    by (simp add: in_range_unat no_wrap_def)
  have "has_flag (PROT_READ OR PROT_EXEC) PROT_EXEC" "(0x10000 :: va) \<noteq> MAP_FAILED"
    by (simp_all add: has_flag_def flag_defs MAP_FAILED_def)
  then show ?thesis
    using mmapWrapper_patches_libc [OF plain_kernel_ok plain_grants_mprotect m' [unfolded map_libc_def]
        _ _ _ checkLibrary_libc libc_symbols(1) _ libc_symbols(2) _ _ _ patch_inside_libc] m'
      disjoint by (auto simp: syms)
qed

theorem mmapWrapper_records_witness:
  "\<exists>m'. map_libc = Inr (0x10000, m') \<and> table_ok m' \<and> tracked m' = [\<lparr>mi_addr = 0x10000, mi_len = 0x2000\<rparr>]"
proof -
  obtain m' where m': "map_libc = Inr (0x10000, m')" using map_libc_done by blast
  have "tracked fresh_lower_half = []" "(0x10000 :: va) \<noteq> MAP_FAILED"
    by (simp_all add: tracked_def getMmappedList_def fresh_lower_half_def MAP_FAILED_def)
  then show ?thesis
    using mmapWrapper_records [OF plain_kernel_ok fresh_table_ok m' [unfolded map_libc_def]] m'
    by (auto simp: MAX_TRACK_def)
qed

end
