(* ===== verification/CustomLoader.thy ===== *)
theory CustomLoader
  imports CLib MmapWrapper
begin

text \<open>
  Loading the runtime loader \<open>ld.so\<close> (\<open>custom-loader.c\<close>): its program headers are read one by one and
  every \<open>PT_LOAD\<close> segment is mapped, through the wrapper of the lower half, at a base address
  computed from the rank. The statics of \<open>map_elf_interpreter_load_segment\<close> are a record that is
  passed along; \<open>environ\<close> is the address of the environment vector.
\<close>

section \<open>Data\<close>

record Phdr =
  p_type :: u32
  p_flags :: u32
  p_offset :: u64
  p_vaddr :: u64
  p_filesz :: u64
  p_memsz :: u64
  p_align :: u64

definition phdr_of_bytes :: "byte list \<Rightarrow> Phdr" where
  "phdr_of_bytes bs = \<lparr>p_type = field 0 4 bs, p_flags = field 4 4 bs, p_offset = field 8 8 bs,
     p_vaddr = field 16 8 bs, p_filesz = field 32 8 bs, p_memsz = field 40 8 bs, p_align = field 48 8 bs\<rparr>"

definition PT_LOAD :: u32 where "PT_LOAD = 1"
definition PF_X :: u32 where "PF_X = 1"
definition PF_W :: u32 where "PF_W = 2"
definition PF_R :: u32 where "PF_R = 4"
definition ELFMAG :: "byte list" where "ELFMAG = [0x7f, 0x45, 0x4c, 0x46]"
definition ELFCLASS64 :: byte where "ELFCLASS64 = 2"
definition MAX_ELF_INTERP_SZ :: nat where "MAX_ELF_INTERP_SZ = 256"

record DynObjInfo =
  baseAddr :: va
  entryPoint :: va
  phnum :: u64
  phdr :: va
  mmapAddr :: va
  sbrkAddr :: va

record ld_static =
  base_address :: va
  first_time :: bool

definition ld_init :: ld_static where "ld_init = \<lparr>base_address = 0, first_time = True\<rparr>"

section \<open>map_elf_interpreter_load_segment\<close>

definition seg_prot :: "u32 \<Rightarrow> u32" where
  "seg_prot fl =
     (let prot = PROT_NONE;
          prot = (if has_flag fl PF_R then prot OR PROT_READ else prot);
          prot = (if has_flag fl PF_W then prot OR PROT_WRITE else prot)
      in if has_flag fl PF_X then prot OR PROT_EXEC else prot)"

text \<open>\<open>atoi(getenv("RANK_ID"))\<close>; without the variable \<open>atoi\<close> reads through a null pointer.\<close>

definition rank_id :: "va \<Rightarrow> 'a machine_scheme \<Rightarrow> u32 run" where
  "rank_id environ m =
     andThen (getenv m environ (bytes_of ''RANK_ID'')) (\<lambda>env.
       if env = 0 then Inl Segv else andThen (cstr_at m env) (\<lambda>s. Inr (atoi s)))"

definition rank_base :: "u32 \<Rightarrow> va" where
  "rank_base rank_ID =
     (let \<comment> \<open>\<open>_4GB\<close>\<close> g4 = push_bit 32 1; ld_so_offset = (3 * g4) div 4
      in g4 + g4 * scast rank_ID + ld_so_offset)"

definition map_elf_interpreter_load_segment :: "kernel \<Rightarrow> va \<Rightarrow> int \<Rightarrow> Phdr \<Rightarrow> va \<Rightarrow> ld_static \<Rightarrow>
    'a lower_half_scheme \<Rightarrow> (va \<times> ld_static \<times> 'a lower_half_scheme) run" where
  "map_elf_interpreter_load_segment K environ fd ph ld_so_addr st m =
     (let prot = seg_prot (p_flags ph) in
      if \<not> p_memsz ph \<ge> p_filesz ph then Inl AssertFail
      else if p_align ph > 1 \<and> p_vaddr ph mod p_align ph \<noteq> p_offset ph mod p_align ph then Inl AssertFail
      else
        let vaddr = (ucast (p_vaddr ph) :: i32) in
        andThen (if first_time st
                 then andThen (rank_id environ m) (\<lambda>rank_ID. Inr (st\<lparr>base_address := rank_base rank_ID\<rparr>))
                 else Inr st) (\<lambda>st.
          let addr = ROUND_DOWN (base_address st + scast vaddr);
              size = ROUND_UP (p_filesz ph + PAGE_OFFSET (p_vaddr ph));
              offset = p_offset ph - PAGE_OFFSET (p_vaddr ph);
              ph = (if first_time st then ph\<lparr>p_vaddr := p_vaddr ph + ld_so_addr\<rparr> else ph);
              flags = MAP_PRIVATE OR MAP_FIXED
          in andThen (mmapWrapper K addr size prot flags fd offset m) (\<lambda>(rc2, m).
            if rc2 = MAP_FAILED then Inr (0, st, m)
            else
              let startBss = base_address st + p_vaddr ph + p_filesz ph;
                  endBss = base_address st + p_vaddr ph + p_memsz ph
              in andThen (if p_memsz ph > p_filesz ph
                          then memset0 startBss (ROUND_UP startBss - startBss) m else Inr m) (\<lambda>m.
                let startBss = ROUND_UP startBss; endBss = ROUND_UP endBss
                in andThen (if endBss > startBss
                            then mmapWrapper K startBss (endBss - startBss) prot (flags OR MAP_ANONYMOUS) (-1) 0 m
                            else Inr (rc2, m)) (\<lambda>(rc2, m).
                  if rc2 = MAP_FAILED then Inr (0, st, m)
                  else
                    let st = (if first_time st then st\<lparr>first_time := False, base_address := rc2\<rparr> else st)
                    in Inr (base_address st, st, m))))))"

section \<open>load_elf_interpreter\<close>

text \<open>The loop over the program headers, with the number of headers that are left.\<close>

fun load_segments :: "kernel \<Rightarrow> va \<Rightarrow> int \<Rightarrow> va \<Rightarrow> nat \<Rightarrow> bool \<Rightarrow> va \<Rightarrow> ofile \<Rightarrow> ld_static \<Rightarrow>
    'a lower_half_scheme \<Rightarrow> (va \<times> ld_static \<times> 'a lower_half_scheme) run" where
  "load_segments K environ fd ld_so_addr 0 firstTime base f st m = Inr (base, st, m)"
| "load_segments K environ fd ld_so_addr (Suc n) firstTime base f st m =
     andThen (read_struct 56 f) (\<lambda>(bs, f).
       let ph = phdr_of_bytes bs in
       if p_type ph = PT_LOAD then
         andThen (map_elf_interpreter_load_segment K environ fd ph ld_so_addr st m) (\<lambda>(r, st, m).
           load_segments K environ fd ld_so_addr n False (if firstTime then r else base) f st m)
       else load_segments K environ fd ld_so_addr n firstTime base f st m)"

text \<open>
  The descriptor and the open file behind it (\<open>None\<close> when \<open>open\<close> failed). \<open>phoff\<close> is an \<open>int\<close>. The
  results are the base, the entry of the header, and the members of \<open>info\<close> the function sets.
\<close>

definition load_elf_interpreter :: "kernel \<Rightarrow> va \<Rightarrow> int \<Rightarrow> ofile option \<Rightarrow> va \<Rightarrow> ld_static \<Rightarrow>
    'a lower_half_scheme \<Rightarrow> (va \<times> u64 \<times> DynObjInfo \<times> ld_static \<times> 'a lower_half_scheme) run" where
  "load_elf_interpreter K environ fd file ld_so_addr st m =
     (case file of
        None \<Rightarrow> Inl AssertFail
      | Some f \<Rightarrow>
          andThen (read_struct 16 f) (\<lambda>(e_ident, f).
            if \<not> take 4 e_ident = ELFMAG then Inl AssertFail
            else if \<not> e_ident ! 4 = ELFCLASS64 then Inl AssertFail
            else
              andThen (read_struct 64 (snd (lseek_set 0 f))) (\<lambda>(bs, f).
                let elf_hdr = ehdr_of_bytes bs; phoff = (ucast (e_phoff elf_hdr) :: i32);
                    f = snd (lseek_set (scast phoff) f)
                in andThen (load_segments K environ fd ld_so_addr (unat (e_phnum elf_hdr)) True 0 f st m)
                     (\<lambda>(base, st, m).
                       Inr (base, e_entry elf_hdr,
                         \<lparr>baseAddr = 0, entryPoint = 0, phnum = ucast (e_phnum elf_hdr),
                          phdr = base + e_phoff elf_hdr, mmapAddr = 0, sbrkAddr = 0\<rparr>, st, m)))))"

section \<open>safeLoadLib\<close>

text \<open>
  \<open>strncpy\<close> leaves a name of 256 bytes or more without its terminator; what follows it on the stack is
  then part of the path.
\<close>

definition interp_path :: "kernel \<Rightarrow> byte list \<Rightarrow> byte list" where
  "interp_path K name = cstr (strncpy name MAX_ELF_INTERP_SZ @ k_stale K MAX_ELF_INTERP_SZ)"

definition safeLoadLib :: "kernel \<Rightarrow> va \<Rightarrow> byte list \<Rightarrow> ld_static \<Rightarrow> 'a lower_half_scheme \<Rightarrow>
    (DynObjInfo \<times> ld_static \<times> 'a lower_half_scheme) run" where
  "safeLoadLib K environ name st m =
     (let ld_so_addr = 0;
          (cmd_fd, m) = sys_open name m;
          m = sys_close cmd_fd m;
          elf_interpreter = interp_path K name;
          (ld_so_fd, m) = sys_open elf_interpreter m
      in andThen (load_elf_interpreter K environ ld_so_fd
                    (if ld_so_fd < 0 then None else open_ro K elf_interpreter m) ld_so_addr st m)
           (\<lambda>(base, ld_so_entry, info, st, m).
             let info = info\<lparr>baseAddr := base\<rparr>; m = sys_close ld_so_fd m in
             andThen (get_symbol_offset K m name (bytes_of ''mmap'')) (\<lambda>mmapOffset.
             andThen (get_symbol_offset K m name (bytes_of ''sbrk'')) (\<lambda>sbrkOffset.
               let info = (if mmapOffset = -1 \<or> sbrkOffset = -1 then info
                           else info\<lparr>mmapAddr := base + mmapOffset, sbrkAddr := base + sbrkOffset\<rparr>)
               in Inr (info\<lparr>entryPoint := base + ld_so_entry\<rparr>, st, m)))))"

section \<open>Mappings of a file other than the C library\<close>

definition quiet_fd :: "int \<Rightarrow> 'a machine_scheme \<Rightarrow> bool" where
  "quiet_fd fd m \<longleftrightarrow> fd \<le> 0 \<or> fst (checkLibrary (fds m fd) (bytes_of ''libc-'') PATH_MAX) = 0"

definition file_bytes :: "int \<Rightarrow> 'a machine_scheme \<Rightarrow> byte list" where
  "file_bytes fd m = (case file_of_fd fd m of None \<Rightarrow> [] | Some c \<Rightarrow> c)"

text \<open>What a granted mapping does to memory, protections and table.\<close>

definition mapped :: "va \<Rightarrow> u64 \<Rightarrow> u32 \<Rightarrow> u32 \<Rightarrow> int \<Rightarrow> u64 \<Rightarrow> 'a lower_half_scheme \<Rightarrow>
    'a lower_half_scheme \<Rightarrow> bool" where
  "mapped r n p fl fd off m m' \<longleftrightarrow> same_globals (record_region r n m) m' \<and>
     mem m' = (\<lambda>x. if in_range r (ROUND_UP n) x then mapped_byte fl (file_bytes fd m) off (x - r) else mem m x) \<and>
     prot_at m' = (\<lambda>x. if in_range r (ROUND_UP n) x then Some p else prot_at m x)"

lemma mmap_lh_quiet:
  assumes "quiet_fd fd m" "off AND MMAP_OFF_MASK = 0"
  shows "mmap_lh K a n p fl fd off m = (let (r, m') = sys_mmap K a n p fl fd off m
     in Inr (r, if r = MAP_FAILED then m' else record_region r n m'))"
proof -
  obtain r m' where sys: "sys_mmap K a n p fl fd off m = (r, m')" by fastforce
  then have "fds m' = fds m"
    using sys_mmap_failed_or_placed [OF sys] by auto
  then show ?thesis
    using assms sys by (auto simp: mmap_lh_def quiet_fd_def record_region_def Let_def split: prod.splits)
qed

lemma mapped_fs: "mapped r n p fl fd off (m\<lparr>fs_base := a\<rparr>) m' \<Longrightarrow> mapped r n p fl fd off m m'"
  by (simp add: mapped_def same_globals_def record_region_def file_bytes_def file_of_fd_def cong: if_cong)

lemma mapped_set_fs: "mapped r n p fl fd off m m' \<Longrightarrow> mapped r n p fl fd off m (snd (set_fs K a m'))"
  by (simp add: mapped_def same_globals_def set_fs_def)

lemma mapped_pages: "mapped r n p fl fd off m
    (record_region r n (map_pages r (ROUND_UP n) p (mapped_byte fl (file_bytes fd m) off) m))"
  by (simp add: mapped_def fun_eq_iff mem_map_pages prot_map_pages record_region_cong)

lemma mmapWrapper_granted:
  assumes "quiet_fd fd m" "off AND MMAP_OFF_MASK = 0" "n \<noteq> 0"
    and "has_flag fl MAP_ANONYMOUS \<or> file_of_fd fd m \<noteq> None"
    and "k_place K (prot_at m) a n p fl fd off = Some r" "r \<noteq> MAP_FAILED"
  shows "\<exists>m'. mmapWrapper K a n p fl fd off m = Inr (r, m') \<and> mapped r n p fl fd off m m'"
proof -
  define m0 where "m0 = (if lhFsAddr (lhInfo m) > 0 then snd (set_fs K (lhFsAddr (lhInfo m)) m) else m)"
  have m0: "m0 = m\<lparr>fs_base := fs_base m0\<rparr>" by (simp add: m0_def set_fs_def)
  have same: "prot_at m0 = prot_at m" "file_of_fd fd m0 = file_of_fd fd m" "quiet_fd fd m0"
    using assms(1) by (subst m0; simp add: file_of_fd_def quiet_fd_def)+
  have "sys_mmap K a n p fl fd off m0 =
      (r, map_pages r (ROUND_UP n) p (mapped_byte fl (file_bytes fd m0) off) m0)"
    using assms(3-5) same by (auto simp: sys_mmap_def file_bytes_def)
  then have "mmap_lh K a n p fl fd off m0 =
      Inr (r, record_region r n (map_pages r (ROUND_UP n) p (mapped_byte fl (file_bytes fd m0) off) m0))"
    using assms(6) by (simp add: mmap_lh_quiet [OF same(3) assms(2)])
  then have "mmapWrapper K a n p fl fd off m = Inr (r, snd (set_fs K (fs_base m)
      (record_region r n (map_pages r (ROUND_UP n) p (mapped_byte fl (file_bytes fd m0) off) m0))))"
    by (simp add: mmapWrapper_def in_lower_half_def Let_def m0_def)
  moreover have "mapped r n p fl fd off m
      (record_region r n (map_pages r (ROUND_UP n) p (mapped_byte fl (file_bytes fd m0) off) m0))"
    by (rule mapped_fs [where a = "fs_base m0"]) (use mapped_pages [of r n p fl fd off m0] m0 in simp)
  ultimately show ?thesis using mapped_set_fs by blast
qed

lemma mmapWrapper_quiet_cases:
  assumes "mmapWrapper K a n p fl fd off m = Inr (r, m')" "kernel_ok K" "quiet_fd fd m"
  obtains (refused) "r = MAP_FAILED" "same_globals m m'" "mem m' = mem m" "prot_at m' = prot_at m"
    | (granted) "r \<noteq> MAP_FAILED" "n \<noteq> 0" "placement_ok (prot_at m) a n fl r" "mapped r n p fl fd off m m'"
proof (cases "off AND MMAP_OFF_MASK = 0 \<and> n \<noteq> 0 \<and> (has_flag fl MAP_ANONYMOUS \<or> file_of_fd fd m \<noteq> None) \<and>
    k_place K (prot_at m) a n p fl fd off \<noteq> None")
  case True
  then obtain r' where r': "k_place K (prot_at m) a n p fl fd off = Some r'" by auto
  have ok: "placement_ok (prot_at m) a n fl r'" by (rule kernel_ok_place [OF assms(2) r'])
  then have "r' \<noteq> MAP_FAILED" using MAP_FAILED_unaligned by (auto simp: placement_ok_def)
  then show thesis
    using mmapWrapper_granted [OF assms(3) _ _ _ r'] True assms(1) ok granted by fastforce
next
  case False
  from assms(1,2) show thesis
  proof (cases rule: mmapWrapper_cases)
    case refused
    then show thesis by (rule that(1))
  next
    case (granted c)
    have no: "mmap_lh K a n p fl fd off m0 = Inr (MAP_FAILED, m0)"
      if "prot_at m0 = prot_at m" "file_of_fd fd m0 = file_of_fd fd m" for m0 :: "'a lower_half_scheme"
      using False that by (auto simp: mmap_lh_def sys_mmap_def)
    have "file_of_fd fd (m\<lparr>fs_base := x\<rparr>) = file_of_fd fd m" for x by (simp add: file_of_fd_def)
    then have "r = MAP_FAILED"
      using assms(1) no [of m] no [of "snd (set_fs K (lhFsAddr (lhInfo m)) m)"]
      by (auto simp: mmapWrapper_def in_lower_half_def Let_def set_fs_def split: if_splits)
    then show thesis using granted(1) by simp
  qed
qed

section \<open>One segment\<close>

text \<open>Addresses by their offset from a base.\<close>

lemma in_range_offset:
  assumes "unat w + unat n \<le> 2 ^ 64"
  shows "in_range (b + w) n x \<longleftrightarrow> unat w \<le> unat (x - b) \<and> unat (x - b) < unat w + unat n"
proof -
  define y where "y = x - b"
  have "x - (b + w) = y - w" by (simp add: y_def)
  moreover have "unat (y - w) = (if unat w \<le> unat y then unat y - unat w else unat y + 2 ^ 64 - unat w)"
    by (simp add: unat_sub_if')
  ultimately show ?thesis
    using assms unat_u64 [of y] unat_u64 [of w]
    by (simp only: in_range_def word_less_nat_alt y_def [symmetric]) auto
qed

text \<open>The pages of a segment as offsets from the base, and the byte the program expects at an offset.\<close>

definition seg_lo :: "Phdr \<Rightarrow> nat" where
  "seg_lo ph = unat (p_vaddr ph) div 4096 * 4096"

definition page_up :: "nat \<Rightarrow> nat" where
  "page_up n = (n + 4095) div 4096 * 4096"

definition seg_hi :: "Phdr \<Rightarrow> nat" where
  "seg_hi ph = page_up (unat (p_vaddr ph) + unat (p_memsz ph))"

definition in_seg :: "va \<Rightarrow> Phdr \<Rightarrow> va \<Rightarrow> bool" where
  "in_seg b ph x \<longleftrightarrow> seg_lo ph \<le> unat (x - b) \<and> unat (x - b) < seg_hi ph"

definition seg_byte :: "byte list \<Rightarrow> Phdr \<Rightarrow> nat \<Rightarrow> byte" where
  "seg_byte c ph k =
     (let i = unat (p_offset ph) + k - unat (p_vaddr ph)
      in if p_filesz ph < p_memsz ph \<and> unat (p_vaddr ph) + unat (p_filesz ph) \<le> k then 0
         else if i < length c then c ! i else 0)"

text \<open>
  What the ELF format and the code ask of a segment: some bytes in the file, at most as many as in
  memory; an offset congruent to the address; a writable segment when it has bytes not in the
  file; and addresses below 1 GB, because the base lies that far below the end of the rank's range.
\<close>

definition phdr_ok :: "Phdr \<Rightarrow> bool" where
  "phdr_ok ph \<longleftrightarrow> p_filesz ph \<noteq> 0 \<and> p_filesz ph \<le> p_memsz ph \<and>
     unat (p_vaddr ph) + unat (p_memsz ph) \<le> 2 ^ 30 \<and>
     unat (p_vaddr ph) mod 4096 = unat (p_offset ph) mod 4096 \<and>
     (p_align ph > 1 \<longrightarrow> p_vaddr ph mod p_align ph = p_offset ph mod p_align ph) \<and>
     (p_filesz ph < p_memsz ph \<longrightarrow> has_flag (p_flags ph) PF_W)"

definition base_ok :: "va \<Rightarrow> bool" where
  "base_ok b \<longleftrightarrow> page_aligned b \<and> b \<noteq> 0 \<and> unat b + 2 ^ 30 \<le> 2 ^ 47"

lemma page_up_bounds: "n \<le> page_up n" "page_up n < n + 4096" "page_up n mod 4096 = 0"
  using round_up_nat_bounds [of n] by (simp_all add: page_up_def)

lemma page_up_mono: "n \<le> k \<Longrightarrow> page_up n \<le> page_up k"
  unfolding page_up_def by (intro mult_le_mono1 div_le_mono) simp

lemma page_up_aligned: "k mod 4096 = 0 \<Longrightarrow> page_up k = k"
  by (simp add: page_up_def round_up_nat_aligned)

lemma page_up_shift: "k mod 4096 = 0 \<Longrightarrow> page_up (k + n) = k + page_up n"
  unfolding page_up_def
  by (metis (no_types, lifting) ab_semigroup_add_class.add_ac(1) add_mult_distrib div_plus_div_distrib_dvd_left mod_eq_0_iff_dvd mult_div_exact)

lemma unat_ROUND_UP_page_up: "unat x + 4095 < 2 ^ 64 \<Longrightarrow> unat (ROUND_UP x) = page_up (unat x)"
  by (simp add: page_up_def unat_ROUND_UP)

lemma seg_prot_write: "has_flag (seg_prot fl) PROT_WRITE \<longleftrightarrow> has_flag fl PF_W"
  by (simp add: seg_prot_def Let_def) (simp add: has_flag_def flag_defs)

text \<open>The words the code computes, as offsets from the base.\<close>

lemma seg_small:
  assumes "phdr_ok ph"
  shows "unat (p_filesz ph) \<le> unat (p_memsz ph)" "0 < unat (p_filesz ph)"
    "unat (p_vaddr ph) + unat (p_memsz ph) \<le> 0x40000000" "unat (p_vaddr ph) < 0x40000000"
proof -
  show "unat (p_filesz ph) \<le> unat (p_memsz ph)" "0 < unat (p_filesz ph)"
    "unat (p_vaddr ph) + unat (p_memsz ph) \<le> 0x40000000"
    using assms by (simp_all add: phdr_ok_def word_le_nat_alt unat_gt_0)
  then show "unat (p_vaddr ph) < 0x40000000" by linarith
qed

lemma seg_vaddr:
  assumes "phdr_ok ph"
  shows "scast (ucast (p_vaddr ph) :: i32) = p_vaddr ph"
proof -
  define v where "v = p_vaddr ph"
  have v: "unat v < 0x40000000" using seg_small(4) [OF assms] by (simp add: v_def)
  have u: "unat (ucast v :: i32) = unat v"
    using v by (simp add: unsigned_ucast_eq take_bit_nat_eq_self_iff)
  then have "sint (ucast v :: i32) = int (unat v)"
    using v sint_small [of "ucast v :: i32"] by simp
  then have "(word_of_int (sint (ucast v :: i32)) :: u64) = v" by (simp add: word_unat_eq_iff)
  moreover have "(scast (ucast v :: i32) :: u64) = word_of_int (sint (ucast v :: i32))" by (rule scast_eq)
  ultimately show ?thesis by (simp only: v_def)
qed

lemma base_aligned:
  assumes "base_ok b" shows "unat b mod 4096 = 0" "unat b + 0x40000000 \<le> 2 ^ 47"
  using assms by (simp_all add: base_ok_def page_aligned_iff)

lemma unat_base_offset:
  assumes "base_ok b" "unat w \<le> 0x40001000" shows "unat (b + w) = unat b + unat w"
  using base_aligned(2) [OF assms(1)] assms(2) by (simp add: unat_word_ariths)

lemma seg_addr:
  assumes "base_ok b" "phdr_ok ph"
  shows "ROUND_DOWN (b + p_vaddr ph) = b + of_nat (seg_lo ph)"
proof -
  have v: "unat (p_vaddr ph) < 0x40000000" by (rule seg_small(4) [OF assms(2)])
  have lo: "seg_lo ph \<le> unat (p_vaddr ph)" by (simp add: seg_lo_def)
  have w: "unat (of_nat (seg_lo ph) :: u64) = seg_lo ph"
    using v lo by (simp add: unat_of_nat)
  obtain k where k: "unat b = 4096 * k" using base_aligned(1) [OF assms(1)] by (auto simp: mod_eq_0_iff_dvd)
  have "unat (ROUND_DOWN (b + p_vaddr ph)) = (4096 * k + unat (p_vaddr ph)) div 4096 * 4096"
    using v by (simp add: unat_ROUND_DOWN unat_base_offset [OF assms(1)] k)
  also have "\<dots> = 4096 * k + seg_lo ph" by (simp add: seg_lo_def)
  also have "\<dots> = unat (b + of_nat (seg_lo ph))"
    using v lo w by (simp add: unat_base_offset [OF assms(1)] k)
  finally show ?thesis by (simp only: word_unat_eq_iff)
qed

lemma seg_size:
  assumes "phdr_ok ph"
  shows "unat (ROUND_UP (p_filesz ph + PAGE_OFFSET (p_vaddr ph))) =
      page_up (unat (p_vaddr ph) + unat (p_filesz ph)) - seg_lo ph"
    and "unat (p_filesz ph + PAGE_OFFSET (p_vaddr ph)) = unat (p_filesz ph) + unat (p_vaddr ph) mod 4096"
proof -
  note small = seg_small [OF assms]
  have "unat (p_vaddr ph) mod 4096 < 4096" by simp
  then show n: "unat (p_filesz ph + PAGE_OFFSET (p_vaddr ph)) = unat (p_filesz ph) + unat (p_vaddr ph) mod 4096"
    using small by (simp add: unat_word_ariths unat_PAGE_OFFSET)
  have "unat (ROUND_UP (p_filesz ph + PAGE_OFFSET (p_vaddr ph))) =
      page_up (unat (p_filesz ph) + unat (p_vaddr ph) mod 4096)"
    using small n \<open>unat (p_vaddr ph) mod 4096 < 4096\<close> by (subst unat_ROUND_UP_page_up) simp_all
  moreover have "page_up (unat (p_vaddr ph) + unat (p_filesz ph)) =
      seg_lo ph + page_up (unat (p_filesz ph) + unat (p_vaddr ph) mod 4096)"
    using page_up_shift [of "seg_lo ph" "unat (p_filesz ph) + unat (p_vaddr ph) mod 4096"]
      div_mult_mod_eq [of "unat (p_vaddr ph)" 4096] by (simp add: seg_lo_def ac_simps)
  ultimately show "unat (ROUND_UP (p_filesz ph + PAGE_OFFSET (p_vaddr ph))) =
      page_up (unat (p_vaddr ph) + unat (p_filesz ph)) - seg_lo ph" by simp
qed

lemma seg_bss:
  assumes "base_ok b" "phdr_ok ph" "unat n \<le> unat (p_memsz ph)"
  shows "ROUND_UP (b + p_vaddr ph + n) = b + of_nat (page_up (unat (p_vaddr ph) + unat n))"
    and "unat (b + p_vaddr ph + n) = unat b + unat (p_vaddr ph) + unat n"
proof -
  let ?e = "unat (p_vaddr ph) + unat n"
  have e: "?e \<le> 0x40000000" using seg_small(3) [OF assms(2)] assms(3) by linarith
  have "unat (p_vaddr ph + n) = ?e" using e by (simp add: unat_word_ariths)
  then show u: "unat (b + p_vaddr ph + n) = unat b + unat (p_vaddr ph) + unat n"
    using unat_base_offset [OF assms(1), of "p_vaddr ph + n"] e by (simp add: add.assoc)
  have p: "page_up ?e < 0x40001000" using page_up_bounds(2) [of ?e] e by linarith
  then have w: "unat (of_nat (page_up ?e) :: u64) = page_up ?e" by (simp add: unat_of_nat)
  have "unat (ROUND_UP (b + p_vaddr ph + n)) = page_up (unat b + ?e)"
    using base_aligned(2) [OF assms(1)] e u by (subst unat_ROUND_UP_page_up) (simp_all only: u, simp_all add: add.assoc)
  also have "\<dots> = unat (b + of_nat (page_up ?e))"
    using p w by (simp add: page_up_shift base_aligned(1) [OF assms(1)] unat_base_offset [OF assms(1)])
  finally show "ROUND_UP (b + p_vaddr ph + n) = b + of_nat (page_up ?e)" by (simp only: word_unat_eq_iff)
qed

text \<open>A kernel that grants every fixed request its manual page allows.\<close>

definition grants_at :: "kernel \<Rightarrow> bool" where
  "grants_at K \<longleftrightarrow> (\<forall>P a n p fl fd off. has_flag fl MAP_FIXED \<longrightarrow> placement_ok P a n fl a \<longrightarrow>
     k_place K P a n p fl fd off = Some a)"

definition same_but_table :: "'a lower_half_scheme \<Rightarrow> 'a lower_half_scheme \<Rightarrow> bool" where
  "same_but_table m m' \<longleftrightarrow> curbrk m' = curbrk m \<and> endOfHeap m' = endOfHeap m \<and> lhInfo m' = lhInfo m \<and>
     files m' = files m \<and> fds m' = fds m"

lemma same_but_table_trans [trans]:
  "same_but_table m m' \<Longrightarrow> same_but_table m' m'' \<Longrightarrow> same_but_table m m''"
  by (simp add: same_but_table_def)

lemma same_but_table_refl [simp]: "same_but_table m m"
  by (simp add: same_but_table_def)

text \<open>The offsets \<open>i \<le> k < j\<close> from \<open>b\<close> hold the bytes \<open>g\<close> with protection \<open>p\<close>; nothing else has changed.\<close>

definition spread :: "va \<Rightarrow> nat \<Rightarrow> nat \<Rightarrow> (nat \<Rightarrow> byte) \<Rightarrow> u32 \<Rightarrow> 'a lower_half_scheme \<Rightarrow>
    'a lower_half_scheme \<Rightarrow> bool" where
  "spread b i j g p m m' \<longleftrightarrow> same_but_table m m' \<and>
     (\<forall>x. mem m' x = (if i \<le> unat (x - b) \<and> unat (x - b) < j then g (unat (x - b)) else mem m x)) \<and>
     (\<forall>x. prot_at m' x = (if i \<le> unat (x - b) \<and> unat (x - b) < j then Some p else prot_at m x))"

lemma spread_glue:
  assumes "spread b i j g p m m1" "spread b j e h p m1 m2" "i \<le> j" "j \<le> e"
  shows "spread b i e (\<lambda>k. if k < j then g k else h k) p m m2"
  using assms by (auto simp: spread_def intro: same_but_table_trans)

text \<open>A fixed mapping of whole pages at an offset.\<close>

lemma map_at:
  assumes "grants_at K" "base_ok b" "quiet_fd fd m" "page_aligned off" "has_flag fl MAP_FIXED"
    and "has_flag fl MAP_ANONYMOUS \<or> file_of_fd fd m \<noteq> None"
    and "i mod 4096 = 0" "unat n = j - i" "(j - i) mod 4096 = 0" "i < j" "j \<le> 0x40001000"
  shows "\<exists>m'. mmapWrapper K (b + of_nat i) n p fl fd off m = Inr (b + of_nat i, m') \<and>
    spread b i j (\<lambda>k. mapped_byte fl (file_bytes fd m) off (of_nat (k - i))) p m m'"
proof -
  let ?r = "b + of_nat i"
  have w: "unat (of_nat i :: u64) = i" using assms(10,11) by (simp add: unat_of_nat)
  have r: "unat ?r = unat b + i" using unat_base_offset [OF assms(2), of "of_nat i"] w assms(10,11) by simp
  have n: "page_aligned n" "n \<noteq> 0" using assms(8-10) by (auto simp: page_aligned_iff)
  have al: "page_aligned ?r"
    using base_aligned(1) [OF assms(2)] assms(7) by (simp add: page_aligned_iff r mod_add_eq [symmetric])
  have "?r \<noteq> 0"
  proof
    assume "?r = 0"
    then have "unat b + i = 0" using r by simp
    then show False using assms(2) by (simp add: base_ok_def unat_eq_zero)
  qed
  moreover have "unat b + j < 2 ^ 48" using base_aligned(2) [OF assms(2)] assms(11) by simp
  ultimately have "placement_ok (prot_at m) ?r n fl ?r"
    using assms(5,8,10) al by (simp add: placement_ok_def ROUND_UP_aligned n no_wrap_def r)
  then have place: "k_place K (prot_at m) ?r n p fl fd off = Some ?r"
    using assms(1,5) by (simp add: grants_at_def)
  have "off AND MMAP_OFF_MASK = 0"
    using assms(4) by (simp add: page_aligned_def PAGE_OFFSET_def PAGE_SIZE_def MMAP_OFF_MASK_eq)
  then obtain m' where m': "mmapWrapper K ?r n p fl fd off m = Inr (?r, m')" "mapped ?r n p fl fd off m m'"
    using mmapWrapper_granted [OF assms(3) _ n(2) assms(6) place] al MAP_FAILED_unaligned by metis
  have range: "in_range ?r (ROUND_UP n) x \<longleftrightarrow> i \<le> unat (x - b) \<and> unat (x - b) < j" for x
    using in_range_offset [of "of_nat i" n b x] assms(8,10,11) w by (simp add: ROUND_UP_aligned n)
  have off: "x - ?r = of_nat (unat (x - b) - i)" if "i \<le> unat (x - b)" for x
    using that by (simp add: of_nat_diff algebra_simps)
  have "spread b i j (\<lambda>k. mapped_byte fl (file_bytes fd m) off (of_nat (k - i))) p m m'"
    using m'(2) off
    by (auto simp: mapped_def spread_def range same_but_table_def same_globals_def diff_diff_eq)
  then show ?thesis using m'(1) by blast
qed

text \<open>Zeroing the rest of the last page of the file part.\<close>

lemma zero_tail:
  assumes "base_ok b" "spread b i j g p m m1" "has_flag p PROT_WRITE" "i \<le> k" "k \<le> j" "j \<le> 0x40001000"
    and "unat n = j - k"
  shows "\<exists>m2. memset0 (b + of_nat k) n m1 = Inr m2 \<and> spread b i j (\<lambda>l. if k \<le> l then 0 else g l) p m m2"
proof -
  let ?a = "b + of_nat k" and ?m2 = "poke (b + of_nat k) (replicate (unat n) 0) m1"
  have w: "unat (of_nat k :: u64) = k" using assms(5,6) by (simp add: unat_of_nat)
  have range: "in_range ?a n x \<longleftrightarrow> k \<le> unat (x - b) \<and> unat (x - b) < j" for x
    using in_range_offset [of "of_nat k" n b x] assms(5-7) w by simp
  have "all_prot PROT_WRITE m1 ?a (unat n)"
    by (rule all_prot_range [where n = n]) (use assms(2-4) range in \<open>auto simp: spread_def\<close>)
  then have "memset0 ?a n m1 = Inr ?m2" by (simp add: memset0_def store_def)
  moreover have "mem ?m2 x = (if k \<le> unat (x - b) \<and> unat (x - b) < j then 0 else mem m1 x)" for x
    using unat_poke_range [of "replicate (unat n) 0" n x ?a] by (simp add: mem_poke range)
  moreover have "same_but_table m1 ?m2" by (simp add: same_but_table_def poke_def)
  ultimately show ?thesis
    using assms(2,4) by (auto simp: spread_def intro: same_but_table_trans)
qed

definition seg_loaded :: "byte list \<Rightarrow> va \<Rightarrow> Phdr \<Rightarrow> 'a lower_half_scheme \<Rightarrow> 'a lower_half_scheme \<Rightarrow> bool" where
  "seg_loaded c b ph m m' \<longleftrightarrow> same_but_table m m' \<and>
     (\<forall>x. mem m' x = (if in_seg b ph x then seg_byte c ph (unat (x - b)) else mem m x)) \<and>
     (\<forall>x. prot_at m' x = (if in_seg b ph x then Some (seg_prot (p_flags ph)) else prot_at m x))"

lemma spread_cong: "spread b i j g p m m' \<Longrightarrow> (\<And>k. i \<le> k \<Longrightarrow> k < j \<Longrightarrow> g k = h k) \<Longrightarrow> spread b i j h p m m'"
  by (auto simp: spread_def)

lemma seg_loaded_spread:
  "spread b (seg_lo ph) (seg_hi ph) (seg_byte c ph) (seg_prot (p_flags ph)) m m' = seg_loaded c b ph m m'"
  by (simp add: spread_def seg_loaded_def in_seg_def)

text \<open>The file part: its bytes, at the offsets up to the end of its last page.\<close>

lemma seg_order:
  assumes "phdr_ok ph"
  shows "seg_lo ph mod 4096 = 0" "seg_lo ph \<le> unat (p_vaddr ph)"
    "seg_lo ph < page_up (unat (p_vaddr ph) + unat (p_filesz ph))"
    "page_up (unat (p_vaddr ph) + unat (p_filesz ph)) \<le> seg_hi ph" "seg_hi ph \<le> 0x40000000"
proof -
  note small = seg_small [OF assms]
  show "seg_lo ph mod 4096 = 0" "seg_lo ph \<le> unat (p_vaddr ph)" by (simp_all add: seg_lo_def)
  then show "seg_lo ph < page_up (unat (p_vaddr ph) + unat (p_filesz ph))"
    using page_up_bounds(1) [of "unat (p_vaddr ph) + unat (p_filesz ph)"] small(2) by linarith
  show "page_up (unat (p_vaddr ph) + unat (p_filesz ph)) \<le> seg_hi ph"
    unfolding seg_hi_def using small by (intro page_up_mono) simp
  show "seg_hi ph \<le> 0x40000000"
    using page_up_mono [OF small(3)] by (simp add: seg_hi_def page_up_def)
qed

lemma seg_file_part:
  assumes "grants_at K" "base_ok b" "phdr_ok ph" "quiet_fd fd m" "file_of_fd fd m = Some c"
  shows "\<exists>m'. mmapWrapper K (b + of_nat (seg_lo ph)) (ROUND_UP (p_filesz ph + PAGE_OFFSET (p_vaddr ph))) p
      (MAP_PRIVATE OR MAP_FIXED) fd (p_offset ph - PAGE_OFFSET (p_vaddr ph)) m = Inr (b + of_nat (seg_lo ph), m') \<and>
    spread b (seg_lo ph) (page_up (unat (p_vaddr ph) + unat (p_filesz ph)))
      (\<lambda>k. let i = unat (p_offset ph) + k - unat (p_vaddr ph) in if i < length c then c ! i else 0) p m m'"
proof -
  let ?off = "p_offset ph - PAGE_OFFSET (p_vaddr ph)" and ?fin = "page_up (unat (p_vaddr ph) + unat (p_filesz ph))"
  note order = seg_order [OF assms(3)]
  have cong: "unat (p_vaddr ph) mod 4096 = unat (p_offset ph) mod 4096" using assms(3) by (simp add: phdr_ok_def)
  have "unat (p_vaddr ph) mod 4096 \<le> unat (p_offset ph)" unfolding cong by (rule mod_less_eq_dividend)
  then have off: "unat ?off = unat (p_offset ph) - unat (p_vaddr ph) mod 4096"
    by (simp add: unat_sub word_le_nat_alt unat_PAGE_OFFSET)
  then have al: "page_aligned ?off" using cong by (simp add: page_aligned_iff minus_mod_eq_mult_div)
  have flags: "has_flag (MAP_PRIVATE OR MAP_FIXED) MAP_FIXED" "\<not> has_flag (MAP_PRIVATE OR MAP_FIXED) MAP_ANONYMOUS"
    by (simp_all add: flag_defs has_flag_def)
  have dist: "(?fin - seg_lo ph) mod 4096 = 0"
    using order(1) page_up_bounds(3) by (simp add: mod_eq_0_iff_dvd dvd_diff_nat)
  obtain m' where m': "mmapWrapper K (b + of_nat (seg_lo ph)) (ROUND_UP (p_filesz ph + PAGE_OFFSET (p_vaddr ph))) p
      (MAP_PRIVATE OR MAP_FIXED) fd ?off m = Inr (b + of_nat (seg_lo ph), m')"
    "spread b (seg_lo ph) ?fin
      (\<lambda>k. mapped_byte (MAP_PRIVATE OR MAP_FIXED) (file_bytes fd m) ?off (of_nat (k - seg_lo ph))) p m m'"
    using map_at [OF assms(1,2,4) al flags(1) _ order(1) seg_size(1) [OF assms(3)] dist order(3), of p] assms(5) order(4,5)
    by auto
  have "mapped_byte (MAP_PRIVATE OR MAP_FIXED) (file_bytes fd m) ?off (of_nat (k - seg_lo ph)) =
      (let i = unat (p_offset ph) + k - unat (p_vaddr ph) in if i < length c then c ! i else 0)"
    if "seg_lo ph \<le> k" "k < ?fin" for k
  proof -
    have "unat (of_nat (k - seg_lo ph) :: u64) = k - seg_lo ph"
      using that order(4,5) by (simp only: unat_of_nat) simp
    moreover have "unat ?off + (k - seg_lo ph) = unat (p_offset ph) + k - unat (p_vaddr ph)"
      using that \<open>unat (p_vaddr ph) mod 4096 \<le> unat (p_offset ph)\<close> off
        div_mult_mod_eq [of "unat (p_vaddr ph)" 4096] by (simp add: seg_lo_def)
    ultimately show ?thesis
      using assms(5) flags(2) by (simp add: mapped_byte_def file_bytes_def Let_def)
  qed
  note eq = this
  show ?thesis using m'(1) spread_cong [OF m'(2) eq] by blast
qed

text \<open>
  The whole function, on the first segment (which fixes the base and has to start at page 0 and
  fill the pages its file part has) and on the others.
\<close>

definition starts_at :: "va \<Rightarrow> va \<Rightarrow> Phdr \<Rightarrow> ld_static \<Rightarrow> 'a machine_scheme \<Rightarrow> bool" where
  "starts_at environ b ph st m \<longleftrightarrow>
     (if first_time st
      then (\<exists>rk. rank_id environ m = Inr rk \<and> rank_base rk = b) \<and> seg_lo ph = 0 \<and>
        seg_hi ph = page_up (unat (p_vaddr ph) + unat (p_filesz ph))
      else base_address st = b)"

lemma starts_at_base:
  assumes "starts_at environ b ph st m"
  shows "(if first_time st
          then andThen (rank_id environ m) (\<lambda>rank_ID. Inr (st\<lparr>base_address := rank_base rank_ID\<rparr>))
          else Inr st) = Inr \<lparr>base_address = b, first_time = first_time st\<rparr>"
  using assms by (cases st) (auto simp: starts_at_def)

lemma page_tail_size:
  assumes "base_ok b" "phdr_ok ph"
  shows "unat (b + of_nat (page_up (unat (p_vaddr ph) + unat (p_filesz ph))) - (b + p_vaddr ph + p_filesz ph)) =
    page_up (unat (p_vaddr ph) + unat (p_filesz ph)) - (unat (p_vaddr ph) + unat (p_filesz ph))"
proof -
  let ?e = "unat (p_vaddr ph) + unat (p_filesz ph)"
  have e: "?e \<le> 0x40000000" using seg_small [OF assms(2)] by linarith
  have "page_up ?e < 0x40001000" using page_up_bounds(2) [of ?e] e by linarith
  then have w: "unat (of_nat (page_up ?e) :: u64) = page_up ?e" by (simp add: unat_of_nat)
  have s: "unat (p_vaddr ph + p_filesz ph) = ?e" using e by (simp add: unat_word_ariths)
  have "b + of_nat (page_up ?e) - (b + p_vaddr ph + p_filesz ph) = of_nat (page_up ?e) - (p_vaddr ph + p_filesz ph)"
    by simp
  also have "unat \<dots> = page_up ?e - ?e"
    using page_up_bounds(1) [of ?e] s w by (simp add: unat_sub word_le_nat_alt)
  finally show ?thesis .
qed

lemma seg_zero_part:
  assumes "base_ok b" "phdr_ok ph"
    and "spread b (seg_lo ph) (page_up (unat (p_vaddr ph) + unat (p_filesz ph)))
      (\<lambda>k. let i = unat (p_offset ph) + k - unat (p_vaddr ph) in if i < length c then c ! i else 0)
      (seg_prot (p_flags ph)) m m1"
  shows "\<exists>m2. (if p_memsz ph > p_filesz ph
       then memset0 (b + p_vaddr ph + p_filesz ph)
         (ROUND_UP (b + p_vaddr ph + p_filesz ph) - (b + p_vaddr ph + p_filesz ph)) m1 else Inr m1) = Inr m2 \<and>
    spread b (seg_lo ph) (page_up (unat (p_vaddr ph) + unat (p_filesz ph))) (seg_byte c ph)
      (seg_prot (p_flags ph)) m m2"
proof (cases "p_memsz ph > p_filesz ph")
  case False
  then show ?thesis
    using assms(3) by (auto intro!: spread_cong [OF assms(3)] simp: seg_byte_def)
next
  case True
  let ?e = "unat (p_vaddr ph) + unat (p_filesz ph)"
  note order = seg_order [OF assms(2)]
  have w: "has_flag (seg_prot (p_flags ph)) PROT_WRITE" using True assms(2) by (simp add: phdr_ok_def seg_prot_write)
  have "(of_nat ?e :: u64) = p_vaddr ph + p_filesz ph" by simp
  then have a: "b + p_vaddr ph + p_filesz ph = b + of_nat ?e" by (simp add: add.assoc)
  have "\<exists>m2. memset0 (b + of_nat ?e) (ROUND_UP (b + p_vaddr ph + p_filesz ph) - (b + p_vaddr ph + p_filesz ph)) m1 = Inr m2 \<and>
      spread b (seg_lo ph) (page_up ?e) (\<lambda>l. if ?e \<le> l then 0 else
        (let i = unat (p_offset ph) + l - unat (p_vaddr ph) in if i < length c then c ! i else 0))
        (seg_prot (p_flags ph)) m m2"
  proof (rule zero_tail [OF assms(1,3) w])
    show "seg_lo ph \<le> ?e" using order(2) by linarith
    show "?e \<le> page_up ?e" by (rule page_up_bounds)
    show "page_up ?e \<le> 0x40001000" using order(4,5) by linarith
    show "unat (ROUND_UP (b + p_vaddr ph + p_filesz ph) - (b + p_vaddr ph + p_filesz ph)) = page_up ?e - ?e"
      using seg_bss(1) [OF assms(1,2) seg_small(1) [OF assms(2)]] page_tail_size [OF assms(1,2)] by simp
  qed
  then obtain m2 where m2: "memset0 (b + of_nat ?e)
      (ROUND_UP (b + p_vaddr ph + p_filesz ph) - (b + p_vaddr ph + p_filesz ph)) m1 = Inr m2"
    "spread b (seg_lo ph) (page_up ?e) (\<lambda>l. if ?e \<le> l then 0 else
        (let i = unat (p_offset ph) + l - unat (p_vaddr ph) in if i < length c then c ! i else 0))
        (seg_prot (p_flags ph)) m m2" by blast
  have "spread b (seg_lo ph) (page_up ?e) (seg_byte c ph) (seg_prot (p_flags ph)) m m2"
    by (rule spread_cong [OF m2(2)]) (use True in \<open>simp add: seg_byte_def Let_def\<close>)
  then show ?thesis using True m2(1) [folded a] by auto
qed

lemma bss_flags: "has_flag (MAP_PRIVATE OR MAP_FIXED OR MAP_ANONYMOUS) MAP_FIXED"
  "has_flag (MAP_PRIVATE OR MAP_FIXED OR MAP_ANONYMOUS) MAP_ANONYMOUS"
  by (simp_all add: flag_defs has_flag_def)

text \<open>The pages of the segment behind its file part, when there are any.\<close>

lemma seg_bss_part:
  assumes "grants_at K" "base_ok b" "phdr_ok ph"
    and "spread b (seg_lo ph) (page_up (unat (p_vaddr ph) + unat (p_filesz ph))) (seg_byte c ph) p m m2"
    and "r \<noteq> MAP_FAILED"
  shows "\<exists>r' m3.
    (if b + of_nat (seg_hi ph) > b + of_nat (page_up (unat (p_vaddr ph) + unat (p_filesz ph)))
     then mmapWrapper K (b + of_nat (page_up (unat (p_vaddr ph) + unat (p_filesz ph))))
       (b + of_nat (seg_hi ph) - (b + of_nat (page_up (unat (p_vaddr ph) + unat (p_filesz ph))))) p
       (MAP_PRIVATE OR MAP_FIXED OR MAP_ANONYMOUS) (-1) 0 m2
     else Inr (r, m2)) = Inr (r', m3) \<and> r' \<noteq> MAP_FAILED \<and>
    (seg_hi ph = page_up (unat (p_vaddr ph) + unat (p_filesz ph)) \<longrightarrow> r' = r) \<and>
    spread b (seg_lo ph) (seg_hi ph) (seg_byte c ph) p m m3"
proof -
  let ?e = "page_up (unat (p_vaddr ph) + unat (p_filesz ph))"
  note order = seg_order [OF assms(3)]
  have w: "unat (of_nat k :: u64) = k" if "k \<le> 0x40000000" for k using that by (simp add: unat_of_nat)
  have u: "unat (b + of_nat k) = unat b + k" if "k \<le> 0x40000000" for k
    using unat_base_offset [OF assms(2), of "of_nat k"] w [OF that] that by simp
  have le: "?e \<le> 0x40000000" using order(4,5) by linarith
  show ?thesis
  proof (cases "?e < seg_hi ph")
    case False
    then have eq: "seg_hi ph = ?e" using order(4) by simp
    show ?thesis using assms(4,5) unfolding eq by auto
  next
    case True
    have "b + of_nat (seg_hi ph) - (b + of_nat ?e) = of_nat (seg_hi ph - ?e)"
      using order(4) by (simp add: of_nat_diff)
    then have n: "unat (b + of_nat (seg_hi ph) - (b + of_nat ?e)) = seg_hi ph - ?e"
      using order(5) by (simp only:) (rule w, simp)
    have cond: "b + of_nat (seg_hi ph) > b + of_nat ?e"
      using u [OF le] u [OF order(5)] True by (simp only: word_less_nat_alt)
    have dist: "(seg_hi ph - ?e) mod 4096 = 0"
      using page_up_bounds(3) by (simp add: seg_hi_def mod_eq_0_iff_dvd dvd_diff_nat)
    have "quiet_fd (-1) m2" "page_aligned 0" by (simp_all add: quiet_fd_def page_aligned_iff)
    from map_at [OF assms(1,2) this bss_flags(1) disjI1 [OF bss_flags(2)] page_up_bounds(3) n dist True, of p] order(5)
    obtain m3 where m3: "mmapWrapper K (b + of_nat ?e) (b + of_nat (seg_hi ph) - (b + of_nat ?e)) p
        (MAP_PRIVATE OR MAP_FIXED OR MAP_ANONYMOUS) (-1) 0 m2 = Inr (b + of_nat ?e, m3)"
      "spread b ?e (seg_hi ph) (\<lambda>k. mapped_byte (MAP_PRIVATE OR MAP_FIXED OR MAP_ANONYMOUS)
         (file_bytes (-1) m2) 0 (of_nat (k - ?e))) p m2 m3" by auto
    have zero: "seg_byte c ph k = 0" if "?e \<le> k" "k < seg_hi ph" for k
    proof -
      have "unat (p_vaddr ph) + unat (p_filesz ph) \<le> k"
        using that(1) page_up_bounds(1) order_trans by blast
      moreover have "unat (p_filesz ph) < unat (p_memsz ph)"
      proof (rule ccontr)
        assume "\<not> unat (p_filesz ph) < unat (p_memsz ph)"
        then have "seg_hi ph \<le> ?e" unfolding seg_hi_def by (intro page_up_mono) simp
        then show False using True by simp
      qed
      ultimately show ?thesis by (simp add: seg_byte_def word_less_nat_alt)
    qed
    have "spread b ?e (seg_hi ph) (seg_byte c ph) p m2 m3"
      by (rule spread_cong [OF m3(2)]) (simp add: mapped_byte_def bss_flags zero del: has_flag_OR)
    from spread_glue [OF assms(4) this] order(3,4)
    have "spread b (seg_lo ph) (seg_hi ph) (seg_byte c ph) p m m3" by (simp cong: if_cong)
    moreover have "b + of_nat ?e \<noteq> MAP_FAILED"
    proof
      assume "b + of_nat ?e = MAP_FAILED"
      then have "unat b + ?e = unat MAP_FAILED" using u [OF le] by simp
      moreover have "unat MAP_FAILED = 2 ^ 64 - 1"
        by (simp add: MAP_FAILED_def unsigned_minus_1_eq_mask mask_eq_exp_minus_1)
      ultimately show False using base_aligned(2) [OF assms(2)] le by simp
    qed
    ultimately show ?thesis using m3(1) cond True by auto
  qed
qed

lemma map_segment:
  assumes "grants_at K" "base_ok b" "phdr_ok ph" "quiet_fd fd m" "file_of_fd fd m = Some c"
    and "starts_at environ b ph st m"
  shows "\<exists>m'. map_elf_interpreter_load_segment K environ fd ph 0 st m =
      Inr (b, \<lparr>base_address = b, first_time = False\<rparr>, m') \<and> seg_loaded c b ph m m'"
proof -
  let ?p = "seg_prot (p_flags ph)" and ?e = "page_up (unat (p_vaddr ph) + unat (p_filesz ph))"
  let ?st = "\<lparr>base_address = b, first_time = first_time st\<rparr>"
  have asserts: "\<not> \<not> p_memsz ph \<ge> p_filesz ph"
    "\<not> (p_align ph > 1 \<and> p_vaddr ph mod p_align ph \<noteq> p_offset ph mod p_align ph)"
    using assms(3) by (simp_all add: phdr_ok_def)
  obtain m1 where m1: "mmapWrapper K (b + of_nat (seg_lo ph)) (ROUND_UP (p_filesz ph + PAGE_OFFSET (p_vaddr ph))) ?p
      (MAP_PRIVATE OR MAP_FIXED) fd (p_offset ph - PAGE_OFFSET (p_vaddr ph)) m = Inr (b + of_nat (seg_lo ph), m1)"
    "spread b (seg_lo ph) ?e (\<lambda>k. let i = unat (p_offset ph) + k - unat (p_vaddr ph)
        in if i < length c then c ! i else 0) ?p m m1"
    using seg_file_part [OF assms(1-5), of ?p] by blast
  obtain m2 where m2: "(if p_memsz ph > p_filesz ph
       then memset0 (b + p_vaddr ph + p_filesz ph)
         (ROUND_UP (b + p_vaddr ph + p_filesz ph) - (b + p_vaddr ph + p_filesz ph)) m1 else Inr m1) = Inr m2"
    "spread b (seg_lo ph) ?e (seg_byte c ph) ?p m m2"
    using seg_zero_part [OF assms(2,3) m1(2)] by blast
  have r: "b + of_nat (seg_lo ph) \<noteq> MAP_FAILED"
    using seg_addr [OF assms(2,3)] MAP_FAILED_unaligned page_aligned_ROUND_DOWN by metis
  obtain r' m3 where m3: "(if b + of_nat (seg_hi ph) > b + of_nat ?e
     then mmapWrapper K (b + of_nat ?e) (b + of_nat (seg_hi ph) - (b + of_nat ?e)) ?p
       (MAP_PRIVATE OR MAP_FIXED OR MAP_ANONYMOUS) (-1) 0 m2
     else Inr (b + of_nat (seg_lo ph), m2)) = Inr (r', m3)" "r' \<noteq> MAP_FAILED"
    "seg_hi ph = ?e \<longrightarrow> r' = b + of_nat (seg_lo ph)"
    "spread b (seg_lo ph) (seg_hi ph) (seg_byte c ph) ?p m m3"
    using seg_bss_part [OF assms(1-3) m2(2) r] by blast
  have ends: "ROUND_UP (b + p_vaddr ph + p_filesz ph) = b + of_nat ?e"
    "ROUND_UP (b + p_vaddr ph + p_memsz ph) = b + of_nat (seg_hi ph)"
    using seg_bss(1) [OF assms(2,3)] seg_small(1) [OF assms(3)] by (simp_all add: seg_hi_def)
  have upd: "(if q then ph\<lparr>p_vaddr := p_vaddr ph + 0\<rparr> else ph) = ph" for q by simp
  have "map_elf_interpreter_load_segment K environ fd ph 0 st m =
      Inr (base_address (if first_time st then ?st\<lparr>first_time := False, base_address := r'\<rparr> else ?st),
        if first_time st then ?st\<lparr>first_time := False, base_address := r'\<rparr> else ?st, m3)"
    unfolding map_elf_interpreter_load_segment_def Let_def if_not_P [OF asserts(1)] if_not_P [OF asserts(2)]
      starts_at_base [OF assms(6)] andThen.simps seg_vaddr [OF assms(3)]
    by (simp only: upd ld_static.select_convs seg_addr [OF assms(2,3)] m1(1) andThen.simps prod.case r
        if_False m2(1) [unfolded ends] ends or.assoc m3(1,2))
  moreover have "(if first_time st then ?st\<lparr>first_time := False, base_address := r'\<rparr> else ?st) =
      \<lparr>base_address = b, first_time = False\<rparr>"
    using assms(6) m3(3) by (simp add: starts_at_def split: if_splits)
  ultimately have "map_elf_interpreter_load_segment K environ fd ph 0 st m =
      Inr (b, \<lparr>base_address = b, first_time = False\<rparr>, m3)" by simp
  then show ?thesis using m3(4) by (auto simp: seg_loaded_spread)
qed

section \<open>All segments\<close>

definition seg_apart :: "Phdr \<Rightarrow> Phdr \<Rightarrow> bool" where
  "seg_apart p q \<longleftrightarrow> seg_hi p \<le> seg_lo q \<or> seg_hi q \<le> seg_lo p"

lemma seg_apart_in: "seg_apart p q \<Longrightarrow> in_seg b p x \<Longrightarrow> \<not> in_seg b q x"
  by (auto simp: seg_apart_def in_seg_def)

text \<open>Every segment of the list is in memory, and nothing else has changed.\<close>

definition image_loaded :: "byte list \<Rightarrow> va \<Rightarrow> Phdr list \<Rightarrow> 'a lower_half_scheme \<Rightarrow> 'a lower_half_scheme \<Rightarrow> bool" where
  "image_loaded c b phs m m' \<longleftrightarrow> same_but_table m m' \<and>
     (\<forall>ph \<in> set phs. \<forall>x. in_seg b ph x \<longrightarrow>
        mem m' x = seg_byte c ph (unat (x - b)) \<and> prot_at m' x = Some (seg_prot (p_flags ph))) \<and>
     (\<forall>x. (\<forall>ph \<in> set phs. \<not> in_seg b ph x) \<longrightarrow> mem m' x = mem m x \<and> prot_at m' x = prot_at m x)"

lemma image_loaded_Nil [simp]: "image_loaded c b [] m m"
  by (simp add: image_loaded_def)

lemma image_loaded_Cons:
  assumes "seg_loaded c b ph m m1" "image_loaded c b phs m1 m2" "\<forall>q \<in> set phs. seg_apart ph q"
  shows "image_loaded c b (ph # phs) m m2"
  unfolding image_loaded_def
proof (intro conjI ballI allI impI)
  show "same_but_table m m2"
    using assms(1,2) by (auto simp: seg_loaded_def image_loaded_def intro: same_but_table_trans)
  fix q x assume q: "q \<in> set (ph # phs)" "in_seg b q x"
  have "mem m2 x = seg_byte c q (unat (x - b)) \<and> prot_at m2 x = Some (seg_prot (p_flags q))"
  proof (cases "q \<in> set phs")
    case False
    then have "q = ph" using q(1) by simp
    moreover from this have "\<forall>r \<in> set phs. \<not> in_seg b r x" using q(2) assms(3) seg_apart_in by blast
    ultimately have "mem m2 x = mem m1 x" "prot_at m2 x = prot_at m1 x" "in_seg b ph x" "q = ph"
      using assms(2) q(2) by (auto simp: image_loaded_def)
    then show ?thesis using assms(1) by (simp add: seg_loaded_def)
  qed (use assms(2) q(2) in \<open>auto simp: image_loaded_def\<close>)
  then show "mem m2 x = seg_byte c q (unat (x - b))" "prot_at m2 x = Some (seg_prot (p_flags q))" by simp_all
next
  fix x assume "\<forall>q \<in> set (ph # phs). \<not> in_seg b q x"
  then show "mem m2 x = mem m x" "prot_at m2 x = prot_at m x"
    using assms(1,2) by (simp_all add: seg_loaded_def image_loaded_def)
qed

lemma same_but_table_fd:
  "same_but_table m m' \<Longrightarrow> quiet_fd fd m' = quiet_fd fd m \<and> file_of_fd fd m' = file_of_fd fd m"
  by (simp add: same_but_table_def quiet_fd_def file_of_fd_def)

definition loads_of :: "byte list list \<Rightarrow> Phdr list" where
  "loads_of hs = filter (\<lambda>ph. p_type ph = PT_LOAD) (map phdr_of_bytes hs)"

lemma loads_of_simps [simp]:
  "loads_of [] = []"
  "loads_of (h # hs) = (if p_type (phdr_of_bytes h) = PT_LOAD then phdr_of_bytes h # loads_of hs else loads_of hs)"
  by (simp_all add: loads_of_def)

lemma load_segments_loads:
  assumes "grants_at K" "base_ok b" "quiet_fd fd m" "file_of_fd fd m = Some c"
    and "answers f = []" "pending f = concat hs @ r" "list_all (\<lambda>h. length h = 56) hs"
    and "list_all phdr_ok (loads_of hs)" "sorted_wrt seg_apart (loads_of hs)"
    and "first = first_time st" "\<not> first \<Longrightarrow> base_address st = b \<and> base = b"
    and "first \<Longrightarrow> loads_of hs \<noteq> [] \<Longrightarrow> starts_at environ b (hd (loads_of hs)) st m"
  shows "\<exists>st' m'. load_segments K environ fd 0 (length hs) first base f st m =
      Inr (if loads_of hs = [] then base else b, st', m') \<and> image_loaded c b (loads_of hs) m m'"
  using assms(3-12)
proof (induction hs arbitrary: first base f st m)
  case Nil
  then show ?case by auto
next
  case (Cons h hs)
  let ?ph = "phdr_of_bytes h" and ?g = "f\<lparr>pos := pos f + 56\<rparr>"
  have rd: "read_struct 56 f = Inr (h, ?g)"
    using Cons.prems(3-5) by (simp add: read_struct_undisturbed)
  have g: "answers ?g = []" "pending ?g = concat hs @ r" "list_all (\<lambda>h. length h = 56) hs"
    using Cons.prems(3-5) by (simp_all add: pending_advance)
  show ?case
  proof (cases "p_type ?ph = PT_LOAD")
    case False
    then have "\<exists>st' m'. load_segments K environ fd 0 (length hs) first base ?g st m =
        Inr (if loads_of hs = [] then base else b, st', m') \<and> image_loaded c b (loads_of hs) m m'"
      using Cons.prems g by (intro Cons.IH) simp_all
    then show ?thesis using False by (simp add: rd)
  next
    case True
    let ?st = "\<lparr>base_address = b, first_time = False\<rparr>"
    have "starts_at environ b ?ph st m"
      using Cons.prems(8-10) True by (cases first) (simp_all add: starts_at_def)
    moreover have "phdr_ok ?ph" using Cons.prems(6) True by simp
    ultimately obtain m1 where
      m1: "map_elf_interpreter_load_segment K environ fd ?ph 0 st m = Inr (b, ?st, m1)" "seg_loaded c b ?ph m m1"
      using map_segment [OF assms(1,2) _ Cons.prems(1,2)] by blast
    have fd: "quiet_fd fd m1" "file_of_fd fd m1 = Some c"
      using same_but_table_fd [of m m1 fd] m1(2) Cons.prems(1,2) by (simp_all add: seg_loaded_def)
    have "\<exists>st' m'. load_segments K environ fd 0 (length hs) False b ?g ?st m1 =
        Inr (if loads_of hs = [] then b else b, st', m') \<and> image_loaded c b (loads_of hs) m1 m'"
      using Cons.prems(6,7) True g fd by (intro Cons.IH) simp_all
    then obtain st' m' where m': "load_segments K environ fd 0 (length hs) False b ?g ?st m1 = Inr (b, st', m')"
      "image_loaded c b (loads_of hs) m1 m'" by auto
    have "image_loaded c b (loads_of (h # hs)) m m'"
      using image_loaded_Cons [OF m1(2) m'(2)] Cons.prems(7) True by simp
    moreover have "(if first then b else base) = b" using Cons.prems(9) by auto
    ultimately show ?thesis using True m'(1) by (simp add: rd m1(1))
  qed
qed

section \<open>The whole library\<close>

text \<open>
  The base computed from the rank: ranks up to 16383 give a base in the user half of the address
  space, 1 GB below the end of the 4 GB that belong to the rank.
\<close>

lemma unat_rank_base:
  assumes "unat rk < 2 ^ 14"
  shows "unat (rank_base rk) = 2 ^ 32 * (unat rk + 1) + 3 * 2 ^ 30"
proof -
  have "sint rk = int (unat rk)" using assms by (intro sint_small) simp
  moreover have "(scast rk :: u64) = word_of_int (sint rk)" by (rule scast_eq)
  ultimately have sc: "(scast rk :: u64) = of_nat (unat rk)" by simp
  have third: "(3 * push_bit 32 (1 :: u64)) div 4 = 0xC0000000"
    by (simp add: word_unat_eq_iff unat_div)
  have "rank_base rk = of_nat (2 ^ 32 * (unat rk + 1) + 3 * 2 ^ 30)"
    unfolding rank_base_def Let_def third sc by (simp add: algebra_simps)
  moreover have "2 ^ 32 * (unat rk + 1) + 3 * 2 ^ 30 < (2 ^ LENGTH(64) :: nat)" using assms by simp
  ultimately show ?thesis by (simp only: unat_of_nat mod_less)
qed

lemma rank_base_ok:
  assumes "unat rk < 2 ^ 14" shows "base_ok (rank_base rk)"
proof -
  have u: "unat (rank_base rk) = 4096 * (2 ^ 20 * (unat rk + 1) + 3 * 2 ^ 18)"
    using unat_rank_base [OF assms] by simp
  then have "unat (rank_base rk) \<noteq> 0" "unat (rank_base rk) mod 4096 = 0" by (simp_all only: mod_mult_self1_is_0) simp
  moreover have "unat (rank_base rk) + 2 ^ 30 \<le> 2 ^ 47" using unat_rank_base [OF assms] assms by simp
  ultimately show ?thesis by (auto simp: base_ok_def page_aligned_iff)
qed

text \<open>A file that starts with a 64-bit ELF header and has the program headers \<open>hs\<close>.\<close>

definition elf_program :: "byte list \<Rightarrow> byte list list \<Rightarrow> bool" where
  "elf_program c hs \<longleftrightarrow> 64 \<le> length c \<and> take 4 c = ELFMAG \<and> c ! 4 = ELFCLASS64 \<and>
     unat (e_phoff (ehdr_of_bytes (take 64 c))) < 2 ^ 31 \<and>
     length hs = unat (e_phnum (ehdr_of_bytes (take 64 c))) \<and> list_all (\<lambda>h. length h = 56) hs \<and>
     prefix (concat hs) (drop (unat (e_phoff (ehdr_of_bytes (take 64 c)))) c)"

text \<open>What the first segment has to look like, because the base is taken from its mapping.\<close>

definition first_ok :: "Phdr list \<Rightarrow> bool" where
  "first_ok phs \<longleftrightarrow> phs \<noteq> [] \<and> seg_lo (hd phs) = 0 \<and>
     seg_hi (hd phs) = page_up (unat (p_vaddr (hd phs)) + unat (p_filesz (hd phs)))"

definition loadable :: "byte list \<Rightarrow> byte list list \<Rightarrow> bool" where
  "loadable c hs \<longleftrightarrow> elf_program c hs \<and> list_all phdr_ok (loads_of hs) \<and>
     sorted_wrt seg_apart (loads_of hs) \<and> first_ok (loads_of hs)"

lemma phoff_word:
  assumes "unat (w :: u64) < 2 ^ 31"
  shows "scast (ucast w :: i32) = w" "\<not> w <s 0"
proof -
  have u: "unat (ucast w :: i32) = unat w"
    using assms by (simp add: unsigned_ucast_eq take_bit_nat_eq_self_iff)
  then have "sint (ucast w :: i32) = int (unat w)"
    using assms sint_small [of "ucast w :: i32"] by simp
  moreover have "(scast (ucast w :: i32) :: u64) = word_of_int (sint (ucast w :: i32))" by (rule scast_eq)
  ultimately show "scast (ucast w :: i32) = w" by simp
  show "\<not> w <s 0" using assms by (intro not_negative_u64) simp
qed

lemma load_interpreter:
  assumes "grants_at K" "loadable c hs" "quiet_fd fd m" "file_of_fd fd m = Some c"
    and "rank_id environ m = Inr rk" "unat rk < 2 ^ 14"
  defines "b \<equiv> rank_base rk" and "eh \<equiv> ehdr_of_bytes (take 64 c)"
  shows "\<exists>st' m'. load_elf_interpreter K environ fd (Some \<lparr>content = c, pos = 0, answers = []\<rparr>) 0 ld_init m =
      Inr (b, e_entry eh, \<lparr>baseAddr = 0, entryPoint = 0, phnum = ucast (e_phnum eh), phdr = b + e_phoff eh,
        mmapAddr = 0, sbrkAddr = 0\<rparr>, st', m') \<and> image_loaded c b (loads_of hs) m m'"
proof -
  let ?f = "\<lambda>n. \<lparr>content = c, pos = n, answers = []\<rparr>"
  have prog: "elf_program c hs" and segs: "list_all phdr_ok (loads_of hs)" "sorted_wrt seg_apart (loads_of hs)"
    and first: "first_ok (loads_of hs)"
    using assms(2) by (simp_all add: loadable_def)
  have len: "64 \<le> length c" using prog by (simp add: elf_program_def)
  have ident: "read_struct 16 (?f 0) = Inr (take 16 c, ?f 16)"
    using len by (simp add: read_struct_undisturbed pending_def)
  have magic: "take 4 (take 16 c) = ELFMAG" "take 16 c ! 4 = ELFCLASS64"
    using prog len by (simp_all add: elf_program_def min_def)
  have hdr: "read_struct 64 (snd (lseek_set 0 (?f 16))) = Inr (take 64 c, ?f 64)"
    using len by (simp add: read_struct_undisturbed pending_def lseek_set_def not_negative_numeral)
  have phoff: "unat (e_phoff eh) < 2 ^ 31" using prog by (simp add: elf_program_def eh_def)
  have seek: "snd (lseek_set (scast (ucast (e_phoff eh) :: i32)) (?f 64)) = ?f (unat (e_phoff eh))"
    using phoff_word [OF phoff] by (simp add: lseek_set_def)
  obtain r where r: "pending (?f (unat (e_phoff eh))) = concat hs @ r"
    using prog by (auto simp: elf_program_def eh_def pending_def prefix_def)
  have n: "unat (e_phnum eh) = length hs" "list_all (\<lambda>h. length h = 56) hs"
    using prog by (simp_all add: elf_program_def eh_def)
  have start: "starts_at environ b (hd (loads_of hs)) ld_init m"
    using first assms(5) by (simp add: starts_at_def first_ok_def b_def ld_init_def)
  obtain st' m' where m': "load_segments K environ fd 0 (length hs) True 0 (?f (unat (e_phoff eh))) ld_init m =
      Inr (b, st', m')" "image_loaded c b (loads_of hs) m m'"
    using load_segments_loads [OF assms(1) rank_base_ok [OF assms(6), folded b_def] assms(3,4) _ r n(2) segs,
        of True ld_init 0 environ] start first by (auto simp: ld_init_def first_ok_def)
  show ?thesis
    using m' by (auto simp: load_elf_interpreter_def ident magic [simplified] hdr Let_def seek n(1) eh_def [symmetric])
qed

lemma free_fd_None: "free_fd m = Some fd \<Longrightarrow> fds m fd = None \<and> 0 \<le> fd"
  by (auto simp: free_fd_def find_Some_iff)

lemma open_then_close:
  assumes "files m path = Some c" "free_fd m = Some fd"
  shows "sys_open path m = (fd, m\<lparr>fds := (fds m)(fd := Some path)\<rparr>)"
    and "sys_close fd (m\<lparr>fds := (fds m)(fd := Some path)\<rparr>) = m"
proof -
  note fd = free_fd_None [OF assms(2)]
  show "sys_open path m = (fd, m\<lparr>fds := (fds m)(fd := Some path)\<rparr>)"
    using assms by (simp add: sys_open_def)
  have "(fds m)(fd := None) = fds m" using fd by (simp add: fun_upd_idem)
  then show "sys_close fd (m\<lparr>fds := (fds m)(fd := Some path)\<rparr>) = m"
    using fd by (simp add: sys_close_def)
qed

text \<open>The members \<open>safeLoadLib\<close> reports of a library at \<open>b\<close>.\<close>

definition lib_info :: "byte list \<Rightarrow> va \<Rightarrow> u64 \<Rightarrow> u64 \<Rightarrow> DynObjInfo" where
  "lib_info c b mo so =
     (let eh = ehdr_of_bytes (take 64 c); found = mo \<noteq> -1 \<and> so \<noteq> -1
      in \<lparr>baseAddr = b, entryPoint = b + e_entry eh, phnum = ucast (e_phnum eh), phdr = b + e_phoff eh,
          mmapAddr = (if found then b + mo else 0), sbrkAddr = (if found then b + so else 0)\<rparr>)"

text \<open>A library that can be opened under its name, which is not that of the C library.\<close>

definition lib_on_disk :: "kernel \<Rightarrow> byte list \<Rightarrow> byte list \<Rightarrow> 'a machine_scheme \<Rightarrow> bool" where
  "lib_on_disk K name c m \<longleftrightarrow> files m name = Some c \<and> k_answers K name = [] \<and>
     length name < MAX_ELF_INTERP_SZ \<and> 0 \<notin> set name \<and> \<not> strstr name (bytes_of ''libc-'') \<and>
     (\<exists>fd > 0. free_fd m = Some fd)"

lemma safeLoadLib_image:
  assumes "grants_at K" "loadable c hs" "lib_on_disk K name c m"
    and "rank_id environ m = Inr rk" "unat rk < 2 ^ 14"
    and "get_symbol_offset K m name (bytes_of ''mmap'') = Inr mo"
    and "get_symbol_offset K m name (bytes_of ''sbrk'') = Inr so"
  shows "\<exists>st' m'. safeLoadLib K environ name ld_init m = Inr (lib_info c (rank_base rk) mo so, st', m') \<and>
    image_loaded c (rank_base rk) (loads_of hs) m m'"
proof -
  note disk = assms(3) [unfolded lib_on_disk_def]
  obtain fd where fd: "0 < fd" "free_fd m = Some fd" using disk by blast
  let ?m1 = "m\<lparr>fds := (fds m)(fd := Some name)\<rparr>"
  have opened: "sys_open name m = (fd, ?m1)" "sys_close fd ?m1 = m"
    using open_then_close disk fd(2) by blast+
  have n: "length name < 256" using disk by (simp add: MAX_ELF_INTERP_SZ_def)
  have "cstr (name @ 0 # replicate (255 - length name) 0 @ k_stale K 256) = name"
    using disk by (intro cstr_append_nul) simp
  moreover have "strncpy name MAX_ELF_INTERP_SZ = name @ 0 # replicate (255 - length name) 0"
    using n by (simp add: strncpy_def MAX_ELF_INTERP_SZ_def min_def flip: replicate_Suc)
  ultimately have path: "interp_path K name = name"
    by (simp add: interp_path_def MAX_ELF_INTERP_SZ_def)
  have "cstr (take PATH_MAX name) = name"
    using disk by (simp add: PATH_MAX_def MAX_ELF_INTERP_SZ_def cstr_ident)
  then have quiet: "quiet_fd fd ?m1" using disk by (simp add: quiet_fd_def checkLibrary_def)
  have cont: "file_of_fd fd ?m1 = Some c" "open_ro K name ?m1 = Some \<lparr>content = c, pos = 0, answers = []\<rparr>"
    using disk by (simp_all add: file_of_fd_def open_ro_def)
  have rank: "rank_id environ ?m1 = Inr rk"
    using assms(4) getenv_cong [of ?m1 m] load_cong(2) [of ?m1 m] by (simp add: rank_id_def cong: if_cong)
  obtain st' m' where m': "load_elf_interpreter K environ fd (Some \<lparr>content = c, pos = 0, answers = []\<rparr>) 0 ld_init ?m1 =
      Inr (rank_base rk, e_entry (ehdr_of_bytes (take 64 c)), \<lparr>baseAddr = 0, entryPoint = 0,
        phnum = ucast (e_phnum (ehdr_of_bytes (take 64 c))), phdr = rank_base rk + e_phoff (ehdr_of_bytes (take 64 c)),
        mmapAddr = 0, sbrkAddr = 0\<rparr>, st', m')" "image_loaded c (rank_base rk) (loads_of hs) ?m1 m'"
    using load_interpreter [OF assms(1,2) quiet cont(1) rank assms(5)] by blast
  let ?m2 = "sys_close fd m'"
  have same: "same_but_table ?m1 m'" using m'(2) by (simp add: image_loaded_def)
  have m2: "image_loaded c (rank_base rk) (loads_of hs) m ?m2"
  proof -
    have "(fds m)(fd := None) = fds m" using free_fd_None [OF fd(2)] by (simp add: fun_upd_idem)
    then have "same_but_table m ?m2" using same fd(1) by (simp add: same_but_table_def sys_close_def)
    then show ?thesis using m'(2) fd(1) by (simp add: image_loaded_def sys_close_def)
  qed
  have "files ?m2 = files m" using m2 by (simp add: image_loaded_def same_but_table_def)
  note sym = get_symbol_offset_files [OF this, of K name]
  have "safeLoadLib K environ name ld_init m = Inr (lib_info c (rank_base rk) mo so, st', ?m2)"
    using fd(1) by (simp add: safeLoadLib_def opened path cont(2) m'(1) sym assms(6,7) lib_info_def Let_def)
  then show ?thesis using m2 by blast
qed

text \<open>
  C9. Loading the runtime loader: when the kernel refuses no mapping, \<open>safeLoadLib\<close> puts every
  loadable segment of the file at its offset from the base of the rank, file bytes and zeros with the
  protection of the segment, changes nothing outside those pages, and reports the
  base, the entry, the program headers and the two functions to patch at their addresses there.
\<close>

theorem safeLoadLib_loads:
  assumes "grants_at K" "loadable c hs" "lib_on_disk K name c m"
    and "rank_id environ m = Inr rk" "unat rk < 2 ^ 14"
    and "get_symbol_offset K m name (bytes_of ''mmap'') = Inr mo"
    and "get_symbol_offset K m name (bytes_of ''sbrk'') = Inr so"
  shows "\<exists>st' m'. safeLoadLib K environ name ld_init m = Inr (lib_info c (rank_base rk) mo so, st', m') \<and>
    image_loaded c (rank_base rk) (loads_of hs) m m'"
  by (rule safeLoadLib_image [OF assms])

text \<open>The pages of a loaded image lie in the last gigabyte of the 4 GB that belong to the rank.\<close>

definition rank_range :: "u32 \<Rightarrow> va \<Rightarrow> bool" where
  "rank_range rk x \<longleftrightarrow> 2 ^ 32 * (unat rk + 1) \<le> unat x \<and> unat x < 2 ^ 32 * (unat rk + 2)"

lemma rank_ranges_disjoint: "rank_range r x \<Longrightarrow> rank_range s x \<Longrightarrow> r = s"
proof -
  assume "rank_range r x" "rank_range s x"
  then have "2 ^ 32 * (unat r + 1) < 2 ^ 32 * (unat s + 2)" "2 ^ 32 * (unat s + 1) < 2 ^ 32 * (unat r + 2)"
    by (auto simp: rank_range_def intro: le_less_trans)
  then have "unat r = unat s" by simp
  then show "r = s" by (simp add: word_unat_eq_iff)
qed

lemma in_seg_rank_range:
  assumes "phdr_ok ph" "unat rk < 2 ^ 14" "in_seg (rank_base rk) ph x"
  shows "rank_range rk x"
proof -
  let ?b = "rank_base rk"
  have d: "unat (x - ?b) < 0x40000000" using assms(3) seg_order(5) [OF assms(1)] by (simp add: in_seg_def)
  have "x = ?b + (x - ?b)" by simp
  then have "unat x = unat ?b + unat (x - ?b)"
    using unat_base_offset [OF rank_base_ok [OF assms(2)], of "x - ?b"] d by simp
  then show ?thesis using d by (simp add: rank_range_def unat_rank_base [OF assms(2)])
qed

text \<open>
  C34. Ranks are loaded apart: \<open>safeLoadLib\<close> changes memory and protections only inside the 4 GB
  of its rank, and these ranges of two ranks have no address in common.
\<close>

theorem safeLoadLib_rank_range:
  assumes "grants_at K" "loadable c hs" "lib_on_disk K name c m"
    and "rank_id environ m = Inr rk" "unat rk < 2 ^ 14"
    and "get_symbol_offset K m name (bytes_of ''mmap'') = Inr mo"
    and "get_symbol_offset K m name (bytes_of ''sbrk'') = Inr so"
    and "safeLoadLib K environ name ld_init m = Inr (info, st', m')"
    and "mem m' x \<noteq> mem m x \<or> prot_at m' x \<noteq> prot_at m x"
  shows "rank_range rk x \<and> (rank_range other x \<longrightarrow> other = rk)"
proof -
  have img: "image_loaded c (rank_base rk) (loads_of hs) m m'"
    using safeLoadLib_image [OF assms(1-7)] assms(8) by auto
  then have "\<not> (\<forall>ph \<in> set (loads_of hs). \<not> in_seg (rank_base rk) ph x)"
    using assms(9) unfolding image_loaded_def by blast
  then obtain ph where ph: "ph \<in> set (loads_of hs)" "in_seg (rank_base rk) ph x" by blast
  then have "phdr_ok ph" using assms(2) by (auto simp: loadable_def list_all_iff)
  then have "rank_range rk x" using in_seg_rank_range assms(5) ph(2) by blast
  then show ?thesis using rank_ranges_disjoint by blast
qed

subsection \<open>A loader on disk\<close>

definition raw_phdr :: "u32 \<Rightarrow> u32 \<Rightarrow> u64 \<Rightarrow> u64 \<Rightarrow> u64 \<Rightarrow> u64 \<Rightarrow> byte list" where
  "raw_phdr ty fl off va fsz msz = le_bytes 4 ty @ le_bytes 4 fl @ le_bytes 8 off @ le_bytes 8 va @
     le_bytes 8 va @ le_bytes 8 fsz @ le_bytes 8 msz @ le_bytes 8 (0x1000 :: u64)"

lemma raw_phdr_facts [simp]:
  "length (raw_phdr ty fl off va fsz msz) = 56"
  "phdr_of_bytes (raw_phdr ty fl off va fsz msz) = \<lparr>p_type = ty, p_flags = fl, p_offset = off, p_vaddr = va,
     p_filesz = fsz, p_memsz = msz, p_align = 0x1000\<rparr>"
  by (simp_all add: raw_phdr_def phdr_of_bytes_def field_def codec_simps)

definition ld_headers :: "byte list list" where
  "ld_headers = [raw_phdr 1 5 0 0 0x23d 0x23d, raw_phdr 2 4 0x40 0x40 0x10 0x10, raw_phdr 1 6 1 0x1001 0x20 0x2000]"

definition ld_pre :: "byte list" where
  "ld_pre = ELFMAG @ [2] @ replicate 19 0 @ le_bytes 8 (0x100 :: u64) @ le_bytes 8 (0x195 :: u64)"

definition ld_mid :: "byte list" where "ld_mid = replicate 8 0 @ le_bytes 2 (3 :: u16)"

definition ld_file :: "byte list" where
  "ld_file = elf_file ld_pre ld_mid libc_syms libc_strtab (concat ld_headers)"

definition ld_name :: "byte list" where "ld_name = bytes_of ''/lib64/ld-2.31.so''"

definition rank_env :: "byte list" where
  "rank_env = le_bytes 8 (0x7010 :: u64) @ le_bytes 8 (0 :: u64) @ bytes_of ''RANK_ID=1'' @ [0]"

definition ld_process :: lower_half where
  "ld_process = poke 0x7000 rank_env (fresh_lower_half\<lparr>
     prot_at := (\<lambda>x. if in_range 0x7000 0x1000 x then Some (PROT_READ OR PROT_WRITE) else None),
     files := [ld_name \<mapsto> ld_file], fds := (\<lambda>fd. if 0 \<le> fd \<and> fd < 3 then Some [] else None)\<rparr>)"

lemma ld_lengths: "length ld_pre = 40" "length ld_mid = 10" "length (concat libc_syms) = 48" "length libc_strtab = 10"
  by (simp_all add: ld_pre_def ld_mid_def ELFMAG_def libc_syms_def libc_strtab_def)

lemma ld_file_symbols:
  assumes "open_ro K ld_name m = Some \<lparr>content = ld_file, pos = 0, answers = []\<rparr>" "\<forall>k. k_malloc K k"
  shows "get_symbol_offset K m ld_name (bytes_of ''mmap'') = Inr 0x100"
    and "get_symbol_offset K m ld_name (bytes_of ''sbrk'') = Inr 0xffa"
proof -
  have lib: "347 + 24 * length libc_syms + length libc_strtab + length (concat ld_headers) < 2 ^ 31"
    "list_all (\<lambda>e. length e = 24) libc_syms"
    by (simp_all add: libc_syms_def libc_strtab_def ld_headers_def)
  have "get_symbol_offset K m ld_name sy = Inr (symbol_in libc_strtab sy libc_syms)" for sy
    by (rule elf_file_lookup [OF lib assms(2) ld_lengths(1,2) assms(1) [unfolded ld_file_def]])
  then show "get_symbol_offset K m ld_name (bytes_of ''mmap'') = Inr 0x100"
    "get_symbol_offset K m ld_name (bytes_of ''sbrk'') = Inr 0xffa"
    by (simp_all add: symbol_in_def libc_syms_def libc_strtab_def codec_simps bytes_of_def cstr_def)
qed

lemma ld_symbols:
  "get_symbol_offset plain_kernel ld_process ld_name (bytes_of ''mmap'') = Inr 0x100"
  "get_symbol_offset plain_kernel ld_process ld_name (bytes_of ''sbrk'') = Inr 0xffa"
  by (rule ld_file_symbols; simp add: plain_kernel_def open_ro_def ld_process_def poke_def)+

lemma ld_take: "take 64 ld_file = raw_ehdr ld_pre ld_mid 64 4 3"
  using ld_lengths by (simp add: ld_file_def elf_file_def)

lemma ld_header:
  "e_phoff (ehdr_of_bytes (take 64 ld_file)) = 0x195" "e_phnum (ehdr_of_bytes (take 64 ld_file)) = 3"
  "e_entry (ehdr_of_bytes (take 64 ld_file)) = 0x100"
  unfolding ld_take using ld_lengths
  by (simp_all add: ehdr_of_bytes_def field_def raw_ehdr_def) (simp_all add: ld_pre_def ld_mid_def ELFMAG_def codec_simps)

definition ld_loads :: "Phdr list" where
  "ld_loads = [\<lparr>p_type = 1, p_flags = 5, p_offset = 0, p_vaddr = 0, p_filesz = 0x23d, p_memsz = 0x23d, p_align = 0x1000\<rparr>,
     \<lparr>p_type = 1, p_flags = 6, p_offset = 1, p_vaddr = 0x1001, p_filesz = 0x20, p_memsz = 0x2000, p_align = 0x1000\<rparr>]"

lemma ld_loads: "loads_of ld_headers = ld_loads"
  by (simp add: ld_headers_def ld_loads_def PT_LOAD_def)

lemma ld_loadable: "loadable ld_file ld_headers"
proof -
  have "length ld_file = 573" using ld_lengths section_names_facts(1)
    by (simp add: ld_file_def elf_file_def ld_headers_def)
  moreover have "ld_file ! i = ld_pre ! i" if "i < 40" for i
    using that ld_lengths by (simp add: ld_file_def elf_file_def raw_ehdr_def nth_append)
  moreover have "take 4 ld_file = take 4 ld_pre"
    using ld_lengths by (simp add: ld_file_def elf_file_def raw_ehdr_def)
  moreover have "drop 0x195 ld_file = concat ld_headers"
    using ld_lengths section_names_facts(1) by (simp add: ld_file_def elf_file_def)
  moreover have "length ld_headers = 3" "list_all (\<lambda>h. length h = 56) ld_headers" by (simp_all add: ld_headers_def)
  ultimately have "elf_program ld_file ld_headers"
    by (simp add: elf_program_def ld_header) (simp add: ld_pre_def ELFMAG_def ELFCLASS64_def)
  moreover have "list_all phdr_ok ld_loads"
    by (simp add: ld_loads_def phdr_ok_def has_flag_def PF_W_def word_le_nat_alt word_less_nat_alt word_unat_eq_iff unat_mod)
  moreover have "sorted_wrt seg_apart ld_loads" "first_ok ld_loads"
    by (simp_all add: ld_loads_def seg_apart_def seg_lo_def seg_hi_def page_up_def first_ok_def)
  ultimately show ?thesis by (simp add: loadable_def ld_loads)
qed

lemma ld_process_env: "rank_id 0x7000 ld_process = Inr 1"
proof -
  have len: "length rank_env = 26" by (simp add: rank_env_def)
  have pk: "peek ld_process 0x7000 26 = rank_env"
    by (simp add: ld_process_def peek_poke [of rank_env, unfolded len])
  have byte: "mem ld_process (0x7000 + of_nat i) = rank_env ! i" if "i < 26" for i
    using nth_peek [OF that, of ld_process "0x7000"] by (simp add: pk)
  have rd: "all_prot PROT_READ ld_process (0x7000 + of_nat i) n" if "i + n \<le> 26" for i n
  proof -
    have "in_range 0x7000 0x1000 (0x7000 + of_nat (i + k))" if "k < n" for k
      using that \<open>i + n \<le> 26\<close> by (intro in_range_of_nat) simp
    then show ?thesis
      by (simp add: all_prot_iff ld_process_def add.assoc) (simp add: has_flag_def flag_defs)
  qed
  have at: "peek ld_process (0x7000 + of_nat i) n = take n (drop i rank_env)" if "i + n \<le> 26" for i n
    using that byte by (intro nth_equalityI) (simp_all add: nth_peek len add.assoc flip: of_nat_add)
  have "vec ld_process 0x7000 [0x7010]"
    using at [of 0 8] at [of 8 8] rd [of 0 8] rd [of 8 8]
    by (simp add: load64_def rank_env_def codec_simps slot_ok_def)
  moreover have "holds_str ld_process 0x7010 (bytes_of ''RANK_ID=1'')"
  proof -
    define s where "s = bytes_of ''RANK_ID=1''"
    have "length s = 9" "0 \<notin> set s" by (simp_all add: s_def) (simp add: bytes_of_def)
    moreover have "drop 16 rank_env = s @ [0]" by (simp add: rank_env_def s_def)
    ultimately have "holds_str ld_process 0x7010 s"
      using at [of 16 10] rd [of 16 10] by (simp add: holds_str_def)
    then show ?thesis by (simp add: s_def)
  qed
  moreover have "value_of (bytes_of ''RANK_ID'') [bytes_of ''RANK_ID=1''] = Some (bytes_of ''1'')"
    by (simp add: value_of_def bytes_of_def)
  ultimately obtain q where q: "getenv ld_process 0x7000 (bytes_of ''RANK_ID'') = Inr q" "q \<noteq> 0"
      "holds_str ld_process q (bytes_of ''1'')"
    using getenv_value [of ld_process "0x7000" "[0x7010]" "[bytes_of ''RANK_ID=1'']" "bytes_of ''RANK_ID''" "bytes_of ''1''"]
    by auto
  moreover have "atoi (bytes_of ''1'') = 1"
    by (simp add: atoi_def strtol_def bytes_of_def is_space_def digits_val_def is_digit_def word_le_nat_alt)
  ultimately show ?thesis using cstr_at_holds [OF q(3)] by (simp add: rank_id_def)
qed

lemma ld_on_disk: "lib_on_disk plain_kernel ld_name ld_file ld_process"
proof -
  have "find (\<lambda>i. fds ld_process (int i) = None) [0..<1024] = Some 3"
    unfolding find_Some_iff by (rule exI [of _ 3]) (simp add: ld_process_def poke_def)
  then have "free_fd ld_process = Some 3" by (simp add: free_fd_def)
  then show ?thesis
    by (simp add: lib_on_disk_def plain_kernel_def ld_process_def MAX_ELF_INTERP_SZ_def)
      (simp add: ld_name_def bytes_of_def)
qed

lemma plain_grants_at: "grants_at plain_kernel"
  by (simp add: grants_at_def plain_kernel_def)

theorem safeLoadLib_loads_witness:
  "\<exists>st' m'. safeLoadLib plain_kernel 0x7000 ld_name ld_init ld_process =
      Inr (\<lparr>baseAddr = 0x2c0000000, entryPoint = 0x2c0000100, phnum = 3, phdr = 0x2c0000195,
        mmapAddr = 0x2c0000100, sbrkAddr = 0x2c0000ffa\<rparr>, st', m') \<and>
    mem m' 0x2c0001001 = 0x45 \<and> prot_at m' 0x2c0003000 = Some (PROT_READ OR PROT_WRITE)"
proof -
  have base: "rank_base 1 = 0x2c0000000" using unat_rank_base [of 1] by (simp add: word_unat_eq_iff)
  obtain st' m' where m': "safeLoadLib plain_kernel 0x7000 ld_name ld_init ld_process =
      Inr (lib_info ld_file 0x2c0000000 0x100 0xffa, st', m')"
    "image_loaded ld_file 0x2c0000000 ld_loads ld_process m'"
    using safeLoadLib_loads [OF plain_grants_at ld_loadable ld_on_disk ld_process_env _ ld_symbols]
    by (auto simp: base ld_loads)
  have "lib_info ld_file 0x2c0000000 0x100 0xffa = \<lparr>baseAddr = 0x2c0000000, entryPoint = 0x2c0000100,
      phnum = 3, phdr = 0x2c0000195, mmapAddr = 0x2c0000100, sbrkAddr = 0x2c0000ffa\<rparr>"
    by (simp add: lib_info_def Let_def ld_header)
  moreover have "mem m' 0x2c0001001 = 0x45" "prot_at m' 0x2c0003000 = Some (PROT_READ OR PROT_WRITE)"
  proof -
    let ?ph = "\<lparr>p_type = 1, p_flags = 6, p_offset = 1, p_vaddr = 0x1001, p_filesz = 0x20, p_memsz = 0x2000, p_align = 0x1000\<rparr>"
    have "length ld_file = 573" using ld_lengths section_names_facts(1)
      by (simp add: ld_file_def elf_file_def ld_headers_def)
    moreover have "ld_file ! 1 = 0x45"
      by (simp add: ld_file_def elf_file_def raw_ehdr_def nth_append ld_lengths) (simp add: ld_pre_def ELFMAG_def)
    ultimately have "seg_byte ld_file ?ph 0x1001 = 0x45" by (simp add: seg_byte_def)
    moreover have "seg_prot 6 = PROT_READ OR PROT_WRITE"
      by (simp add: seg_prot_def has_flag_def PF_R_def PF_W_def PF_X_def flag_defs)
    moreover have "in_seg 0x2c0000000 ?ph 0x2c0001001" "in_seg 0x2c0000000 ?ph 0x2c0003000"
      by (simp_all add: in_seg_def seg_lo_def seg_hi_def page_up_def)
    ultimately show "mem m' 0x2c0001001 = 0x45" "prot_at m' 0x2c0003000 = Some (PROT_READ OR PROT_WRITE)"
      using m'(2) by (simp_all add: image_loaded_def ld_loads_def)
  qed
  ultimately show ?thesis using m'(1) by auto
qed

theorem safeLoadLib_rank_range_witness:
  "\<exists>info st' m'. safeLoadLib plain_kernel 0x7000 ld_name ld_init ld_process = Inr (info, st', m') \<and>
    rank_range 1 0x2c0003000 \<and> (rank_range 2 0x2c0003000 \<longrightarrow> 2 = (1 :: u32))"
proof -
  obtain st' m' where m': "safeLoadLib plain_kernel 0x7000 ld_name ld_init ld_process =
      Inr (lib_info ld_file (rank_base 1) 0x100 0xffa, st', m')"
    "image_loaded ld_file (rank_base 1) ld_loads ld_process m'"
    using safeLoadLib_image [OF plain_grants_at ld_loadable ld_on_disk ld_process_env _ ld_symbols]
    by (auto simp: ld_loads)
  have base: "rank_base 1 = 0x2c0000000" using unat_rank_base [of 1] by (simp add: word_unat_eq_iff)
  have "in_seg 0x2c0000000 (ld_loads ! 1) 0x2c0003000"
    by (simp add: ld_loads_def in_seg_def seg_lo_def seg_hi_def page_up_def)
  then have "prot_at m' 0x2c0003000 \<noteq> None"
    using m'(2) by (auto simp: image_loaded_def ld_loads_def base)
  moreover have "prot_at ld_process 0x2c0003000 = None"
    by (simp add: ld_process_def in_range_def)
  ultimately have "rank_range 1 0x2c0003000 \<and> (rank_range 2 0x2c0003000 \<longrightarrow> 2 = (1 :: u32))"
    by (intro safeLoadLib_rank_range [OF plain_grants_at ld_loadable ld_on_disk ld_process_env _ ld_symbols m'(1)]) auto
  then show ?thesis using m'(1) by blast
qed

end
