(* ===== verification/StackCopy.thy ===== *)
theory StackCopy
  imports CustomLoader
begin

text \<open>
  The stack of the runtime loader (\<open>deepCopyStack\<close> and \<open>patchAuxv\<close> of \<open>kernel-loader.c\<close>, the address
  helpers of \<open>kernel-loader.h\<close>): the initial stack of the process is copied, the pointers of its
  \<open>argv\<close> and \<open>environ\<close> vectors are moved along, and the entries \<open>ld.so\<close> looks at are replaced. All of it
  works on the bytes of memory, so that what a wrong order or an overlap would do is visible.
\<close>

section \<open>Addresses on the initial stack\<close>

definition GET_ARGC_ADDR :: "va \<Rightarrow> va" where "GET_ARGC_ADDR stackEnd = stackEnd + 8"

definition GET_ARGV_ADDR :: "va \<Rightarrow> va" where "GET_ARGV_ADDR stackEnd = stackEnd + 2 * 8"

definition GET_ENV_ADDR :: "va \<Rightarrow> u32 \<Rightarrow> va" where
  "GET_ENV_ADDR argv argc = argv + 8 * scast (argc + 1)"

function GET_AUXV_ADDR :: "'a machine_scheme \<Rightarrow> va \<Rightarrow> va run" where
  "GET_AUXV_ADDR m evp =
     (case load64 m evp of
        Inl h \<Rightarrow> Inl h
      | Inr p \<Rightarrow> if p = 0 then Inr (evp + of_nat 8)
                 else if slot_ok evp 8 then GET_AUXV_ADDR m (evp + of_nat 8) else Inl Segv)"
  by pat_completeness auto
termination
  by (relation "measure (\<lambda>(m, evp). 2 ^ 64 - unat evp)")
     (auto simp only: in_measure split_conv wf_measure intro: slot_measure)

declare GET_AUXV_ADDR.simps [simp del]

section \<open>patchAuxv\<close>

definition AT_NULL :: u64 where "AT_NULL = 0"
definition AT_PHDR :: u64 where "AT_PHDR = 3"
definition AT_PHNUM :: u64 where "AT_PHNUM = 5"
definition AT_ENTRY :: u64 where "AT_ENTRY = 9"
definition AT_RANDOM :: u64 where "AT_RANDOM = 25"

function patchAuxv :: "va \<Rightarrow> u64 \<Rightarrow> u64 \<Rightarrow> u64 \<Rightarrow> 'a machine_scheme \<Rightarrow> 'a machine_scheme run" where
  "patchAuxv av pnum pdr ent m =
     (case load64 m av of
        Inl h \<Rightarrow> Inl h
      | Inr a_type \<Rightarrow>
          if a_type = AT_NULL then Inr m
          else
            (case (if a_type = AT_PHNUM then store64 (av + 8) pnum m
                   else if a_type = AT_PHDR then store64 (av + 8) pdr m
                   else if a_type = AT_ENTRY then store64 (av + 8) ent m
                   else if a_type = AT_RANDOM then andThen (load64 m (av + 8)) (\<lambda>_. Inr m)
                   else Inr m) of
               Inl h \<Rightarrow> Inl h
             | Inr m' \<Rightarrow> if slot_ok av 16 then patchAuxv (av + of_nat 16) pnum pdr ent m' else Inl Segv))"
  by pat_completeness auto
termination
  by (relation "measure (\<lambda>(av, pnum, pdr, ent, m). 2 ^ 64 - unat av)")
     (auto simp only: in_measure split_conv wf_measure intro: slot_measure)

declare patchAuxv.simps [simp del]

section \<open>deepCopyStack\<close>

text \<open>
  The loop over \<open>argv\<close>, and the one over \<open>environ\<close>: slot \<open>i\<close> of the new vector gets the pointer of the
  original one, at the same distance from the new vector as before from the original.
\<close>

function relocate :: "va \<Rightarrow> va \<Rightarrow> nat \<Rightarrow> 'a machine_scheme \<Rightarrow> 'a machine_scheme run" where
  "relocate orig new i m =
     (case load64 m (orig + of_nat (8 * i)) of
        Inl h \<Rightarrow> Inl h
      | Inr p \<Rightarrow>
          if p = 0 then Inr m
          else
            (case store64 (new + of_nat (8 * i)) (new + (p - orig)) m of
               Inl h \<Rightarrow> Inl h
             | Inr m' \<Rightarrow> if slot_ok orig (8 * Suc i) then relocate orig new (Suc i) m' else Inl Segv))"
  by pat_completeness auto
termination
  by (relation "measure (\<lambda>(orig, new, i, m). 2 ^ 64 - 8 * i)") (auto simp: slot_ok_def)

declare relocate.simps [simp del]

text \<open>The loop that turns the first \<open>UH_PRELOAD\<close> into \<open>LD_PRELOAD\<close>.\<close>

function rename_preload :: "va \<Rightarrow> 'a machine_scheme \<Rightarrow> 'a machine_scheme run" where
  "rename_preload newEnvPtr m =
     (case load64 m newEnvPtr of
        Inl h \<Rightarrow> Inl h
      | Inr p \<Rightarrow>
          if p = 0 then Inr m
          else
            (case cstr_at m p of
               Inl h \<Rightarrow> Inl h
             | Inr s \<Rightarrow>
                 if strstr s (bytes_of ''UH_PRELOAD'')
                 then andThen (store p [of_char CHR ''L''] m) (\<lambda>m.
                      andThen (load64 m newEnvPtr) (\<lambda>p. store (p + 1) [of_char CHR ''D''] m))
                 else if slot_ok newEnvPtr 8 then rename_preload (newEnvPtr + of_nat 8) m
                 else Inl Segv))"
  by pat_completeness auto
termination
  by (relation "measure (\<lambda>(ep, m). 2 ^ 64 - unat ep)")
     (auto simp only: in_measure split_conv wf_measure intro: slot_measure)

declare rename_preload.simps [simp del]

definition deepCopyStack :: "va \<Rightarrow> va \<Rightarrow> va \<Rightarrow> u64 \<Rightarrow> va \<Rightarrow> va \<Rightarrow> DynObjInfo \<Rightarrow>
    'a machine_scheme \<Rightarrow> (va \<times> 'a machine_scheme) run" where
  "deepCopyStack environ newStack origStack len newStackEnd origStackEnd info m =
     andThen (getenv m environ (bytes_of ''TARGET_LD'')) (\<lambda>target.
     if target = 0 then Inl AssertFail else
     andThen (getenv m environ (bytes_of ''UH_PRELOAD'')) (\<lambda>preload.
     if preload = 0 then Inl AssertFail else
     if newStack = 0 \<or> origStack = 0 \<or> newStackEnd = 0 \<or> origStackEnd = 0 then Inr (0, m) else
     andThen (memcpy newStack origStack len m) (\<lambda>m.
       let origArgcAddr = GET_ARGC_ADDR origStackEnd in
       andThen (load32 m origArgcAddr) (\<lambda>origArgc.
       let origArgv = GET_ARGV_ADDR origStackEnd;
           origEnv = GET_ENV_ADDR origArgv origArgc;
           newArgcAddr = GET_ARGC_ADDR newStackEnd
       in andThen (load32 m newArgcAddr) (\<lambda>newArgc.
       let newArgv = GET_ARGV_ADDR newStackEnd;
           newEnv = GET_ENV_ADDR newArgv newArgc
       in andThen (GET_AUXV_ADDR m newEnv) (\<lambda>newAuxv.
       andThen (relocate origArgv newArgv 0 m) (\<lambda>m.
       andThen (getenv m environ (bytes_of ''TARGET_LD'')) (\<lambda>target.
       andThen (store64 newArgv (newArgv + (target - origArgv)) m) (\<lambda>m.
       andThen (relocate origEnv newEnv 0 m) (\<lambda>m.
       andThen (rename_preload newEnv m) (\<lambda>m.
       andThen (patchAuxv newAuxv (phnum info) (phdr info) (entryPoint info) m) (\<lambda>m.
       andThen (memset0 newStack (newArgv - 16 - newStack) m) (\<lambda>m.
         Inr (newArgcAddr, m))))))))))))))"

section \<open>Reading and writing at offsets of a base\<close>

lemma all_prot_sub:
  assumes "all_prot flag m S len" "i + n \<le> len"
  shows "all_prot flag m (S + of_nat i) n"
  unfolding all_prot_iff
proof (intro allI impI)
  fix j assume "j < n"
  then have "i + j < len" using assms(2) by simp
  then have "\<exists>p. prot_at m (S + of_nat (i + j)) = Some p \<and> has_flag p flag" using assms(1) unfolding all_prot_iff by blast
  then show "\<exists>p. prot_at m (S + of_nat i + of_nat j) = Some p \<and> has_flag p flag" by (simp add: add.assoc)
qed

lemma all_prot_poke [simp]: "all_prot flag (poke a bs m) = all_prot flag m"
  by (simp add: all_prot_def fun_eq_iff)

lemma peek_take: "n \<le> k \<Longrightarrow> peek m a n = take n (peek m a k)"
  by (rule nth_equalityI) (simp_all add: nth_peek)

lemma peek_drop: "peek m (a + of_nat i) n = drop i (peek m a (i + n))"
  by (rule nth_equalityI) (simp_all add: nth_peek add.assoc)

lemma peek_append: "peek m a (i + n) = peek m a i @ peek m (a + of_nat i) n"
  by (simp add: peek_drop peek_take [of i "i + n"])

lemma poke_at:
  assumes "j + length bs \<le> 2 ^ 63" "k < 2 ^ 63"
  shows "mem (poke (N + of_nat j) bs m) (N + of_nat k) =
    (if j \<le> k \<and> k < j + length bs then bs ! (k - j) else mem m (N + of_nat k))"
proof -
  have small: "unat (of_nat j :: u64) = j" "unat (of_nat k :: u64) = k"
    using assms by (simp_all add: unat_of_nat)
  have "N + of_nat k - (N + of_nat j) = of_nat k - (of_nat j :: u64)" by simp
  then have u: "unat (N + of_nat k - (N + of_nat j)) = (if j \<le> k then k - j else k + 2 ^ 64 - j)"
    by (simp only: unat_sub_if' small) simp
  show ?thesis
    using assms unfolding mem_poke u by (cases "j \<le> k") auto
qed

lemma peek_poke_same:
  assumes "j + length bs \<le> 2 ^ 63" "j \<le> i" "i + n \<le> j + length bs"
  shows "peek (poke (N + of_nat j) bs m) (N + of_nat i) n = take n (drop (i - j) bs)"
proof (rule nth_equalityI)
  show "length (peek (poke (N + of_nat j) bs m) (N + of_nat i) n) = length (take n (drop (i - j) bs))"
    using assms(2,3) by simp
  fix l assume "l < length (peek (poke (N + of_nat j) bs m) (N + of_nat i) n)"
  then have l: "l < n" by simp
  then have "mem (poke (N + of_nat j) bs m) (N + of_nat (i + l)) = bs ! (i + l - j)"
    using assms by (subst poke_at) auto
  then show "peek (poke (N + of_nat j) bs m) (N + of_nat i) n ! l = take n (drop (i - j) bs) ! l"
    using l assms(2,3) by (simp add: nth_peek add.assoc)
qed

lemma peek_poke_apart:
  assumes "j + length bs \<le> 2 ^ 63" "i + n \<le> 2 ^ 63" "i + n \<le> j \<or> j + length bs \<le> i"
  shows "peek (poke (N + of_nat j) bs m) (N + of_nat i) n = peek m (N + of_nat i) n"
proof (rule peek_eqI)
  fix l assume "l < n"
  then have "mem (poke (N + of_nat j) bs m) (N + of_nat (i + l)) = mem m (N + of_nat (i + l))"
    using assms by (subst poke_at) auto
  then show "mem (poke (N + of_nat j) bs m) (N + of_nat i + of_nat l) = mem m (N + of_nat i + of_nat l)"
    by (simp add: add.assoc)
qed

lemma off_add: "B + of_nat i + of_nat j = B + (of_nat (i + j) :: u64)"
  by (simp add: add.assoc)

lemma off_add_num: "B + of_nat i + numeral j = B + (of_nat (i + numeral j) :: u64)"
  by (simp add: add.assoc)

text \<open>
  The two regions: the original stack can be read, the new one read and written, both end inside the
  address space, and they have no address in common.
\<close>

definition region_ok :: "'a machine_scheme \<Rightarrow> va \<Rightarrow> nat \<Rightarrow> bool" where
  "region_ok m B n \<longleftrightarrow> n < 2 ^ 62 \<and> unat B + n < 2 ^ 64 \<and> all_prot PROT_READ m B n"

definition apart :: "va \<Rightarrow> va \<Rightarrow> nat \<Rightarrow> bool" where
  "apart S N n \<longleftrightarrow> (\<forall>i < n. \<forall>j < n. S + of_nat i \<noteq> N + of_nat j)"

definition stacks_ok :: "'a machine_scheme \<Rightarrow> va \<Rightarrow> va \<Rightarrow> nat \<Rightarrow> bool" where
  "stacks_ok m S N n \<longleftrightarrow> region_ok m S n \<and> region_ok m N n \<and> all_prot PROT_WRITE m N n \<and> apart S N n"

text \<open>The write set: only bytes at the offsets \<open>A\<close> of the \<open>n\<close> bytes at \<open>N\<close> may differ.\<close>

definition changes :: "va \<Rightarrow> nat \<Rightarrow> nat set \<Rightarrow> 'a machine_scheme \<Rightarrow> 'a machine_scheme \<Rightarrow> bool" where
  "changes N n A m m' \<longleftrightarrow> m' = m\<lparr>mem := mem m'\<rparr> \<and>
     (\<forall>x. mem m' x \<noteq> mem m x \<longrightarrow> (\<exists>k < n. k \<in> A \<and> x = N + of_nat k))"

lemma changes_refl [simp]: "changes N n A m m"
  by (simp add: changes_def)

lemma changes_trans:
  assumes "changes N n A m m'" "changes N n A' m' m''"
  shows "changes N n (A \<union> A') m m''"
proof -
  have "m' = m\<lparr>mem := mem m'\<rparr>" "m'' = m'\<lparr>mem := mem m''\<rparr>" using assms by (simp_all add: changes_def)
  then have "m'' = m\<lparr>mem := mem m''\<rparr>" by (metis machine.update_convs(1) machine.surjective machine.select_convs)
  moreover have "\<exists>k < n. k \<in> A \<union> A' \<and> x = N + of_nat k" if "mem m'' x \<noteq> mem m x" for x
    using assms that unfolding changes_def by (metis UnI1 UnI2)
  ultimately show ?thesis by (simp add: changes_def)
qed

lemma changes_mono: "changes N n A m m' \<Longrightarrow> A \<subseteq> A' \<Longrightarrow> changes N n A' m m'"
  unfolding changes_def by (meson subsetD)

lemma changes_prot: "changes N n A m m' \<Longrightarrow> prot_at m' = prot_at m"
  unfolding changes_def by (metis machine.select_convs(2) machine.update_convs(1) machine.surjective)

lemma changes_ok: "changes N n A m m' \<Longrightarrow> stacks_ok m' S T l = stacks_ok m S T l"
  by (simp add: stacks_ok_def region_ok_def all_prot_def changes_prot)

lemma changes_poke:
  assumes "j + length bs \<le> n" "n < 2 ^ 62"
  shows "changes N n {j..<j + length bs} m (poke (N + of_nat j) bs m)"
proof -
  have "\<exists>k<n. k \<in> {j..<j + length bs} \<and> x = N + of_nat k" if "mem (poke (N + of_nat j) bs m) x \<noteq> mem m x" for x
  proof -
    let ?d = "unat (x - (N + of_nat j))"
    have d: "?d < length bs" using that by (auto simp: mem_poke split: if_splits)
    have "x = N + of_nat j + of_nat ?d" by simp
    then have "x = N + of_nat (j + ?d)" by (simp only: off_add)
    then show ?thesis using d assms(1) by (intro exI [of _ "j + ?d"]) simp
  qed
  then show ?thesis by (simp add: changes_def poke_def)
qed

lemma off_inj: "i < 2 ^ 62 \<Longrightarrow> k < 2 ^ 62 \<Longrightarrow> N + of_nat i = N + (of_nat k :: u64) \<longleftrightarrow> i = k"
  by (auto simp: word_of_nat_eq_iff take_bit_eq_mod)

text \<open>What a change leaves alone: the other offsets, and the original stack.\<close>

lemma changes_peek:
  assumes "changes N n A m m'" "k + l \<le> n" "n < 2 ^ 62" "{k..<k + l} \<inter> A = {}"
  shows "peek m' (N + of_nat k) l = peek m (N + of_nat k) l"
proof (rule peek_eqI)
  fix i assume i: "i < l"
  have "k + i = j" if "j < n" "N + of_nat (k + i) = N + of_nat j" for j
    using off_inj [of "k + i" j N] that assms(2,3) i by linarith
  moreover have "k + i \<notin> A" using assms(4) i by (auto simp: disjoint_iff)
  ultimately have "\<not> (\<exists>j<n. j \<in> A \<and> N + of_nat (k + i) = N + of_nat j)" by blast
  then show "mem m' (N + of_nat k + of_nat i) = mem m (N + of_nat k + of_nat i)"
    using assms(1) unfolding changes_def off_add by blast
qed

lemma changes_peek_apart:
  assumes "changes N n A m m'" "k + l \<le> n" "apart S N n"
  shows "peek m' (S + of_nat k) l = peek m (S + of_nat k) l"
proof (rule peek_eqI)
  fix i assume i: "i < l"
  have "\<not> (\<exists>j<n. j \<in> A \<and> S + of_nat (k + i) = N + of_nat j)"
    using assms(2,3) i unfolding apart_def by (metis add_less_cancel_left order_less_le_trans)
  then show "mem m' (S + of_nat k + of_nat i) = mem m (S + of_nat k + of_nat i)"
    using assms(1) unfolding changes_def off_add by blast
qed

section \<open>Words at offsets\<close>

definition word_at :: "'a machine_scheme \<Rightarrow> va \<Rightarrow> nat \<Rightarrow> u64" where
  "word_at m B k = le_word (peek m (B + of_nat k) 8)"

fun words :: "'a machine_scheme \<Rightarrow> va \<Rightarrow> nat \<Rightarrow> u64 list \<Rightarrow> bool" where
  "words m B k [] \<longleftrightarrow> True"
| "words m B k (w # ws) \<longleftrightarrow> word_at m B k = w \<and> words m B (k + 8) ws"

lemma words_append [simp]: "words m B k (ws @ vs) \<longleftrightarrow> words m B k ws \<and> words m B (k + 8 * length ws) vs"
  by (induction ws arbitrary: k) (simp_all add: algebra_simps)

lemma words_cong:
  assumes "\<And>j. k \<le> j \<Longrightarrow> j + 8 \<le> k + 8 * length ws \<Longrightarrow> word_at m' B j = word_at m B' j"
  shows "words m' B k ws \<longleftrightarrow> words m B' k ws"
  using assms by (induction ws arbitrary: k) simp_all

lemma words_changes:
  assumes "changes N n A m m'" "k + 8 * length ws \<le> n" "n < 2 ^ 62" "{k..<k + 8 * length ws} \<inter> A = {}"
  shows "words m' N k ws \<longleftrightarrow> words m N k ws"
proof (rule words_cong)
  fix j assume j: "k \<le> j" "j + 8 \<le> k + 8 * length ws"
  then have "{j..<j + 8} \<subseteq> {k..<k + 8 * length ws}" by auto
  then have "{j..<j + 8} \<inter> A = {}" using assms(4) by blast
  then show "word_at m' N j = word_at m N j"
    using changes_peek [OF assms(1), of j 8] j assms(2,3) by (simp add: word_at_def)
qed

lemma words_apart:
  assumes "changes N n A m m'" "k + 8 * length ws \<le> n" "apart S N n"
  shows "words m' S k ws \<longleftrightarrow> words m S k ws"
  by (rule words_cong) (use assms in \<open>simp add: word_at_def changes_peek_apart\<close>)

lemma load_off:
  assumes "region_ok m B n" "k + 8 \<le> n" shows "load64 m (B + of_nat k) = Inr (word_at m B k)"
  using all_prot_sub [of PROT_READ m B n k 8] assms by (simp add: load64_def word_at_def region_ok_def)

lemma store_off:
  assumes "stacks_ok m S N n" "k + 8 \<le> n"
  shows "\<exists>m'. store64 (N + of_nat k) w m = Inr m' \<and> changes N n {k..<k + 8} m m' \<and> word_at m' N k = w"
proof -
  let ?m = "poke (N + of_nat k) (le_bytes 8 w) m"
  have "all_prot PROT_WRITE m (N + of_nat k) 8"
    using all_prot_sub [of PROT_WRITE m N n k 8] assms by (simp add: stacks_ok_def)
  then have "store64 (N + of_nat k) w m = Inr ?m" by (simp add: store64_def store_def)
  moreover have "changes N n {k..<k + 8} m ?m"
    using changes_poke [of k "le_bytes 8 w" n N m] assms by (simp add: stacks_ok_def region_ok_def)
  moreover have "word_at ?m N k = w"
    using peek_poke [of "le_bytes 8 w" "N + of_nat k" m] by (simp add: word_at_def le_word_u64)
  ultimately show ?thesis by blast
qed

lemma slot_off: "region_ok m B n \<Longrightarrow> k + d < n \<Longrightarrow> slot_ok (B + of_nat k) d"
  using unat_slot [of B k] by (simp add: slot_ok_def region_ok_def)

section \<open>The loops over the vectors\<close>

lemma stacks_okD:
  assumes "stacks_ok m S N n"
  shows "region_ok m S n" "region_ok m N n" "all_prot PROT_WRITE m N n" "apart S N n" "n < 2 ^ 62"
  using assms by (simp_all add: stacks_ok_def region_ok_def)

lemma GET_AUXV_ADDR_vec:
  assumes "region_ok m B n" "words m B k (ps @ [0])" "0 \<notin> set ps" "k + 8 * length ps + 8 < n"
  shows "GET_AUXV_ADDR m (B + of_nat k) = Inr (B + of_nat (k + 8 * length ps + 8))"
  using assms(2-4)
proof (induction ps arbitrary: k)
  case Nil
  then show ?case
    using load_off [OF assms(1), of k] by (simp add: GET_AUXV_ADDR.simps [of m "B + of_nat k"] add.assoc)
next
  case (Cons p ps)
  have l: "load64 m (B + of_nat k) = Inr p" "p \<noteq> 0"
    using load_off [OF assms(1), of k] Cons.prems by simp_all
  have "slot_ok (B + of_nat k) 8" using slot_off [OF assms(1)] Cons.prems(3) by simp
  then have "GET_AUXV_ADDR m (B + of_nat k) = GET_AUXV_ADDR m (B + of_nat (k + 8))"
    using l by (subst GET_AUXV_ADDR.simps) (simp add: add.assoc)
  also have "\<dots> = Inr (B + of_nat (k + 8 + 8 * length ps + 8))"
    by (rule Cons.IH) (use Cons.prems in simp_all)
  finally show ?case by (simp add: ac_simps)
qed

text \<open>
  Both relocation loops: the slots of the new vector get the pointers of the original one, moved by the
  distance of the stacks; nothing else changes.
\<close>

lemma relocate_vec:
  assumes "stacks_ok m S N n" "words m S (v + 8 * i) (ps @ [0])" "0 \<notin> set ps" "v + 8 * i + 8 * length ps + 8 \<le> n"
  shows "\<exists>m'. relocate (S + of_nat v) (N + of_nat v) i m = Inr m' \<and>
    changes N n {v + 8 * i..<v + 8 * i + 8 * length ps} m m' \<and>
    words m' N (v + 8 * i) (map (\<lambda>p. p + (N - S)) ps)"
  using assms
proof (induction ps arbitrary: i m)
  case Nil
  have "load64 m (S + of_nat (v + 8 * i)) = Inr 0"
    using load_off [OF stacks_okD(1) [OF Nil.prems(1)], of "v + 8 * i"] Nil.prems by simp
  then have "relocate (S + of_nat v) (N + of_nat v) i m = Inr m"
    by (subst relocate.simps) (simp only: off_add, simp)
  then show ?case by (intro exI [of _ m]) simp
next
  case (Cons p ps)
  let ?k = "v + 8 * i"
  let ?w = "N + of_nat v + (p - (S + of_nat v))"
  have p: "p \<noteq> 0" and w: "?w = p + (N - S)" using Cons.prems(3) by auto
  have l: "load64 m (S + of_nat ?k) = Inr p"
    using load_off [OF stacks_okD(1) [OF Cons.prems(1)], of ?k] Cons.prems(2,4) by simp
  obtain m1 where m1: "store64 (N + of_nat ?k) ?w m = Inr m1" "changes N n {?k..<?k + 8} m m1" "word_at m1 N ?k = ?w"
    using store_off [OF Cons.prems(1), of ?k ?w] Cons.prems(4) by auto
  have slot: "slot_ok (S + of_nat v) (8 * Suc i)"
    using slot_off [OF stacks_okD(1) [OF Cons.prems(1)], of v "8 * Suc i"] Cons.prems(4) by simp
  have rec: "relocate (S + of_nat v) (N + of_nat v) i m = relocate (S + of_nat v) (N + of_nat v) (Suc i) m1"
    by (subst relocate.simps) (simp only: off_add l m1(1) sum.case p slot if_False if_True)
  have "words m1 S (?k + 8) (ps @ [0])"
    using Cons.prems(2,4) words_apart [OF m1(2) _ stacks_okD(4) [OF Cons.prems(1)], of "?k + 8" "ps @ [0]"] by simp
  moreover have "stacks_ok m1 S N n" using Cons.prems(1) changes_ok [OF m1(2)] by blast
  ultimately obtain m' where m': "relocate (S + of_nat v) (N + of_nat v) (Suc i) m1 = Inr m'"
    "changes N n {?k + 8..<?k + 8 + 8 * length ps} m1 m'" "words m' N (?k + 8) (map (\<lambda>p. p + (N - S)) ps)"
    using Cons.IH [of m1 "Suc i"] Cons.prems(3,4) by (auto simp: algebra_simps)
  have "word_at m' N ?k = ?w"
    using changes_peek [OF m'(2), of ?k 8] m1(3) Cons.prems(4) stacks_okD(5) [OF Cons.prems(1)] by (simp add: word_at_def)
  then have "words m' N ?k (map (\<lambda>p. p + (N - S)) (p # ps))" using m'(3) w by simp
  moreover have "changes N n {?k..<?k + 8 * length (p # ps)} m m'"
    by (rule changes_mono [OF changes_trans [OF m1(2) m'(2)]]) auto
  ultimately show ?case using rec m'(1) by auto
qed

text \<open>\<open>patchAuxv\<close> on the entries of the auxiliary vector, and what it means on them.\<close>

definition aux_words :: "(u64 \<times> u64) list \<Rightarrow> u64 list" where
  "aux_words aux = concat (map (\<lambda>(t, v). [t, v]) aux)"

definition patch_entry :: "u64 \<Rightarrow> u64 \<Rightarrow> u64 \<Rightarrow> u64 \<times> u64 \<Rightarrow> u64 \<times> u64" where
  "patch_entry pnum pdr ent = (\<lambda>(t, v). (t, if t = AT_PHNUM then pnum else if t = AT_PHDR then pdr
     else if t = AT_ENTRY then ent else v))"

lemma aux_words_simps [simp]:
  "aux_words [] = []" "aux_words ((t, v) # aux) = t # v # aux_words aux"
  by (simp_all add: aux_words_def)

lemma length_aux_words [simp]: "length (aux_words aux) = 2 * length aux"
  by (induction aux) auto

lemma words_single: "word_at m B k = w \<Longrightarrow> words m B k [w]"
  by simp

lemma patchAuxv_words:
  assumes "stacks_ok m S N n" "words m N k (aux_words aux @ [0])" "0 \<notin> fst ` set aux" "k + 16 * length aux + 8 \<le> n"
  shows "\<exists>m'. patchAuxv (N + of_nat k) pnum pdr ent m = Inr m' \<and>
    changes N n {k..<k + 16 * length aux} m m' \<and>
    words m' N k (aux_words (map (patch_entry pnum pdr ent) aux) @ [0])"
  using assms
proof (induction aux arbitrary: k m)
  case Nil
  have "load64 m (N + of_nat k) = Inr 0"
    using load_off [OF stacks_okD(2) [OF Nil.prems(1)], of k] Nil.prems by simp
  then show ?case using Nil.prems(2) by (simp add: patchAuxv.simps [of "N + of_nat k"] AT_NULL_def)
next
  case (Cons e aux)
  obtain t v where e: "e = (t, v)" by (cases e)
  have k: "k + 24 + 16 * length aux \<le> n" using Cons.prems(4) by simp
  note ok = stacks_okD [OF Cons.prems(1)]
  have t: "t \<noteq> 0" "word_at m N k = t" "word_at m N (k + 8) = v" "words m N (k + 16) (aux_words aux @ [0])"
    using Cons.prems(2,3) by (auto simp: e ac_simps)
  have l: "load64 m (N + of_nat k) = Inr t" "load64 m (N + of_nat (k + 8)) = Inr v"
    using load_off [OF ok(2), of k] load_off [OF ok(2), of "k + 8"] t(2,3) k by simp_all
  have slot: "slot_ok (N + of_nat k) 16" using slot_off [OF ok(2), of k 16] k by simp
  have tn: "t \<noteq> AT_NULL" using t(1) by (simp add: AT_NULL_def)
  let ?v = "snd (patch_entry pnum pdr ent (t, v))"
  let ?body = "if t = AT_PHNUM then store64 (N + of_nat (k + 8)) pnum m
     else if t = AT_PHDR then store64 (N + of_nat (k + 8)) pdr m
     else if t = AT_ENTRY then store64 (N + of_nat (k + 8)) ent m
     else if t = AT_RANDOM then andThen (load64 m (N + of_nat (k + 8))) (\<lambda>_. Inr m) else Inr m"
  have "\<exists>m1. ?body = Inr m1 \<and> changes N n {k + 8..<k + 16} m m1 \<and> word_at m1 N (k + 8) = ?v"
    using store_off [OF Cons.prems(1), of "k + 8"] k l(2) t(3)
    by (auto simp: patch_entry_def andThen.simps add.assoc simp del: of_nat_add)
  then obtain m1 where m1: "?body = Inr m1" "changes N n {k + 8..<k + 16} m m1" "word_at m1 N (k + 8) = ?v" by blast
  have rec: "patchAuxv (N + of_nat k) pnum pdr ent m = patchAuxv (N + of_nat (k + 16)) pnum pdr ent m1"
    by (subst patchAuxv.simps) (simp only: off_add off_add_num l(1) sum.case tn if_False m1(1) slot if_True)
  have "words m1 N (k + 16) (aux_words aux @ [0])"
    using t(4) words_changes [OF m1(2), of "k + 16" "aux_words aux @ [0]"] k ok(5) by simp
  moreover have "stacks_ok m1 S N n" using Cons.prems(1) changes_ok [OF m1(2)] by blast
  ultimately obtain m' where m': "patchAuxv (N + of_nat (k + 16)) pnum pdr ent m1 = Inr m'"
    "changes N n {k + 16..<k + 16 + 16 * length aux} m1 m'"
    "words m' N (k + 16) (aux_words (map (patch_entry pnum pdr ent) aux) @ [0])"
    using Cons.IH [of m1 "k + 16"] Cons.prems(3) k by auto
  have "word_at m' N (k + 8) = ?v"
    using changes_peek [OF m'(2), of "k + 8" 8] m1(3) k ok(5) by (simp add: word_at_def)
  moreover have "word_at m' N k = t"
    using changes_peek [OF m'(2), of k 8] changes_peek [OF m1(2), of k 8] t(2) k ok(5) by (simp add: word_at_def)
  ultimately have "words m' N k (aux_words (map (patch_entry pnum pdr ent) (e # aux)) @ [0])"
    using m'(3) by (simp add: e patch_entry_def add.assoc)
  moreover have "changes N n {k..<k + 16 * length (e # aux)} m m'"
    by (rule changes_mono [OF changes_trans [OF m1(2) m'(2)]]) auto
  ultimately show ?case using rec m'(1) by auto
qed

section \<open>Strings at offsets\<close>

definition ptr :: "va \<Rightarrow> nat \<times> byte list \<Rightarrow> va" where "ptr B e = B + of_nat (fst e)"

fun str_at :: "'a machine_scheme \<Rightarrow> va \<Rightarrow> nat \<Rightarrow> nat \<times> byte list \<Rightarrow> bool" where
  "str_at m B n (off, s) \<longleftrightarrow> 0 < off \<and> 0 \<notin> set s \<and> off + length s < n \<and>
     peek m (B + of_nat off) (Suc (length s)) = s @ [0]"

definition extent :: "nat \<times> byte list \<Rightarrow> nat set" where
  "extent e = {fst e..fst e + length (snd e)}"

definition strings_apart :: "(nat \<times> byte list) list \<Rightarrow> bool" where
  "strings_apart es \<longleftrightarrow> distinct es \<and>
     (\<forall>e \<in> set es. \<forall>e' \<in> set es. e \<noteq> e' \<longrightarrow> extent e \<inter> extent e' = {})"

lemma str_at_holds:
  assumes "region_ok m B n" "str_at m B n e"
  shows "holds_str m (ptr B e) (snd e)" "ptr B e \<noteq> 0"
proof -
  obtain off s where e: "e = (off, s)" by (cases e)
  have "unat (B + of_nat off) = unat B + off"
    using assms by (intro unat_slot) (auto simp: slot_ok_def region_ok_def e)
  then show "holds_str m (ptr B e) (snd e)" "ptr B e \<noteq> 0"
    using assms all_prot_sub [of PROT_READ m B n off "Suc (length s)"]
    by (auto simp: holds_str_def ptr_def e region_ok_def)
qed

lemma str_at_changes:
  assumes "changes N n A m m'" "n < 2 ^ 62" "extent e \<inter> A = {}"
  shows "str_at m' N n e \<longleftrightarrow> str_at m N n e"
proof -
  obtain off s where e: "e = (off, s)" by (cases e)
  have "{off..<off + Suc (length s)} = extent e" by (auto simp: extent_def e)
  then show ?thesis
    using changes_peek [OF assms(1), of off "Suc (length s)"] assms(2,3) by (auto simp: e simp del: One_nat_def)
qed

lemma str_at_apart:
  assumes "changes N n A m m'" "apart S N n"
  shows "str_at m' S n e \<longleftrightarrow> str_at m S n e"
  using changes_peek_apart [OF assms(1) _ assms(2)] by (cases e) (auto simp: Suc_le_eq)

lemma str_at_drop:
  assumes "str_at m B n (off, s)" "j \<le> length s"
  shows "str_at m B n (off + j, drop j s)"
proof -
  have "peek m (B + of_nat (off + j)) (Suc (length s - j)) = drop j (s @ [0])"
    using assms peek_drop [of m "B + of_nat off" j "Suc (length s - j)"] by (simp add: off_add)
  then show ?thesis using assms set_drop_subset [of j s] by auto
qed

text \<open>\<open>getenv\<close> on a vector whose entries are given by their offsets.\<close>

lemma getenv_off:
  assumes "region_ok m B n" "words m B k (map (ptr B) env @ [0])" "\<forall>e \<in> set env. str_at m B n e"
    "k + 8 * length env + 8 \<le> n"
  shows "getenv m (B + of_nat k) name =
    Inr (case find (\<lambda>e. prefix (name @ [of_char CHR ''='']) (snd e)) env of
           None \<Rightarrow> 0 | Some e \<Rightarrow> B + of_nat (fst e + length name + 1))"
  using assms(2-4) unfolding getenv_def
proof (induction env arbitrary: k)
  case Nil
  then show ?case
    using load_off [OF assms(1), of k] by (simp add: getenv_loop.simps [of m "B + of_nat k"])
next
  case (Cons e env)
  note h = str_at_holds [OF assms(1), of e]
  have l: "load64 m (B + of_nat k) = Inr (ptr B e)"
    using load_off [OF assms(1), of k] Cons.prems by simp
  have c: "cstr_at m (ptr B e) = Inr (snd e)" using h Cons.prems(2) by (simp add: cstr_at_holds)
  have slot: "slot_ok (B + of_nat k) 8" using slot_off [OF assms(1)] Cons.prems(3) by simp
  have rec: "getenv_loop m (B + of_nat (k + 8)) name =
    Inr (case find (\<lambda>e. prefix (name @ [of_char CHR ''='']) (snd e)) env of
           None \<Rightarrow> 0 | Some e \<Rightarrow> B + of_nat (fst e + length name + 1))"
    by (rule Cons.IH) (use Cons.prems in simp_all)
  have nz: "ptr B e \<noteq> 0" using h(2) Cons.prems(2) by simp
  show ?case
    by (subst getenv_loop.simps) (simp only: off_add l c slot rec nz sum.case if_False if_True, simp add: ptr_def ac_simps)
qed

section \<open>Renaming UH_PRELOAD\<close>

text \<open>What the loop does to the strings of the environment.\<close>

definition names_preload :: "nat \<times> byte list \<Rightarrow> bool" where
  "names_preload e \<longleftrightarrow> strstr (snd e) (bytes_of ''UH_PRELOAD'')"

definition to_LD :: "nat \<times> byte list \<Rightarrow> nat \<times> byte list" where
  "to_LD e = (fst e, bytes_of ''LD'' @ drop 2 (snd e))"

fun rename_first :: "(nat \<times> byte list) list \<Rightarrow> (nat \<times> byte list) list" where
  "rename_first [] = []"
| "rename_first (e # es) = (if names_preload e then to_LD e # es else e # rename_first es)"

lemma length_rename_first [simp]: "length (rename_first es) = length es"
  by (induction es) simp_all

lemma ptr_rename_first [simp]: "map (ptr B) (rename_first es) = map (ptr B) es"
  by (induction es) (simp_all add: ptr_def to_LD_def)

lemma rename_first_none: "find names_preload es = None \<Longrightarrow> rename_first es = es"
  by (induction es) (auto split: if_splits)

lemma find_SomeD: "find P xs = Some x \<Longrightarrow> x \<in> set xs \<and> P x"
  by (auto simp: find_Some_iff)

lemma rename_first_some:
  assumes "find names_preload es = Some e" "distinct es" "x \<in> set (rename_first es)"
  shows "x = to_LD e \<or> x \<in> set es \<and> x \<noteq> e"
  using assms by (induction es) (auto split: if_splits dest: find_SomeD)

lemma names_preload_length: "names_preload e \<Longrightarrow> 10 \<le> length (snd e)"
  unfolding names_preload_def strstr_iff_sublist by (drule sublist_length_le) simp

lemma poke_two:
  assumes "str_at m N n e" "2 \<le> length (snd e)" "n < 2 ^ 62"
  shows "str_at (poke (N + of_nat (Suc (fst e))) [b] (poke (ptr N e) [a] m)) N n (fst e, a # b # drop 2 (snd e))
    \<longleftrightarrow> a \<noteq> 0 \<and> b \<noteq> 0"
proof -
  obtain off c d s where e: "e = (off, c # d # s)"
    using assms(2) by (cases e; cases "snd e"; cases "tl (snd e)") auto
  let ?m1 = "poke (N + of_nat off) [a] m" and ?r = "Suc (length s)"
  let ?m2 = "poke (N + of_nat (Suc off)) [b] ?m1"
  have n: "off + Suc (Suc (length s)) < n" using assms(1) by (simp add: e)
  have "mem ?m2 (N + of_nat off) = a"
    using poke_at [of "Suc off" "[b]" off N ?m1] poke_at [of off "[a]" off N m] n assms(3) by simp
  moreover have "mem ?m2 (N + of_nat (Suc off)) = b"
    using poke_at [of "Suc off" "[b]" "Suc off" N ?m1] n assms(3) by simp
  moreover have "peek ?m2 (N + of_nat (off + 2)) ?r = peek m (N + of_nat (off + 2)) ?r"
    using peek_poke_apart [of "Suc off" "[b]" "off + 2" ?r N ?m1] peek_poke_apart [of off "[a]" "off + 2" ?r N m]
      n assms(3) by simp
  moreover have "peek m (N + of_nat (off + 2)) ?r = s @ [0]"
    using assms(1) peek_drop [of m "N + of_nat off" 2 ?r] by (simp add: e off_add off_add_num)
  moreover have "peek x (N + of_nat off) (2 + ?r) =
    mem x (N + of_nat off) # mem x (N + of_nat (Suc off)) # peek x (N + of_nat (off + 2)) ?r" for x :: "'a machine_scheme"
    by (simp add: peek_Suc ac_simps)
  ultimately have "peek ?m2 (N + of_nat off) (2 + ?r) = a # b # s @ [0]" by simp
  then show ?thesis using assms(1) n by (auto simp: e ptr_def)
qed

text \<open>The bytes the loop writes.\<close>

definition renamed_bytes :: "(nat \<times> byte list) list \<Rightarrow> nat set" where
  "renamed_bytes es = (case find names_preload es of None \<Rightarrow> {} | Some e \<Rightarrow> {fst e, Suc (fst e)})"

lemma store_byte:
  assumes "stacks_ok m S N n" "k < n"
  shows "store (N + of_nat k) [b] m = Inr (poke (N + of_nat k) [b] m)"
    "changes N n {k} m (poke (N + of_nat k) [b] m)"
proof -
  show "store (N + of_nat k) [b] m = Inr (poke (N + of_nat k) [b] m)"
    using all_prot_sub [of PROT_WRITE m N n k 1] assms by (simp add: store_def stacks_ok_def)
  show "changes N n {k} m (poke (N + of_nat k) [b] m)"
    using changes_poke [of k "[b]" n N m] assms stacks_okD(5) [OF assms(1)] by (auto elim: changes_mono)
qed

lemma rename_preload_vec:
  assumes "stacks_ok m S N n" "words m N k (map (ptr N) env @ [0])"
    "\<forall>e \<in> set env. str_at m N n e \<and> k + 8 * length env + 8 \<le> fst e" "k + 8 * length env + 8 \<le> n"
  shows "\<exists>m'. rename_preload (N + of_nat k) m = Inr m' \<and> changes N n (renamed_bytes env) m m' \<and>
    (\<forall>e. find names_preload env = Some e \<longrightarrow> str_at m' N n (to_LD e))"
  using assms(2-4)
proof (induction env arbitrary: k)
  case Nil
  have "load64 m (N + of_nat k) = Inr 0"
    using load_off [OF stacks_okD(2) [OF assms(1)], of k] Nil.prems by simp
  then show ?case by (simp add: rename_preload.simps [of "N + of_nat k"])
next
  case (Cons e env)
  note ok = stacks_okD [OF assms(1)]
  have l: "load64 m (N + of_nat k) = Inr (ptr N e)"
    using load_off [OF ok(2), of k] Cons.prems by simp
  have e: "str_at m N n e" "k + 16 + 8 * length env \<le> fst e" using Cons.prems(2) by auto
  have c: "cstr_at m (ptr N e) = Inr (snd e)" and nz: "ptr N e \<noteq> 0"
    using str_at_holds [OF ok(2) e(1)] by (simp_all add: cstr_at_holds)
  show ?case
  proof (cases "names_preload e")
    case True
    have len: "fst e + length (snd e) < n" "10 \<le> length (snd e)"
      using e(1) names_preload_length [OF True] by (cases e, simp)+
    let ?m1 = "poke (ptr N e) [of_char CHR ''L''] m"
    let ?m2 = "poke (N + of_nat (Suc (fst e))) [of_char CHR ''D''] ?m1"
    have s1: "store (ptr N e) [of_char CHR ''L''] m = Inr ?m1" "changes N n {fst e} m ?m1"
      using store_byte [OF assms(1), of "fst e"] len by (simp_all add: ptr_def)
    have ok1: "stacks_ok ?m1 S N n" using assms(1) changes_ok [OF s1(2)] by blast
    have s2: "store (ptr N e + 1) [of_char CHR ''D''] ?m1 = Inr ?m2" "changes N n {Suc (fst e)} ?m1 ?m2"
      using store_byte [OF ok1, of "Suc (fst e)"] len by (simp_all add: ptr_def ac_simps)
    have "word_at ?m1 N k = word_at m N k"
      using changes_peek [OF s1(2), of k 8] Cons.prems(3) e(2) ok(5) by (simp add: word_at_def)
    then have l1: "load64 ?m1 (N + of_nat k) = Inr (ptr N e)"
      using load_off [OF stacks_okD(2) [OF ok1], of k] Cons.prems by simp
    have "rename_preload (N + of_nat k) m = Inr ?m2"
      by (subst rename_preload.simps)
         (use True in \<open>simp only: l nz c names_preload_def sum.case if_False if_True s1(1) l1 s2(1) andThen.simps\<close>)
    moreover have "changes N n {fst e, Suc (fst e)} m ?m2"
      by (rule changes_mono [OF changes_trans [OF s1(2) s2(2)]]) auto
    moreover have "str_at ?m2 N n (to_LD e)"
      using poke_two [OF e(1) _ ok(5), of "of_char CHR ''D''" "of_char CHR ''L''"] len(2)
      by (simp add: to_LD_def bytes_of_def)
    ultimately show ?thesis using True by (auto simp: renamed_bytes_def)
  next
    case False
    have "slot_ok (N + of_nat k) 8" using slot_off [OF ok(2)] Cons.prems(3) by simp
    then have rec: "rename_preload (N + of_nat k) m = rename_preload (N + of_nat (k + 8)) m"
      by (subst rename_preload.simps)
         (use False in \<open>simp only: l nz c names_preload_def sum.case if_False if_True off_add\<close>)
    have "find names_preload (e # env) = find names_preload env" using False by simp
    then show ?thesis
      unfolding rec renamed_bytes_def using Cons.IH [of "k + 8"] Cons.prems
      by (fastforce simp: renamed_bytes_def algebra_simps)
  qed
qed

section \<open>The copied stack\<close>

lemma memcpy_off:
  assumes "stacks_ok m S N n" "unat len = n"
  shows "\<exists>m'. memcpy N S len m = Inr m' \<and> changes N n UNIV m m' \<and>
    (\<forall>k l. k + l \<le> n \<longrightarrow> peek m' (N + of_nat k) l = peek m (S + of_nat k) l)"
proof -
  let ?m = "poke (N + of_nat 0) (peek m S n) m"
  note ok = stacks_okD [OF assms(1)]
  have "memcpy N S len m = Inr ?m"
    using assms by (simp add: memcpy_def store_def stacks_ok_def region_ok_def)
  moreover have "changes N n UNIV m ?m"
    by (rule changes_mono [OF changes_poke]) (use ok(5) in auto)
  moreover have "peek ?m (N + of_nat k) l = peek m (S + of_nat k) l" if "k + l \<le> n" for k l
  proof -
    have "peek ?m (N + of_nat k) l = take l (drop k (peek m S n))"
      using peek_poke_same [of 0 "peek m S n" k l N m] that ok(5) by simp
    also have "\<dots> = peek m (S + of_nat k) l"
      using that by (simp add: peek_take [of "k + l" n] peek_drop take_drop min_def add.commute)
    finally show ?thesis .
  qed
  ultimately show ?thesis by blast
qed

lemma memset0_off:
  assumes "stacks_ok m S N n" "k \<le> n"
  shows "\<exists>m'. memset0 N (of_nat k) m = Inr m' \<and> changes N n {..<k} m m' \<and> (\<forall>i < k. mem m' (N + of_nat i) = 0)"
proof -
  let ?m = "poke (N + of_nat 0) (replicate k 0) m"
  note ok = stacks_okD [OF assms(1)]
  have u: "unat (of_nat k :: u64) = k" using assms(2) ok(5) by (simp add: unat_of_nat)
  have "all_prot PROT_WRITE m N k" using all_prot_sub [of PROT_WRITE m N n 0 k] ok(3) assms(2) by simp
  then have "memset0 N (of_nat k) m = Inr ?m" by (simp add: memset0_def store_def u)
  moreover have "changes N n {..<k} m ?m"
    using changes_poke [of 0 "replicate k 0" n N m] assms(2) ok(5) by (simp add: lessThan_atLeast0)
  moreover have "mem ?m (N + of_nat i) = 0" if "i < k" for i
    using poke_at [of 0 "replicate k 0" i N m] that assms(2) ok(5) by simp
  ultimately show ?thesis by blast
qed

text \<open>
  The initial stack of a process as the kernel lays it out above \<open>tk\<close>, in offsets of the region:
  \<open>argc\<close>, the pointers of \<open>argv\<close> and of the environment, each with its \<open>NULL\<close>, the auxiliary vector, and
  above them the strings.
\<close>

definition vectors :: "va \<Rightarrow> (nat \<times> byte list) list \<Rightarrow> (nat \<times> byte list) list \<Rightarrow> (u64 \<times> u64) list \<Rightarrow> u64 list" where
  "vectors B args env aux = map (ptr B) args @ [0] @ map (ptr B) env @ [0] @ aux_words aux @ [0]"

definition stack_image :: "'a machine_scheme \<Rightarrow> va \<Rightarrow> nat \<Rightarrow> nat \<Rightarrow> (nat \<times> byte list) list \<Rightarrow>
    (nat \<times> byte list) list \<Rightarrow> (u64 \<times> u64) list \<Rightarrow> bool" where
  "stack_image m B n tk args env aux \<longleftrightarrow>
     length args < 2 ^ 31 - 1 \<and>
     le_word (peek m (B + of_nat (tk + 8)) 4) = (of_nat (length args) :: u32) \<and>
     tk + 16 + 8 * length (vectors B args env aux) \<le> n \<and>
     words m B (tk + 16) (vectors B args env aux) \<and> 0 \<notin> fst ` set aux \<and>
     (\<forall>e \<in> set (args @ env). str_at m B n e \<and> tk + 16 + 8 * length (vectors B args env aux) \<le> fst e)"

lemma length_vectors: "length (vectors B args env aux) = length args + length env + 2 * length aux + 3"
  by (simp add: vectors_def)

text \<open>The relevant variable of the environment, as an entry of it.\<close>

definition env_entry :: "string \<Rightarrow> (nat \<times> byte list) list \<Rightarrow> (nat \<times> byte list) option" where
  "env_entry name env = find (\<lambda>e. prefix (bytes_of name @ [of_char CHR ''='']) (snd e)) env"

definition ld_arg :: "(nat \<times> byte list) list \<Rightarrow> nat \<times> byte list" where
  "ld_arg env = (case env_entry ''TARGET_LD'' env of None \<Rightarrow> (0, []) | Some e \<Rightarrow> (fst e + 10, drop 10 (snd e)))"

lemma scast_argc: "l < 2 ^ 31 - 1 \<Longrightarrow> scast (of_nat l + 1 :: u32) = (of_nat (l + 1) :: u64)"
proof -
  assume l: "l < 2 ^ 31 - 1"
  have "of_nat l + 1 = (of_nat (l + 1) :: u32)" by simp
  moreover have "sint (of_nat (l + 1) :: u32) = int (l + 1)"
  proof -
    have "sint (of_nat (l + 1) :: u32) = signed_take_bit 31 (int (l + 1))" by (simp only: signed_of_nat) simp
    also have "\<dots> = int (l + 1)" using l by (intro signed_take_bit_int_eq_self) simp_all
    finally show ?thesis .
  qed
  ultimately show ?thesis unfolding scast_eq by (metis of_int_of_nat_eq)
qed

lemma env_entryD:
  assumes "env_entry name env = Some e" "region_ok m B n" "\<forall>e \<in> set env. str_at m B n e"
  shows "e \<in> set env" "Suc (length name) \<le> length (snd e)" "fst e + length (snd e) < n"
    "B + of_nat (fst e + length name + 1) \<noteq> 0"
proof -
  have e: "e \<in> set env" "prefix (bytes_of name @ [of_char CHR ''='']) (snd e)"
    using find_SomeD [OF assms(1) [unfolded env_entry_def]] by blast+
  then show "e \<in> set env" "Suc (length name) \<le> length (snd e)" using prefix_length_le [OF e(2)] by simp_all
  moreover show lt: "fst e + length (snd e) < n" using assms(3) e(1) by (cases e) auto
  ultimately have "slot_ok B (fst e + length name + 1)" using assms(2) by (simp add: slot_ok_def region_ok_def)
  then have "unat (B + of_nat (fst e + length name + 1)) = unat B + (fst e + length name + 1)" by (rule unat_slot)
  then show "B + of_nat (fst e + length name + 1) \<noteq> 0" by (metis add_is_0 unat_0 zero_neq_one)
qed

lemma getenv_entry:
  assumes "env_entry name env = Some e" "region_ok m B n" "\<forall>e \<in> set env. str_at m B n e"
    "words m B k (map (ptr B) env @ [0])" "k + 8 * length env + 8 \<le> n"
  shows "getenv m (B + of_nat k) (bytes_of name) = Inr (B + of_nat (fst e + length name + 1))"
  using getenv_off [OF assms(2,4,3,5), of "bytes_of name"] assms(1) by (simp add: env_entry_def)

lemma words_copy:
  assumes "\<forall>k l. k + l \<le> n \<longrightarrow> peek m' (N + of_nat k) l = peek m (S + of_nat k) l" "k + 8 * length ws \<le> n"
  shows "words m' N k ws \<longleftrightarrow> words m S k ws"
  by (rule words_cong) (use assms in \<open>simp add: word_at_def\<close>)

lemma str_at_copy:
  assumes "\<forall>k l. k + l \<le> n \<longrightarrow> peek m' (N + of_nat k) l = peek m (S + of_nat k) l"
  shows "str_at m' N n e \<longleftrightarrow> str_at m S n e"
  using assms by (cases e) (auto simp: Suc_le_eq simp del: One_nat_def)

lemma ptr_moved: "map (\<lambda>p. p + (N - S)) (map (ptr S) es) = map (ptr N) es"
  by (simp add: ptr_def)

lemma load32_off:
  assumes "region_ok m B n" "k + 4 \<le> n" shows "load32 m (B + of_nat k) = Inr (le_word (peek m (B + of_nat k) 4))"
  using all_prot_sub [of PROT_READ m B n k 4] assms by (simp add: load32_def region_ok_def)

text \<open>The first half: the copy, and the pointers of both vectors.\<close>

lemma copy_and_relocate:
  assumes ok: "stacks_ok m S N n" and len: "unat len = n"
    and im: "stack_image m S n tk args env aux" and a: "args = a0 # as"
    and t: "env_entry ''TARGET_LD'' env = Some et"
    and envr: "environ = S + of_nat (tk + 24 + 8 * length args)"
  defines "ev \<equiv> tk + 24 + 8 * length args"
  shows "\<exists>m1 m2 m3 m4. memcpy N S len m = Inr m1 \<and>
    load32 m1 (S + of_nat (tk + 8)) = Inr (of_nat (length args)) \<and>
    load32 m1 (N + of_nat (tk + 8)) = Inr (of_nat (length args)) \<and>
    GET_AUXV_ADDR m1 (N + of_nat ev) = Inr (N + of_nat (ev + 8 * length env + 8)) \<and>
    relocate (S + of_nat (tk + 16)) (N + of_nat (tk + 16)) 0 m1 = Inr m2 \<and>
    getenv m2 environ (bytes_of ''TARGET_LD'') = Inr (S + of_nat (fst et + 10)) \<and>
    store64 (N + of_nat (tk + 16)) (ptr N (ld_arg env)) m2 = Inr m3 \<and>
    relocate (S + of_nat ev) (N + of_nat ev) 0 m3 = Inr m4 \<and>
    changes N n UNIV m m1 \<and> changes N n ({tk + 16..<tk + 16 + 8 * length args} \<union> {ev..<ev + 8 * length env}) m1 m4 \<and>
    (\<forall>k l. k + l \<le> n \<longrightarrow> peek m1 (N + of_nat k) l = peek m (S + of_nat k) l) \<and>
    words m4 N (tk + 16) (map (ptr N) (ld_arg env # as)) \<and> words m4 N ev (map (ptr N) env)"
proof -
  let ?av = "tk + 16"
  note d = stacks_okD [OF ok]
  have n: "ev + 8 * length env + 8 + 16 * length aux + 8 \<le> n"
    using im unfolding stack_image_def length_vectors ev_def by (simp add: algebra_simps)
  have w: "words m S ?av (map (ptr S) args @ [0])" "words m S ev (map (ptr S) env @ [0])"
    using im by (auto simp: stack_image_def vectors_def ev_def algebra_simps)
  have st: "\<forall>e \<in> set (args @ env). str_at m S n e" using im by (simp add: stack_image_def)
  have nz: "0 \<notin> set (map (ptr S) args)" "0 \<notin> set (map (ptr S) env)"
    using str_at_holds(2) [OF d(1)] st by (auto simp del: str_at.simps)
  obtain m1 where m1: "memcpy N S len m = Inr m1" "changes N n UNIV m m1"
    "\<forall>k l. k + l \<le> n \<longrightarrow> peek m1 (N + of_nat k) l = peek m (S + of_nat k) l"
    using memcpy_off [OF ok len] by blast
  have ok1: "stacks_ok m1 S N n" using ok changes_ok [OF m1(2)] by blast
  have argc: "load32 m1 (S + of_nat (tk + 8)) = Inr (of_nat (length args))"
    "load32 m1 (N + of_nat (tk + 8)) = Inr (of_nat (length args))"
    using load32_off [OF stacks_okD(1) [OF ok1], of "tk + 8"] load32_off [OF stacks_okD(2) [OF ok1], of "tk + 8"]
      changes_peek_apart [OF m1(2) _ d(4), of "tk + 8" 4] m1(3) n im
    by (simp_all add: stack_image_def ev_def del: of_nat_add)
  have auxv: "GET_AUXV_ADDR m1 (N + of_nat ev) = Inr (N + of_nat (ev + 8 * length env + 8))"
    using GET_AUXV_ADDR_vec [OF stacks_okD(2) [OF ok1], of ev "map (ptr S) env"] w(2) nz(2) n
      words_copy [OF m1(3), of ev "map (ptr S) env @ [0]"] by simp
  have w1: "words m1 S (?av + 8 * 0) (map (ptr S) args @ [0])"
    using w(1) words_apart [OF m1(2) _ d(4), of ?av "map (ptr S) args @ [0]"] n by (simp add: ev_def)
  obtain m2 where m2: "relocate (S + of_nat ?av) (N + of_nat ?av) 0 m1 = Inr m2"
    "changes N n {?av..<?av + 8 * length args} m1 m2" "words m2 N ?av (map (ptr N) args)"
    using relocate_vec [OF ok1 w1 nz(1)] n unfolding ptr_moved by (auto simp: ev_def)
  have ok2: "stacks_ok m2 S N n" using ok1 changes_ok [OF m2(2)] by blast
  have c02: "changes N n UNIV m m2" by (rule changes_mono [OF changes_trans [OF m1(2) m2(2)]]) simp
  have w2: "words m2 S ev (map (ptr S) env @ [0])"
    using w(2) words_apart [OF c02 _ d(4), of ev "map (ptr S) env @ [0]"] n by simp
  have st2: "\<forall>e \<in> set env. str_at m2 S n e" using st str_at_apart [OF c02 d(4)] by auto
  have g: "getenv m2 environ (bytes_of ''TARGET_LD'') = Inr (S + of_nat (fst et + 10))"
    using getenv_entry [OF t stacks_okD(1) [OF ok2] st2 w2] n unfolding envr ev_def [symmetric] by simp
  obtain m3 where m3: "store64 (N + of_nat ?av) (ptr N (ld_arg env)) m2 = Inr m3"
    "changes N n {?av..<?av + 8} m2 m3" "word_at m3 N ?av = ptr N (ld_arg env)"
    using store_off [OF ok2, of ?av] n by (auto simp: ev_def)
  have ok3: "stacks_ok m3 S N n" using ok2 changes_ok [OF m3(2)] by blast
  have w3: "words m3 S (ev + 8 * 0) (map (ptr S) env @ [0])"
    using w2 words_apart [OF m3(2) _ d(4), of ev "map (ptr S) env @ [0]"] n by simp
  obtain m4 where m4: "relocate (S + of_nat ev) (N + of_nat ev) 0 m3 = Inr m4"
    "changes N n {ev..<ev + 8 * length env} m3 m4" "words m4 N ev (map (ptr N) env)"
    using relocate_vec [OF ok3 w3 nz(2)] n unfolding ptr_moved by auto
  have "words m2 N (?av + 8) (map (ptr N) as)" using m2(3) a by simp
  then have "words m3 N (?av + 8) (map (ptr N) as)"
    using words_changes [OF m3(2), of "?av + 8" "map (ptr N) as"] d(5) n a by (simp add: ev_def)
  then have as: "words m3 N ?av (map (ptr N) (ld_arg env # as))" using m3(3) by simp
  have "words m4 N ?av (map (ptr N) (ld_arg env # as))"
    using as words_changes [OF m4(2), of ?av "map (ptr N) (ld_arg env # as)"] d(5) n a by (simp add: ev_def)
  moreover have "changes N n ({?av..<?av + 8 * length args} \<union> {ev..<ev + 8 * length env}) m1 m4"
    by (rule changes_mono [OF changes_trans [OF changes_trans [OF m2(2) m3(2)] m4(2)]]) (auto simp: a)
  ultimately show ?thesis
    by (intro exI [of _ m1] exI [of _ m2] exI [of _ m3] exI [of _ m4] conjI m1 argc auxv m2(1) g m3(1) m4(1,3))
qed

text \<open>The second half: the renamed variable, the auxiliary vector and the zeros below.\<close>

lemma rename_and_patch:
  assumes ok: "stacks_ok m S N n"
    and we: "words m N ev (map (ptr N) env @ [0])" and wx: "words m N ax (aux_words aux @ [0])"
    and nt: "0 \<notin> fst ` set aux" and st: "\<forall>e \<in> set env. str_at m N n e \<and> ax + 16 * length aux + 8 \<le> fst e"
    and lay: "tk \<le> ev" "ax = ev + 8 * length env + 8" "ax + 16 * length aux + 8 \<le> n"
  shows "\<exists>m1 m2 m3. rename_preload (N + of_nat ev) m = Inr m1 \<and>
    patchAuxv (N + of_nat ax) pnum pdr ent m1 = Inr m2 \<and> memset0 N (of_nat tk) m2 = Inr m3 \<and>
    changes N n (renamed_bytes env \<union> {ax..<ax + 16 * length aux} \<union> {..<tk}) m m3 \<and>
    words m3 N ax (aux_words (map (patch_entry pnum pdr ent) aux) @ [0]) \<and>
    (\<forall>e. find names_preload env = Some e \<longrightarrow> str_at m3 N n (to_LD e)) \<and> (\<forall>i < tk. mem m3 (N + of_nat i) = 0)"
proof -
  note d = stacks_okD [OF ok]
  obtain m1 where m1: "rename_preload (N + of_nat ev) m = Inr m1" "changes N n (renamed_bytes env) m m1"
    "\<forall>e. find names_preload env = Some e \<longrightarrow> str_at m1 N n (to_LD e)"
    using rename_preload_vec [OF ok we] st lay by fastforce
  have above: "ax + 16 * length aux + 8 \<le> x" if "x \<in> renamed_bytes env" for x
    using that st by (force simp: renamed_bytes_def split: option.splits dest: find_SomeD)
  have ok1: "stacks_ok m1 S N n" using ok changes_ok [OF m1(2)] by blast
  have "{ax..<ax + 8 * length (aux_words aux @ [0])} \<inter> renamed_bytes env = {}" using above by fastforce
  then have "words m1 N ax (aux_words aux @ [0])"
    using wx words_changes [OF m1(2), of ax "aux_words aux @ [0]"] lay(3) d(5) by simp
  then obtain m2 where m2: "patchAuxv (N + of_nat ax) pnum pdr ent m1 = Inr m2"
    "changes N n {ax..<ax + 16 * length aux} m1 m2"
    "words m2 N ax (aux_words (map (patch_entry pnum pdr ent) aux) @ [0])"
    using patchAuxv_words [OF ok1 _ nt lay(3)] by blast
  have ok2: "stacks_ok m2 S N n" using ok1 changes_ok [OF m2(2)] by blast
  obtain m3 where m3: "memset0 N (of_nat tk) m2 = Inr m3" "changes N n {..<tk} m2 m3"
    "\<forall>i < tk. mem m3 (N + of_nat i) = 0"
    using memset0_off [OF ok2, of tk] lay by auto
  let ?ws = "aux_words (map (patch_entry pnum pdr ent) aux) @ [0]"
  have "{ax..<ax + 8 * length ?ws} \<inter> {..<tk} = {}" "ax + 8 * length ?ws \<le> n" using lay by auto
  then have "words m3 N ax ?ws" using m2(3) words_changes [OF m3(2) _ d(5), of ax ?ws] by blast
  moreover have "str_at m3 N n (to_LD e)" if e: "find names_preload env = Some e" for e
  proof -
    have "ax + 16 * length aux + 8 \<le> fst e" using find_SomeD [OF e] st by blast
    then have "extent (to_LD e) \<inter> ({ax..<ax + 16 * length aux} \<union> {..<tk}) = {}"
      using lay by (auto simp: extent_def to_LD_def)
    then show ?thesis
      using str_at_changes [OF changes_trans [OF m2(2) m3(2)] d(5)] m1(3) e by blast
  qed
  moreover have "changes N n (renamed_bytes env \<union> {ax..<ax + 16 * length aux} \<union> {..<tk}) m m3"
    by (rule changes_trans [OF changes_trans [OF m1(2) m2(2)] m3(2)])
  ultimately show ?thesis using m1(1) m2(1) m3(1,3) by blast
qed

lemma renamed_extent:
  assumes "find names_preload env = Some e" shows "renamed_bytes env \<subseteq> extent e"
  using assms names_preload_length [of e] by (auto simp: renamed_bytes_def extent_def dest: find_SomeD)

text \<open>Which strings the second half leaves alone.\<close>

lemma not_renamed:
  assumes "strings_apart (args @ env)" "e \<in> set (args @ env)" "find names_preload env \<noteq> Some e"
  shows "extent e \<inter> renamed_bytes env = {}"
proof (cases "find names_preload env")
  case (Some r)
  then have "r \<in> set (args @ env)" "r \<noteq> e" using assms(3) by (auto dest: find_SomeD)
  then have "extent e \<inter> extent r = {}" using assms(1,2) unfolding strings_apart_def by blast
  then show ?thesis using renamed_extent [OF Some] by blast
qed (simp add: renamed_bytes_def)

lemma ld_not_renamed:
  assumes "strings_apart (args @ env)" "env_entry ''TARGET_LD'' env = Some et" "10 \<le> length (snd et)"
  shows "extent (fst et + 10, drop 10 (snd et)) \<inter> renamed_bytes env = {}"
proof (cases "find names_preload env = Some et")
  case True
  then show ?thesis by (auto simp: renamed_bytes_def extent_def)
next
  case False
  have "et \<in> set (args @ env)" using assms(2) by (auto simp: env_entry_def dest: find_SomeD)
  then have "extent et \<inter> renamed_bytes env = {}" using not_renamed [OF assms(1) _ False] by blast
  moreover have "extent (fst et + 10, drop 10 (snd et)) \<subseteq> extent et" using assms(3) by (auto simp: extent_def)
  ultimately show ?thesis by blast
qed

lemma strings_kept:
  assumes sa: "strings_apart (args @ env)" and a: "args = a0 # as"
    and t: "env_entry ''TARGET_LD'' env = Some et" "10 \<le> length (snd et)"
    and st: "\<forall>e \<in> set (args @ env). str_at m N n e \<and> tp \<le> fst e"
    and c: "changes N n (A \<union> renamed_bytes env) m m'" "n < 2 ^ 62" "\<forall>x \<in> A. x < tp"
    and r: "\<forall>e. find names_preload env = Some e \<longrightarrow> str_at m' N n (to_LD e)"
    and e: "e \<in> set (ld_arg env # as @ rename_first env)"
  shows "str_at m' N n e \<and> tp \<le> fst e"
proof -
  have keep: "str_at m' N n x" if "str_at m N n x" "tp \<le> fst x" "extent x \<inter> renamed_bytes env = {}" for x
  proof -
    have "extent x \<inter> A = {}" using that(2) c(3) by (fastforce simp: extent_def)
    then have "extent x \<inter> (A \<union> renamed_bytes env) = {}" using that(3) by blast
    then show ?thesis using str_at_changes [OF c(1,2)] that(1) by blast
  qed
  have dist: "distinct args" "distinct env" "set args \<inter> set env = {}" using sa by (auto simp: strings_apart_def)
  have et: "et \<in> set env" using t(1) by (auto simp: env_entry_def dest: find_SomeD)
  consider "e = ld_arg env" | "e \<in> set as" | "e \<in> set (rename_first env)" using e by auto
  then show ?thesis
  proof cases
    case 1
    have "str_at m N n (fst et + 10, drop 10 (snd et))"
      using str_at_drop [of m N n "fst et" "snd et" 10] st et t(2) by auto
    moreover have "tp \<le> fst et" using st et by auto
    ultimately show ?thesis
      using keep [OF _ _ ld_not_renamed [OF sa t]] 1 by (simp add: ld_arg_def t(1) del: str_at.simps)
  next
    case 2
    then have "find names_preload env \<noteq> Some e" "e \<in> set (args @ env)" using dist(3) a by (auto dest: find_SomeD)
    then show ?thesis using keep [OF _ _ not_renamed [OF sa]] st by blast
  next
    case 3
    show ?thesis
    proof (cases "find names_preload env")
      case None
      then have "e \<in> set (args @ env)" "find names_preload env \<noteq> Some e" using 3 by (auto simp: rename_first_none)
      then show ?thesis using keep [OF _ _ not_renamed [OF sa]] st by blast
    next
      case (Some q)
      have q: "q \<in> set env" using find_SomeD [OF Some] by blast
      from rename_first_some [OF Some dist(2) 3] show ?thesis
      proof
        assume "e = to_LD q"
        then show ?thesis using r Some st q by (auto simp: to_LD_def simp del: str_at.simps)
      next
        assume "e \<in> set env \<and> e \<noteq> q"
        then show ?thesis using keep [OF _ _ not_renamed [OF sa, of e]] st Some by (auto simp del: str_at.simps)
      qed
    qed
  qed
qed

lemma deepCopyStack_image:
  assumes ok: "stacks_ok m S N n" and len: "unat len = n"
    and im: "stack_image m S n tk args env aux" and sa: "strings_apart (args @ env)" and a: "args \<noteq> []"
    and t: "env_entry ''TARGET_LD'' env \<noteq> None" and u: "env_entry ''UH_PRELOAD'' env \<noteq> None"
    and envr: "environ = S + of_nat (tk + 24 + 8 * length args)" and nz: "S \<noteq> 0" "N \<noteq> 0"
  shows "\<exists>m'. deepCopyStack environ N S len (N + of_nat tk) (S + of_nat tk) info m = Inr (N + of_nat (tk + 8), m') \<and>
    changes N n UNIV m m' \<and>
    stack_image m' N n tk (ld_arg env # tl args) (rename_first env)
      (map (patch_entry (phnum info) (phdr info) (entryPoint info)) aux) \<and>
    (\<forall>i < tk. mem m' (N + of_nat i) = 0)"
proof -
  note d = stacks_okD [OF ok]
  obtain et eu where et: "env_entry ''TARGET_LD'' env = Some et" and eu: "env_entry ''UH_PRELOAD'' env = Some eu"
    using t u by auto
  obtain a0 as where as: "args = a0 # as" using a by (cases args) auto
  define ev where "ev = tk + 24 + 8 * length args"
  define ax where "ax = ev + 8 * length env + 8"
  define patched where "patched = map (patch_entry (phnum info) (phdr info) (entryPoint info)) aux"
  have tp: "tk + 16 + 8 * length (vectors B xs ys zs) = ax + 16 * length aux + 8"
    if "length xs = length args" "length ys = length env" "length zs = length aux" for B xs ys zs
    using that by (simp add: length_vectors ax_def ev_def)
  have n: "ax + 16 * length aux + 8 \<le> n" using im tp [of args env aux] by (simp add: stack_image_def)
  have st: "\<forall>e \<in> set (args @ env). str_at m S n e \<and> ax + 16 * length aux + 8 \<le> fst e"
    using im unfolding stack_image_def by (simp only: tp) blast
  have we: "words m S ev (map (ptr S) env @ [0])" and wx: "words m S ax (aux_words aux @ [0])"
    and w0: "words m S (tk + 16 + 8 * length args) [0]" and nt: "0 \<notin> fst ` set aux"
    using im by (simp_all add: stack_image_def vectors_def ev_def ax_def algebra_simps)
  obtain m1 m2 m3 m4 where f: "memcpy N S len m = Inr m1"
    "load32 m1 (S + of_nat (tk + 8)) = Inr (of_nat (length args))"
    "load32 m1 (N + of_nat (tk + 8)) = Inr (of_nat (length args))"
    "GET_AUXV_ADDR m1 (N + of_nat ev) = Inr (N + of_nat ax)"
    "relocate (S + of_nat (tk + 16)) (N + of_nat (tk + 16)) 0 m1 = Inr m2"
    "getenv m2 environ (bytes_of ''TARGET_LD'') = Inr (S + of_nat (fst et + 10))"
    "store64 (N + of_nat (tk + 16)) (ptr N (ld_arg env)) m2 = Inr m3"
    "relocate (S + of_nat ev) (N + of_nat ev) 0 m3 = Inr m4"
    and c1: "changes N n UNIV m m1"
    and c4: "changes N n ({tk + 16..<tk + 16 + 8 * length args} \<union> {ev..<ev + 8 * length env}) m1 m4"
    and cp: "\<forall>k l. k + l \<le> n \<longrightarrow> peek m1 (N + of_nat k) l = peek m (S + of_nat k) l"
    and w4: "words m4 N (tk + 16) (map (ptr N) (ld_arg env # as))" "words m4 N ev (map (ptr N) env)"
    using copy_and_relocate [OF ok len im as et envr] unfolding ax_def ev_def by blast
  have st1: "\<forall>e \<in> set (args @ env). str_at m1 N n e \<and> ax + 16 * length aux + 8 \<le> fst e"
    using st str_at_copy [OF cp] by blast
  have ok4: "stacks_ok m4 S N n" using ok changes_ok [OF c1] changes_ok [OF c4] by blast
  let ?V = "{tk + 16..<tk + 16 + 8 * length args} \<union> {ev..<ev + 8 * length env}"
  have st4: "str_at m4 N n e" if "e \<in> set (args @ env)" for e
  proof -
    have "ax \<le> fst e" using st that by fastforce
    then have "extent e \<inter> ?V = {}" by (auto simp: extent_def ax_def ev_def)
    then show ?thesis using str_at_changes [OF c4 d(5)] st1 that by blast
  qed
  have keep4: "words m4 N k ws" if "words m S k ws" "k + 8 * length ws \<le> n" "{k..<k + 8 * length ws} \<inter> ?V = {}" for k ws
    using words_copy [OF cp that(2)] words_changes [OF c4 that(2) d(5) that(3)] that(1) by blast
  have "words m S (ev + 8 * length env) [0]" using we by simp
  then have w4': "words m4 N (ev + 8 * length env) [0]" "words m4 N ax (aux_words aux @ [0])"
    "words m4 N (tk + 16 + 8 * length args) [0]"
    using wx w0 n by (intro keep4; force simp: ev_def ax_def)+
  have we4: "words m4 N ev (map (ptr N) env @ [0])" using w4(2) w4'(1) by simp
  have st4e: "\<forall>e \<in> set env. str_at m4 N n e \<and> ax + 16 * length aux + 8 \<le> fst e" using st4 st1 by auto
  obtain m5 m6 m7 where g: "rename_preload (N + of_nat ev) m4 = Inr m5"
    "patchAuxv (N + of_nat ax) (phnum info) (phdr info) (entryPoint info) m5 = Inr m6"
    "memset0 N (of_nat tk) m6 = Inr m7"
    and c7: "changes N n (renamed_bytes env \<union> {ax..<ax + 16 * length aux} \<union> {..<tk}) m4 m7"
    and w7: "words m7 N ax (aux_words patched @ [0])"
    and r7: "\<forall>e. find names_preload env = Some e \<longrightarrow> str_at m7 N n (to_LD e)"
    and z7: "\<forall>i < tk. mem m7 (N + of_nat i) = 0"
    using rename_and_patch [OF ok4 we4 w4'(2) nt st4e _ ax_def n, of tk "phnum info" "phdr info" "entryPoint info"]
    unfolding patched_def by (auto simp: ev_def)
  have c17: "changes N n ((?V \<union> {ax..<ax + 16 * length aux} \<union> {..<tk}) \<union> renamed_bytes env) m1 m7"
    by (rule changes_mono [OF changes_trans [OF c4 c7]]) auto
  have above: "ax + 16 * length aux + 8 \<le> x" if "x \<in> renamed_bytes env" for x
    using that st4e by (force simp: renamed_bytes_def split: option.splits dest: find_SomeD)
  let ?C = "renamed_bytes env \<union> {ax..<ax + 16 * length aux} \<union> {..<tk}"
  have ev_ax: "tk + 24 + 8 * length args \<le> ev" "ev + 8 * length env + 8 \<le> ax" by (simp_all add: ev_def ax_def)
  have free: "{k..<k + l} \<inter> ?C = {}" if "tk \<le> k" "k + l \<le> ax" for k l
    using above that by fastforce
  have keep: "words m7 N k ws" if "words m4 N k ws" "tk \<le> k" "k + 8 * length ws \<le> ax" for k ws
    using words_changes [OF c7 _ d(5) free] that n by auto
  have "words m7 N (tk + 16) (map (ptr N) (ld_arg env # as))" "words m7 N ev (map (ptr N) env)"
    "words m7 N (ev + 8 * length env) [0]" "words m7 N (tk + 16 + 8 * length args) [0]"
    by (rule keep; use w4 w4' as ev_ax in simp)+
  then have words7: "words m7 N (tk + 16) (vectors N (ld_arg env # as) (rename_first env) patched)"
    using w7 by (simp add: vectors_def as ax_def ev_def algebra_simps del: ptr_rename_first) (simp add: algebra_simps)
  have argc7: "le_word (peek m7 (N + of_nat (tk + 8)) 4) = (of_nat (length args) :: u32)"
  proof -
    have le: "tk + 8 + 4 \<le> n" using n ev_ax by simp
    have "{tk + 8..<tk + 8 + 4} \<inter> ((?V \<union> {ax..<ax + 16 * length aux} \<union> {..<tk}) \<union> renamed_bytes env) = {}"
      using above ev_ax by fastforce
    then have "peek m7 (N + of_nat (tk + 8)) 4 = peek m1 (N + of_nat (tk + 8)) 4"
      by (rule changes_peek [OF c17 le d(5)])
    then show ?thesis using cp im le by (simp add: stack_image_def del: of_nat_add)
  qed
  have len10: "10 \<le> length (snd et)" using env_entryD(2) [OF et d(1)] st by simp
  have strings7: "\<forall>e \<in> set ((ld_arg env # as) @ rename_first env). str_at m7 N n e \<and> ax + 16 * length aux + 8 \<le> fst e"
    by (intro ballI, rule strings_kept [OF sa as et len10 st1 c17 d(5) _ r7]) (use ev_ax in auto)
  have "0 \<notin> fst ` set patched" using nt by (force simp: patched_def patch_entry_def)
  moreover have "length args < 2 ^ 31 - 1" using im by (simp add: stack_image_def)
  moreover have tp7: "tk + 16 + 8 * length (vectors N (ld_arg env # as) (rename_first env) patched) = ax + 16 * length aux + 8"
    by (rule tp) (simp_all add: as patched_def)
  ultimately have image7: "stack_image m7 N n tk (ld_arg env # tl args) (rename_first env) patched"
    using argc7 n words7 strings7 unfolding stack_image_def as list.sel tp7 by (simp only: length_Cons simp_thms)
  have tgt: "getenv m environ (bytes_of ''TARGET_LD'') = Inr (S + of_nat (fst et + 10))"
    "S + of_nat (fst et + 10) \<noteq> 0"
    using getenv_entry [OF et d(1) _ we] env_entryD(4) [OF et d(1)] st n unfolding envr ev_def [symmetric]
    by (simp_all add: ax_def add.commute [of "10 :: u64"])
  obtain q where q: "getenv m environ (bytes_of ''UH_PRELOAD'') = Inr q" "q \<noteq> 0"
    using getenv_entry [OF eu d(1) _ we] env_entryD(4) [OF eu d(1)] st n unfolding envr ev_def [symmetric]
    by (auto simp: ax_def)
  have start: "B + of_nat tk \<noteq> 0" if "B \<noteq> 0" "region_ok m B n" for B
  proof -
    have "unat (B + of_nat tk) = unat B + tk"
      using that(2) n ev_ax by (intro unat_slot) (simp add: slot_ok_def region_ok_def)
    then show ?thesis using that(1) by (metis add_is_0 unat_0 unat_eq_zero)
  qed
  have addr: "GET_ARGC_ADDR (B + of_nat tk) = B + of_nat (tk + 8)" "GET_ARGV_ADDR (B + of_nat tk) = B + of_nat (tk + 16)"
    "GET_ENV_ADDR (B + of_nat (tk + 16)) (of_nat (length args)) = B + of_nat ev" for B
    using scast_argc [of "length args"] im
    by (simp_all add: GET_ARGC_ADDR_def GET_ARGV_ADDR_def GET_ENV_ADDR_def ev_def stack_image_def algebra_simps)
  have moved: "N + of_nat (tk + 16) + (S + of_nat (fst et + 10) - (S + of_nat (tk + 16))) = ptr N (ld_arg env)"
    "N + of_nat (tk + 16) - 16 - N = of_nat tk"
    by (simp_all add: ptr_def ld_arg_def et)
  have "deepCopyStack environ N S len (N + of_nat tk) (S + of_nat tk) info m = Inr (N + of_nat (tk + 8), m7)"
    unfolding deepCopyStack_def
    by (simp only: tgt q nz start [OF nz(1) d(1)] start [OF nz(2) d(2)] addr f moved g
        andThen.simps Let_def if_False simp_thms)
  moreover have "changes N n UNIV m m7" by (rule changes_mono [OF changes_trans [OF c1 c17]]) simp
  ultimately show ?thesis using image7 z7 unfolding patched_def by blast
qed

lemma words_bytes:
  assumes "peek m (B + of_nat k) (8 * length ws) = concat (map (le_bytes 8) ws)" shows "words m B k ws"
  using assms
proof (induction ws arbitrary: k)
  case (Cons w ws)
  have "peek m (B + of_nat k) 8 @ peek m (B + of_nat (k + 8)) (8 * length ws) = le_bytes 8 w @ concat (map (le_bytes 8) ws)"
    using Cons.prems peek_append [of m "B + of_nat k" 8 "8 * length ws"] by (simp add: add.assoc)
  then have "peek m (B + of_nat k) 8 = le_bytes 8 w"
    "peek m (B + of_nat (k + 8)) (8 * length ws) = concat (map (le_bytes 8) ws)"
    by simp_all
  then show ?case using Cons.IH by (simp add: word_at_def le_word_u64)
qed simp

section \<open>Properties\<close>

text \<open>
  C35. \<open>patchAuxv\<close> refines the map over the entries of the vector: it ends, the entries \<open>AT_PHNUM\<close>,
  \<open>AT_PHDR\<close> and \<open>AT_ENTRY\<close> get the values of the loaded library, all others and the order
  stay, and not a byte outside the vector is written.
\<close>

theorem patchAuxv_refines_map:
  assumes "stacks_ok m S N n" "words m N k (aux_words aux @ [AT_NULL])" "AT_NULL \<notin> fst ` set aux"
    and "k + 16 * length aux + 8 \<le> n"
  shows "\<exists>m'. patchAuxv (N + of_nat k) pnum pdr ent m = Inr m' \<and>
    words m' N k (aux_words (map (patch_entry pnum pdr ent) aux) @ [AT_NULL]) \<and>
    changes N n {k..<k + 16 * length aux} m m'"
  using patchAuxv_words [OF assms(1) assms(2,3) [unfolded AT_NULL_def] assms(4)] unfolding AT_NULL_def by blast

text \<open>
  C6. The deep copy of the initial stack. \<open>deepCopyStack\<close> succeeds and returns the address of \<open>argc\<close>
  in the new region, and the new region holds a well-formed initial stack of its own: every pointer
  of the two vectors points into the new region, at the string it pointed at before, \<open>argv[0]\<close> is
  the value of \<open>TARGET_LD\<close> and the other arguments are those of the original, the environment is the original
  one with \<open>UH\<close> turned to \<open>LD\<close> in the first entry that contains \<open>UH_PRELOAD\<close>, the auxiliary vector
  describes the loaded library, everything below the stack is zero, and nothing outside the
  new region has changed.
\<close>

theorem deepCopyStack_copies:
  assumes "stacks_ok m S N n" "unat len = n"
    and "stack_image m S n tk args env aux" "strings_apart (args @ env)" "args \<noteq> []"
    and "env_entry ''TARGET_LD'' env \<noteq> None" "env_entry ''UH_PRELOAD'' env \<noteq> None"
    and "environ = S + of_nat (tk + 24 + 8 * length args)" "S \<noteq> 0" "N \<noteq> 0"
  shows "\<exists>m'. deepCopyStack environ N S len (N + of_nat tk) (S + of_nat tk) info m = Inr (N + of_nat (tk + 8), m') \<and>
    changes N n UNIV m m' \<and>
    stack_image m' N n tk (ld_arg env # tl args) (rename_first env)
      (map (patch_entry (phnum info) (phdr info) (entryPoint info)) aux) \<and>
    (\<forall>i < tk. mem m' (N + of_nat i) = 0)"
  by (rule deepCopyStack_image [OF assms])

text \<open>A stack of 134 bytes at \<open>0x70000000\<close>, and room for its copy.\<close>

definition small_args :: "(nat \<times> byte list) list" where
  "small_args = [(104, bytes_of ''k''), (106, bytes_of ''t'')]"

definition small_env :: "(nat \<times> byte list) list" where
  "small_env = [(108, bytes_of ''TARGET_LD=/l''), (121, bytes_of ''UH_PRELOAD=u'')]"

definition small_aux :: "(u64 \<times> u64) list" where "small_aux = [(3, 64)]"

definition small_stack :: "byte list" where
  "small_stack = replicate 24 0 @ le_bytes 8 (2 :: u64) @
     concat (map (le_bytes 8) (vectors 0x70000000 small_args small_env small_aux)) @
     concat (map (\<lambda>e. snd e @ [0]) (small_args @ small_env))"

definition small_process :: machine where
  "small_process = poke 0x70000000 small_stack (empty_machine\<lparr>prot_at := (\<lambda>x.
     if in_range 0x70000000 4096 x \<or> in_range 0x50000000 4096 x then Some 3 else None)\<rparr>)"

lemma small_length: "length small_stack = 134"
  by code_simp

lemma small_peek: "i + l \<le> 134 \<Longrightarrow> peek small_process (0x70000000 + of_nat i) l = take l (drop i small_stack)"
  unfolding small_process_def using peek_poke_same [of 0 small_stack i l "0x70000000"] by (simp add: small_length)

lemma small_stacks_ok: "stacks_ok small_process 0x70000000 0x50000000 134"
proof -
  have p: "all_prot flag small_process a 134"
    if "has_flag 3 flag" "a = 0x70000000 \<or> a = 0x50000000" for flag a
    using that by (intro all_prot_range [where n = 4096]) (auto simp: small_process_def)
  have "apart 0x70000000 0x50000000 134"
    unfolding apart_def
  proof (intro allI impI notI)
    fix i j :: nat assume "i < 134" "j < 134"
    then have "unat (0x70000000 + of_nat i :: va) = 0x70000000 + i" "unat (0x50000000 + of_nat j :: va) = 0x50000000 + j"
      by (simp_all add: unat_word_ariths unat_of_nat)
    moreover assume "0x70000000 + of_nat i = (0x50000000 + of_nat j :: va)"
    ultimately have "0x70000000 + i = 0x50000000 + j" by metis
    then show False using \<open>j < 134\<close> by simp
  qed
  then show ?thesis by (simp add: stacks_ok_def region_ok_def p has_flag_def PROT_READ_def PROT_WRITE_def)
qed

lemma small_image: "stack_image small_process 0x70000000 134 16 small_args small_env small_aux"
proof -
  let ?v = "vectors 0x70000000 small_args small_env small_aux"
  have v: "length ?v = 9" by (simp add: length_vectors small_args_def small_env_def small_aux_def)
  have "peek small_process (0x70000000 + of_nat 24) 4 = take 4 (drop 24 small_stack)" by (rule small_peek) simp
  moreover have "le_word (take 4 (drop 24 small_stack)) = (2 :: u32)" by code_simp
  ultimately have argc: "le_word (peek small_process (0x70000000 + of_nat 24) 4) = (2 :: u32)" by metis
  have "peek small_process (0x70000000 + of_nat 32) 72 = take 72 (drop 32 small_stack)" by (rule small_peek) simp
  moreover have "take 72 (drop 32 small_stack) = concat (map (le_bytes 8) ?v)" by code_simp
  ultimately have words: "words small_process 0x70000000 32 ?v" by (intro words_bytes) (simp add: v)
  have "str_at small_process 0x70000000 134 e"
    if "take (Suc (length (snd e))) (drop (fst e) small_stack) = snd e @ [0] \<and> 0 < fst e \<and>
      fst e + length (snd e) < 134 \<and> 0 \<notin> set (snd e)" for e
    using that small_peek [of "fst e" "Suc (length (snd e))"] by (cases e) simp
  moreover have "list_all (\<lambda>e. take (Suc (length (snd e))) (drop (fst e) small_stack) = snd e @ [0] \<and> 0 < fst e \<and>
      fst e + length (snd e) < 134 \<and> 0 \<notin> set (snd e)) (small_args @ small_env)" by code_simp
  ultimately have "\<forall>e \<in> set (small_args @ small_env). str_at small_process 0x70000000 134 e"
    unfolding list_all_iff by blast
  moreover have "list_all (\<lambda>e. 104 \<le> fst e) (small_args @ small_env)" by code_simp
  ultimately show ?thesis
    using argc words by (simp add: stack_image_def v list_all_iff) (simp add: small_args_def small_aux_def)
qed

lemma small_apart: "strings_apart (small_args @ small_env)"
  by (auto simp: strings_apart_def extent_def small_args_def small_env_def bytes_of_def)

lemma small_entries:
  "env_entry ''TARGET_LD'' small_env \<noteq> None" "env_entry ''UH_PRELOAD'' small_env \<noteq> None"
  by code_simp+

theorem deepCopyStack_copies_witness:
  "\<exists>m'. deepCopyStack 0x70000038 0x50000000 0x70000000 134 (0x50000000 + of_nat 16) (0x70000000 + of_nat 16)
      \<lparr>baseAddr = 0, entryPoint = 0x900, phnum = 7, phdr = 0x40, mmapAddr = 0, sbrkAddr = 0\<rparr> small_process =
      Inr (0x50000000 + of_nat (16 + 8), m') \<and>
    changes 0x50000000 134 UNIV small_process m' \<and>
    stack_image m' 0x50000000 134 16 (ld_arg small_env # tl small_args) (rename_first small_env)
      (map (patch_entry 7 0x40 0x900) small_aux) \<and>
    (\<forall>i < 16. mem m' (0x50000000 + of_nat i) = 0)"
  using deepCopyStack_copies [OF small_stacks_ok _ small_image small_apart _ small_entries,
      of 134 "0x70000038" "\<lparr>baseAddr = 0, entryPoint = 0x900, phnum = 7, phdr = 0x40, mmapAddr = 0, sbrkAddr = 0\<rparr>"]
  by (simp add: small_args_def)

lemma small_aux_words:
  "words small_process 0x70000000 80 (aux_words small_aux @ [AT_NULL])" "AT_NULL \<notin> fst ` set small_aux"
proof -
  have "words small_process 0x70000000 32 (vectors 0x70000000 small_args small_env small_aux)"
    using small_image by (simp add: stack_image_def)
  then show "words small_process 0x70000000 80 (aux_words small_aux @ [AT_NULL])"
    by (simp add: vectors_def small_args_def small_env_def AT_NULL_def)
qed (simp add: small_aux_def AT_NULL_def)

lemma small_stacks_swapped: "stacks_ok small_process 0x50000000 0x70000000 134"
proof -
  have "all_prot PROT_WRITE small_process 0x70000000 134"
    by (intro all_prot_range [where n = 4096]) (auto simp: small_process_def has_flag_def PROT_WRITE_def)
  then show ?thesis using small_stacks_ok by (auto simp: stacks_ok_def apart_def) metis
qed

theorem patchAuxv_refines_map_witness:
  "\<exists>m'. patchAuxv (0x70000000 + of_nat 80) 7 0x40 0x900 small_process = Inr m' \<and>
    words m' 0x70000000 80 (aux_words (map (patch_entry 7 0x40 0x900) small_aux) @ [AT_NULL]) \<and>
    changes 0x70000000 134 {80..<80 + 16 * length small_aux} small_process m'"
  by (rule patchAuxv_refines_map [OF small_stacks_swapped small_aux_words]) (simp add: small_aux_def)

end
