(* ===== verification/Areas.thy ===== *)
theory Areas
  imports SysIO
begin

text \<open>
  \<open>ProcMapsArea\<close> of \<open>procmapsarea.h\<close>, the record of one memory region, in the layout that the
  union with \<open>_padding[4096]\<close> gives it in a checkpoint image. \<open>prot\<close> and \<open>flags\<close> are \<open>int\<close>
  members of 8-byte unions, so each has four bytes the code never writes (\<open>a_prot_pad\<close>,
  \<open>a_flags_pad\<close>); \<open>a_name\<close> is the whole array \<open>name[1024]\<close>, with whatever bytes follow the
  terminating NUL, and \<open>a_padding\<close> the rest of the page.
\<close>

definition FILENAMESIZE :: nat where "FILENAMESIZE = 1024"

record Area =
  a_addr :: va
  a_endAddr :: va
  a_size :: u64
  a_offset :: u64
  a_prot :: u32
  a_prot_pad :: u32
  a_flags :: u32
  a_flags_pad :: u32
  a_devmajor :: u64
  a_devminor :: u64
  a_inodenum :: u64
  a_properties :: u64
  a_name :: "byte list"
  a_padding :: "byte list"

definition sizeof_Area :: nat where "sizeof_Area = 4096"

definition area_ok :: "Area \<Rightarrow> bool" where
  "area_ok a \<longleftrightarrow> length (a_name a) = FILENAMESIZE \<and> length (a_padding a) = 2992"

definition area_bytes :: "Area \<Rightarrow> byte list" where
  "area_bytes a =
     le_bytes 8 (a_addr a) @ le_bytes 8 (a_endAddr a) @ le_bytes 8 (a_size a) @
     le_bytes 8 (a_offset a) @ le_bytes 4 (a_prot a) @ le_bytes 4 (a_prot_pad a) @
     le_bytes 4 (a_flags a) @ le_bytes 4 (a_flags_pad a) @ le_bytes 8 (a_devmajor a) @
     le_bytes 8 (a_devminor a) @ le_bytes 8 (a_inodenum a) @ le_bytes 8 (a_properties a) @
     a_name a @ a_padding a"

definition area_of_bytes :: "byte list \<Rightarrow> Area" where
  "area_of_bytes bs = \<lparr>
     a_addr = le_word (take 8 bs), a_endAddr = le_word (take 8 (drop 8 bs)),
     a_size = le_word (take 8 (drop 16 bs)), a_offset = le_word (take 8 (drop 24 bs)),
     a_prot = le_word (take 4 (drop 32 bs)), a_prot_pad = le_word (take 4 (drop 36 bs)),
     a_flags = le_word (take 4 (drop 40 bs)), a_flags_pad = le_word (take 4 (drop 44 bs)),
     a_devmajor = le_word (take 8 (drop 48 bs)), a_devminor = le_word (take 8 (drop 56 bs)),
     a_inodenum = le_word (take 8 (drop 64 bs)), a_properties = le_word (take 8 (drop 72 bs)),
     a_name = take FILENAMESIZE (drop 80 bs), a_padding = drop 1104 bs\<rparr>"

interpretation area_codec: codec area_bytes area_of_bytes sizeof_Area area_ok
  by unfold_locales
    (simp_all add: area_ok_def area_bytes_def area_of_bytes_def FILENAMESIZE_def sizeof_Area_def
      codec_simps)

text \<open>The name of an area as the C string the code searches.\<close>

definition area_name :: "Area \<Rightarrow> byte list" where
  "area_name a = cstr (a_name a)"

text \<open>An area whose fields agree with each other: what \<open>readMapsLine\<close> produces.\<close>

definition area_consistent :: "Area \<Rightarrow> bool" where
  "area_consistent a \<longleftrightarrow> a_addr a \<le> a_endAddr a \<and> a_size a = a_endAddr a - a_addr a"

lemma area_consistent_end: "area_consistent a \<Longrightarrow> a_addr a + a_size a = a_endAddr a"
  by (simp add: area_consistent_def)

lemma area_consistent_no_wrap: "area_consistent a \<Longrightarrow> no_wrap (a_addr a) (a_size a)"
  using unat_u64 [of "a_endAddr a"]
  by (simp add: area_consistent_def no_wrap_def unat_sub word_le_nat_alt)

end
