(* ===== verification/ProcMaps.thy ===== *)
theory ProcMaps
  imports Areas SysIO
begin

text \<open>
  The parser of \<open>/proc/self/maps\<close> (\<open>procmapsutils.c\<close>), byte by byte over an open file. Every
  branch that reaches \<open>skipeol\<close> ends in \<open>abort()\<close>.
\<close>

section \<open>Characters and numbers\<close>

definition ch :: "char \<Rightarrow> byte" where
  "ch c = of_char c"

definition NEWLINE :: byte where "NEWLINE = 10"

function readChar :: "ofile \<Rightarrow> byte \<times> ofile" where
  "readChar f =
     (case sys_read 1 f of
        (ReadErr e, f') \<Rightarrow> if e = EINTR then readChar f' else (0, f')
      | (Data d, f') \<Rightarrow> if d = [] then (0, f') else (hd d, f'))"
  by pat_completeness auto
termination
  by (relation "measure (\<lambda>f. length (answers f))")
     (auto simp: sys_read.simps Let_def split: list.splits answer.splits)

declare readChar.simps [simp del]

text \<open>What is left to consume: bytes of the file and interruptions.\<close>

definition fuel_of :: "ofile \<Rightarrow> nat" where
  "fuel_of f = length (answers f) + length (pending f)"

lemma sys_read_1_fuel:
  assumes "sys_read 1 f = (r, f')"
  shows "fuel_of f' \<le> fuel_of f \<and> ((r = ReadErr e \<or> (\<exists>d. r = Data d \<and> d \<noteq> [])) \<longrightarrow> fuel_of f' < fuel_of f)"
  using assms
  by (auto simp: sys_read.simps fuel_of_def Let_def pending_def min_def
      split: list.splits answer.splits if_splits)

lemma readChar_fuel: "readChar f = (c, f') \<Longrightarrow> fuel_of f' \<le> fuel_of f \<and> (c \<noteq> 0 \<longrightarrow> fuel_of f' < fuel_of f)"
proof (induction f arbitrary: c f' rule: readChar.induct)
  case (1 f)
  obtain r g where rd: "sys_read 1 f = (r, g)" by fastforce
  note unfolded = "1.prems" [unfolded readChar.simps [of f] rd]
  show ?case
  proof (cases r)
    case (Data d)
    then show ?thesis
      using sys_read_1_fuel [OF rd] unfolded by (auto split: if_splits)
  next
    case (ReadErr e)
    show ?thesis
    proof (cases "e = EINTR")
      case True
      then show ?thesis
        using "1.IH" [OF rd [symmetric] ReadErr True, of c f'] sys_read_1_fuel [OF rd] unfolded ReadErr
        by fastforce
    next
      case False
      then show ?thesis
        using sys_read_1_fuel [OF rd] unfolded ReadErr by auto
    qed
  qed
qed

lemma readChar_fuel_le: "(c, f') = readChar f \<Longrightarrow> fuel_of f' \<le> fuel_of f"
  using readChar_fuel [of f c f'] by simp

lemma readChar_fuel_less: "(c, f') = readChar f \<Longrightarrow> c \<noteq> 0 \<Longrightarrow> fuel_of f' < fuel_of f"
  using readChar_fuel [of f c f'] by simp

text \<open>
  The C characters are signed, the bytes here are not; a byte above 127 fails the upper bound of
  every range below where the signed character fails the lower one.
\<close>

definition is_dec :: "byte \<Rightarrow> bool" where
  "is_dec c \<longleftrightarrow> c \<ge> ch CHR ''0'' \<and> c \<le> ch CHR ''9''"

lemma is_dec_nonzero: "is_dec c \<Longrightarrow> c \<noteq> 0"
  by (auto simp: is_dec_def ch_def)

function readDec_loop :: "u64 \<Rightarrow> ofile \<Rightarrow> byte \<times> u64 \<times> ofile" where
  "readDec_loop v f =
     (let (c, f') = readChar f
      in if is_dec c then readDec_loop (v * 10 + ucast (c - ch CHR ''0'')) f' else (c, v, f'))"
  by pat_completeness auto
termination
  by (relation "measure (\<lambda>(v, f). fuel_of f)")
     (auto intro: readChar_fuel_less dest: is_dec_nonzero)

text \<open>The terminating character, the value and the file after both.\<close>

definition readDec :: "ofile \<Rightarrow> byte \<times> u64 \<times> ofile" where
  "readDec f = readDec_loop 0 f"

text \<open>The value of a hexadecimal digit, \<open>None\<close> for any other character.\<close>

definition hex_digit :: "byte \<Rightarrow> byte option" where
  "hex_digit c =
     (if c \<ge> ch CHR ''0'' \<and> c \<le> ch CHR ''9'' then Some (c - ch CHR ''0'')
      else if c \<ge> ch CHR ''a'' \<and> c \<le> ch CHR ''f'' then Some (c - (ch CHR ''a'' - 10))
      else if c \<ge> ch CHR ''A'' \<and> c \<le> ch CHR ''F'' then Some (c - (ch CHR ''A'' - 10))
      else None)"

lemma hex_digit_nonzero: "hex_digit c = Some d \<Longrightarrow> c \<noteq> 0"
  by (auto simp: hex_digit_def ch_def)

function readHex_loop :: "u64 \<Rightarrow> ofile \<Rightarrow> byte \<times> u64 \<times> ofile" where
  "readHex_loop v f =
     (let (c, f') = readChar f
      in case hex_digit c of
           Some d \<Rightarrow> readHex_loop (v * 16 + ucast d) f'
         | None \<Rightarrow> (c, v, f'))"
  by pat_completeness auto
termination
  by (relation "measure (\<lambda>(v, f). fuel_of f)")
     (auto intro: readChar_fuel_less dest: hex_digit_nonzero)

definition readHex :: "ofile \<Rightarrow> byte \<times> u64 \<times> ofile" where
  "readHex f = readHex_loop 0 f"

declare readDec_loop.simps [simp del] readHex_loop.simps [simp del]

section \<open>One line\<close>

text \<open>\<open>while (c == ' ') c = readChar(mapsfd)\<close>\<close>

function skip_spaces :: "byte \<Rightarrow> ofile \<Rightarrow> byte \<times> ofile" where
  "skip_spaces c f =
     (if c = ch CHR '' '' then (let (c', f') = readChar f in skip_spaces c' f') else (c, f))"
  by pat_completeness auto
termination
proof (relation "measure (\<lambda>(c, f). fuel_of f + (if c = 0 then 0 else 1))")
  fix c x c' and f f' :: ofile
  assume c: "c = ch CHR '' ''" and "x = readChar f" "(c', f') = x"
  then have "(c', f') = readChar f" by simp
  from readChar_fuel_le [OF this] readChar_fuel_less [OF this] c
  show "((c', f'), c, f) \<in> measure (\<lambda>(c, f). fuel_of f + (if c = 0 then 0 else 1))"
    by (auto simp: ch_def)
qed simp

text \<open>The loop of \<open>skipeol\<close>, which prints the rest of the line before \<open>abort()\<close>.\<close>

function skip_line :: "byte \<Rightarrow> ofile \<Rightarrow> ofile" where
  "skip_line c f =
     (if c \<noteq> NEWLINE \<and> c \<noteq> 0 then (let (c', f') = readChar f in skip_line c' f') else f)"
  by pat_completeness auto
termination
proof (relation "measure (\<lambda>(c, f). fuel_of f + (if c = 0 then 0 else 1))")
  fix c x c' and f f' :: ofile
  assume c: "c \<noteq> NEWLINE \<and> c \<noteq> 0" and "x = readChar f" "(c', f') = x"
  then have "(c', f') = readChar f" by simp
  from readChar_fuel_le [OF this] readChar_fuel_less [OF this] c
  show "((c', f'), c, f) \<in> measure (\<lambda>(c, f). fuel_of f + (if c = 0 then 0 else 1))"
    by auto
qed simp

declare skip_spaces.simps [simp del] skip_line.simps [simp del]

definition skipeol :: "byte \<Rightarrow> ofile \<Rightarrow> 'a run" where
  "skipeol c f = (let f' = skip_line c f in Inl Abort)"

text \<open>
  The loop that copies the name. \<open>None\<close> is the jump to \<open>skipeol\<close> when the array is full; \<open>i\<close> counts
  up from 0, so the test for equality with the size of the array is the test below.
\<close>

function readName :: "nat \<Rightarrow> byte \<Rightarrow> Area \<Rightarrow> ofile \<Rightarrow> (byte \<times> Area \<times> ofile) option" where
  "readName i c area f =
     (let area = area\<lparr>a_name := (a_name area)[i := c]\<rparr>
      in if FILENAMESIZE \<le> Suc i then None
         else (let (c', f') = readChar f
               in if c' \<noteq> NEWLINE then readName (Suc i) c' area f'
                  else Some (c', area\<lparr>a_name := (a_name area)[Suc i := 0]\<rparr>, f')))"
  by pat_completeness auto
termination
  by (relation "measure (\<lambda>(i, c, area, f). FILENAMESIZE - i)") auto

declare readName.simps [simp del]

text \<open>The assignments after the last check.\<close>

definition set_area ::
  "va \<Rightarrow> va \<Rightarrow> byte \<Rightarrow> byte \<Rightarrow> byte \<Rightarrow> byte \<Rightarrow> u64 \<Rightarrow> u64 \<Rightarrow> u64 \<Rightarrow> Area \<Rightarrow> Area" where
  "set_area startaddr endaddr rflag wflag xflag sflag devmajor devminor inodenum area =
     area\<lparr>a_addr := startaddr, a_endAddr := endaddr, a_size := endaddr - startaddr,
       a_prot := (if rflag = ch CHR ''r'' then PROT_READ else 0) OR
                 (if wflag = ch CHR ''w'' then PROT_WRITE else 0) OR
                 (if xflag = ch CHR ''x'' then PROT_EXEC else 0),
       a_flags := MAP_FIXED OR
                  (if sflag = ch CHR ''s'' then MAP_SHARED else 0) OR
                  (if sflag = ch CHR ''p'' then MAP_PRIVATE else 0) OR
                  (if a_name area ! 0 = 0 then MAP_ANONYMOUS else 0),
       a_devmajor := devmajor, a_devminor := devminor, a_inodenum := inodenum\<rparr>"

definition readMapsLine :: "ofile \<Rightarrow> Area \<Rightarrow> (int \<times> Area \<times> ofile) run" where
  "readMapsLine f area =
     (let (c, startaddr, f) = readHex f in
      if c \<noteq> ch CHR ''-'' then
        (if c = 0 \<and> startaddr = 0 then Inr (0, area, f) else skipeol c f)
      else let (c, endaddr, f) = readHex f in
      if c \<noteq> ch CHR '' '' then skipeol c f
      else if endaddr < startaddr then skipeol c f
      else let (rflag, f) = readChar f in
      if rflag \<noteq> ch CHR ''r'' \<and> rflag \<noteq> ch CHR ''-'' then skipeol rflag f
      else let (wflag, f) = readChar f in
      if wflag \<noteq> ch CHR ''w'' \<and> wflag \<noteq> ch CHR ''-'' then skipeol wflag f
      else let (xflag, f) = readChar f in
      if xflag \<noteq> ch CHR ''x'' \<and> xflag \<noteq> ch CHR ''-'' then skipeol xflag f
      else let (sflag, f) = readChar f in
      if sflag \<noteq> ch CHR ''s'' \<and> sflag \<noteq> ch CHR ''p'' then skipeol sflag f
      else let (c, f) = readChar f in
      if c \<noteq> ch CHR '' '' then skipeol c f
      else let (c, offset, f) = readHex f in
      if c \<noteq> ch CHR '' '' then skipeol c f
      else let area = area\<lparr>a_offset := offset\<rparr>; (c, devmajor, f) = readHex f in
      if c \<noteq> ch CHR '':'' then skipeol c f
      else let (c, devminor, f) = readHex f in
      if c \<noteq> ch CHR '' '' then skipeol c f
      else let (c, inodenum, f) = readDec f;
               area = area\<lparr>a_name := (a_name area)[0 := 0]\<rparr>;
               (c, f) = skip_spaces c f in
      case (if c = ch CHR ''/'' \<or> c = ch CHR ''['' then readName 0 c area f
            else Some (c, area, f)) of
        None \<Rightarrow> skipeol c f
      | Some (c, area, f) \<Rightarrow>
          if c \<noteq> NEWLINE then skipeol c f
          else Inr (1, set_area startaddr endaddr rflag wflag xflag sflag
                         devmajor devminor inodenum area, f))"

section \<open>Reading what is there\<close>

text \<open>
  A file that feeds a byte list: that list is what is left of it, and its calls are only
  interrupted by signals or cut short (an \<open>EAGAIN\<close>, which \<open>readChar\<close> takes for the end of the
  file, does not occur on a file of \<open>/proc\<close>).
\<close>

definition feeds :: "ofile \<Rightarrow> byte list \<Rightarrow> bool" where
  "feeds f s \<longleftrightarrow> pending f = s \<and>
     list_all (\<lambda>a. case a of Transfer n \<Rightarrow> 0 < n | Fail e \<Rightarrow> e = EINTR) (answers f)"

lemma drop_Suc_tail: "drop n xs = a # l \<Longrightarrow> drop (Suc n) xs = l"
  by (metis drop_Suc list.sel(3) tl_drop)

lemma readChar_feeds:
  assumes "feeds f s"
  shows "\<exists>f'. readChar f = ((case s of [] \<Rightarrow> 0 | c # r \<Rightarrow> c), f') \<and> feeds f' (tl s)"
  using assms
proof (induction f rule: readChar.induct)
  case (1 f)
  note eq = readChar.simps [of f]
  show ?case
  proof (cases "answers f")
    case Nil
    with "1.prems" show ?thesis
      by (cases s) (auto simp: eq sys_read.simps Let_def feeds_def pending_def drop_Suc_tail)
  next
    case (Cons a as)
    show ?thesis
    proof (cases a)
      case (Transfer n)
      then obtain m where "n = Suc m"
        using "1.prems" Cons by (cases n) (auto simp: feeds_def)
      with Cons Transfer "1.prems" show ?thesis
        by (cases s) (auto simp: eq sys_read.simps Let_def feeds_def pending_def drop_Suc_tail)
    next
      case (Fail e)
      with Cons "1.prems" have e: "e = EINTR" by (auto simp: feeds_def)
      have rd: "sys_read 1 f = (ReadErr EINTR, f\<lparr>answers := as\<rparr>)"
        using Cons Fail e by (simp add: sys_read.simps)
      have "feeds (f\<lparr>answers := as\<rparr>) s"
        using "1.prems" Cons by (auto simp: feeds_def)
      from "1.IH" [OF rd [symmetric] refl refl this] show ?thesis
        by (simp add: eq rd [simplified])
    qed
  qed
qed

lemma readChar_Cons:
  assumes "feeds f (c # r)" obtains f' where "readChar f = (c, f')" "feeds f' r"
  using readChar_feeds [OF assms] that by auto

lemma readChar_Nil:
  assumes "feeds f []" obtains f' where "readChar f = (0, f')" "feeds f' []"
  using readChar_feeds [OF assms] that by auto

text \<open>
  \<open>readDec\<close> and \<open>readHex\<close> are one algorithm for two bases: what they share is the equation of
  their loop, and everything said of them below follows from it.
\<close>

locale digit_reader =
  fixes base :: u64
    and dig :: "byte \<Rightarrow> u64 option"
    and loop :: "u64 \<Rightarrow> ofile \<Rightarrow> byte \<times> u64 \<times> ofile"
  assumes loop_eq: "loop v f = (let (c, f') = readChar f
      in case dig c of Some d \<Rightarrow> loop (v * base + d) f' | None \<Rightarrow> (c, v, f'))"
begin

lemma loop_digits:
  assumes "feeds f (ds @ c # r)" "map dig ds = map Some vs" "dig c = None"
  shows "\<exists>f'. loop v f = (c, foldl (\<lambda>v d. v * base + d) v vs, f') \<and> feeds f' r"
  using assms
proof (induction ds arbitrary: f v vs)
  case Nil
  then obtain f' where "readChar f = (c, f')" "feeds f' r" by (auto elim: readChar_Cons)
  with Nil show ?case by (auto simp: loop_eq [of v f])
next
  case (Cons x ds)
  then obtain d vs' where vs: "vs = d # vs'" "dig x = Some d" "map dig ds = map Some vs'"
    by (cases vs) auto
  from Cons.prems(1) obtain f' where f': "readChar f = (x, f')" "feeds f' (ds @ c # r)"
    by (auto elim: readChar_Cons)
  from Cons.IH [OF f'(2) vs(3) Cons.prems(3), of "v * base + d"] f'(1) vs show ?case
    by (auto simp: loop_eq [of v f])
qed

lemma loop_end:
  assumes "feeds f []" "dig 0 = None"
  shows "\<exists>f'. loop v f = (0, v, f') \<and> feeds f' []"
proof -
  from assms(1) obtain f' where "readChar f = (0, f')" "feeds f' []" by (rule readChar_Nil)
  with assms(2) show ?thesis by (auto simp: loop_eq [of v f])
qed

end

definition dec_val :: "byte \<Rightarrow> u64 option" where
  "dec_val c = (if is_dec c then Some (ucast (c - ch CHR ''0'')) else None)"

definition hex_val :: "byte \<Rightarrow> u64 option" where
  "hex_val c = map_option ucast (hex_digit c)"

interpretation dec: digit_reader 10 dec_val readDec_loop
  by unfold_locales (subst readDec_loop.simps, simp add: dec_val_def split: prod.split)

interpretation hex: digit_reader 16 hex_val readHex_loop
  by unfold_locales (subst readHex_loop.simps, simp add: hex_val_def split: prod.split option.split)

section \<open>The format of /proc/self/maps\<close>

text \<open>
  One line of \<open>/proc/<pid>/maps\<close> in the format proc(5) documents: start and end of the mapping in
  hexadecimal (at least eight digits), permissions, offset (at least eight hexadecimal digits),
  device (at least two), inode in decimal, blanks, and the path or a bracketed name.
\<close>

record maps_entry =
  e_start :: va
  e_end :: va
  e_read :: bool
  e_write :: bool
  e_exec :: bool
  e_shared :: bool
  e_offset :: u64
  e_major :: u64
  e_minor :: u64
  e_inode :: u64
  e_blanks :: nat
  e_name :: "byte list"

fun digits :: "nat \<Rightarrow> nat \<Rightarrow> nat list" where
  "digits b n = (if n < b \<or> b < 2 then [n] else digits b (n div b) @ [n mod b])"

declare digits.simps [simp del]

definition digit_char :: "nat \<Rightarrow> byte" where
  "digit_char d = (if d < 10 then ch CHR ''0'' + of_nat d else ch CHR ''a'' + of_nat (d - 10))"

definition hex_str :: "nat \<Rightarrow> u64 \<Rightarrow> byte list" where
  "hex_str w x = (let ds = digits 16 (unat x)
     in map digit_char (replicate (w - length ds) 0 @ ds))"

definition dec_str :: "u64 \<Rightarrow> byte list" where
  "dec_str x = map digit_char (digits 10 (unat x))"

definition entry_line :: "maps_entry \<Rightarrow> byte list" where
  "entry_line e =
     hex_str 8 (e_start e) @ [ch CHR ''-''] @ hex_str 8 (e_end e) @ [ch CHR '' ''] @
     [if e_read e then ch CHR ''r'' else ch CHR ''-'', if e_write e then ch CHR ''w'' else ch CHR ''-'',
      if e_exec e then ch CHR ''x'' else ch CHR ''-'', if e_shared e then ch CHR ''s'' else ch CHR ''p''] @
     [ch CHR '' ''] @ hex_str 8 (e_offset e) @ [ch CHR '' ''] @ hex_str 2 (e_major e) @ [ch CHR '':''] @
     hex_str 2 (e_minor e) @ [ch CHR '' ''] @ dec_str (e_inode e) @
     replicate (e_blanks e) (ch CHR '' '') @ e_name e @ [NEWLINE]"

text \<open>Entries the parser is made for; the kernel writes a blank after the inode.\<close>

definition entry_ok :: "maps_entry \<Rightarrow> bool" where
  "entry_ok e \<longleftrightarrow> e_start e \<le> e_end e \<and> length (e_name e) < FILENAMESIZE \<and> NEWLINE \<notin> set (e_name e) \<and>
     0 \<notin> set (e_name e) \<and> 0 < e_blanks e \<and>
     (e_name e = [] \<or> hd (e_name e) = ch CHR ''/'' \<or> hd (e_name e) = ch CHR ''['')"

text \<open>The area the code builds for an entry, from the area it is given to fill in.\<close>

definition entry_area :: "maps_entry \<Rightarrow> Area \<Rightarrow> Area" where
  "entry_area e area = area\<lparr>
     a_addr := e_start e, a_endAddr := e_end e, a_size := e_end e - e_start e,
     a_offset := e_offset e,
     a_prot := (if e_read e then PROT_READ else 0) OR (if e_write e then PROT_WRITE else 0) OR
               (if e_exec e then PROT_EXEC else 0),
     a_flags := MAP_FIXED OR (if e_shared e then MAP_SHARED else MAP_PRIVATE) OR
               (if e_name e = [] then MAP_ANONYMOUS else 0),
     a_devmajor := e_major e, a_devminor := e_minor e, a_inodenum := e_inode e,
     a_name := e_name e @ 0 # drop (Suc (length (e_name e))) (a_name area)\<rparr>"

subsection \<open>Digits\<close>

lemma foldl_digits:
  assumes "2 \<le> b"
  shows "foldl (\<lambda>v d. v * b + d) 0 (digits b n) = n"
proof (induction b n rule: digits.induct)
  case (1 b n)
  show ?case
  proof (cases "n < b \<or> b < 2")
    case True
    then show ?thesis by (simp add: digits.simps [of b n])
  next
    case False
    with 1 show ?thesis by (simp add: digits.simps [of b n])
  qed
qed

lemma digits_less: "2 \<le> b \<Longrightarrow> d \<in> set (digits b n) \<Longrightarrow> d < b"
proof (induction b n rule: digits.induct)
  case (1 b n)
  then show ?case
    by (cases "n < b \<or> b < 2") (auto simp: digits.simps [of b n])
qed

lemma foldl_of_nat:
  "foldl (\<lambda>v d. v * of_nat b + d) (of_nat n) (map of_nat ds) = (of_nat (foldl (\<lambda>v d. v * b + d) n ds) :: 'a::len word)"
proof (induction ds arbitrary: n)
  case (Cons d ds)
  from Cons [of "n * b + d"] show ?case by simp
qed simp

lemma foldl_zeros: "foldl (\<lambda>v d. v * b + d) (0::nat) (replicate k 0 @ ds) = foldl (\<lambda>v d. v * b + d) 0 ds"
  by (induction k) simp_all

lemma hex_val_digit_char: "d < 16 \<Longrightarrow> hex_val (digit_char d) = Some (of_nat d)"
proof -
  assume "d < 16"
  then have "d \<in> set [0..<16]" by simp
  then show ?thesis
    by (simp add: upt_rec) (elim disjE; simp add: hex_val_def hex_digit_def digit_char_def ch_def)
qed

lemma dec_val_digit_char: "d < 10 \<Longrightarrow> dec_val (digit_char d) = Some (of_nat d)"
proof -
  assume "d < 10"
  then have "d \<in> set [0..<10]" by simp
  then show ?thesis
    by (simp add: upt_rec) (elim disjE; simp add: dec_val_def is_dec_def digit_char_def ch_def)
qed

lemma readHex_hex_str:
  assumes "feeds f (hex_str w x @ c # r)" "hex_val c = None"
  obtains f' where "readHex f = (c, x, f')" "feeds f' r"
proof -
  define ds where "ds = replicate (w - length (digits 16 (unat x))) 0 @ digits 16 (unat x)"
  have str: "hex_str w x = map digit_char ds" by (simp add: hex_str_def ds_def Let_def)
  have lt: "\<forall>d \<in> set ds. d < 16" using digits_less [of 16] by (auto simp: ds_def)
  have vals: "map hex_val (hex_str w x) = map Some (map of_nat ds)"
    using lt by (simp add: str hex_val_digit_char)
  have "foldl (\<lambda>v d. v * 16 + d) 0 ds = unat x"
    unfolding ds_def foldl_zeros by (rule foldl_digits) simp
  then have "foldl (\<lambda>v d. v * 16 + d) (0 :: u64) (map of_nat ds) = x"
    using foldl_of_nat [of 16 0 ds, where 'a = 64] by simp
  with hex.loop_digits [OF assms(1) vals assms(2), of 0] that show thesis
    by (auto simp: readHex_def)
qed

lemma readDec_dec_str:
  assumes "feeds f (dec_str x @ c # r)" "dec_val c = None"
  obtains f' where "readDec f = (c, x, f')" "feeds f' r"
proof -
  let ?ds = "digits 10 (unat x)"
  have lt: "\<forall>d \<in> set ?ds. d < 10" using digits_less [of 10] by auto
  have vals: "map dec_val (dec_str x) = map Some (map of_nat ?ds)"
    using lt by (simp add: dec_str_def dec_val_digit_char)
  have "foldl (\<lambda>v d. v * 10 + d) (0 :: u64) (map of_nat ?ds) = x"
    using foldl_of_nat [of 10 0 ?ds, where 'a = 64] by (simp add: foldl_digits)
  with dec.loop_digits [OF assms(1) vals assms(2), of 0] that show thesis
    by (auto simp: readDec_def)
qed

subsection \<open>Blanks and names\<close>

lemma skip_spaces_feeds:
  assumes "feeds f (replicate k (ch CHR '' '') @ x # r)" "x \<noteq> ch CHR '' ''"
  obtains f' where "skip_spaces (ch CHR '' '') f = (x, f')" "feeds f' r"
  using assms
proof (induction k arbitrary: f thesis)
  case 0
  then obtain f' where f': "readChar f = (x, f')" "feeds f' r" by (auto elim: readChar_Cons)
  then have "skip_spaces (ch CHR '' '') f = (x, f')"
    using "0.prems"(3) by (simp add: skip_spaces.simps [of "ch CHR '' ''"] skip_spaces.simps [of x])
  with f' "0.prems"(1) show ?case by blast
next
  case (Suc k)
  then obtain g where g: "readChar f = (ch CHR '' '', g)" "feeds g (replicate k (ch CHR '' '') @ x # r)"
    by (auto elim: readChar_Cons)
  from Suc.IH [OF _ g(2) Suc.prems(3)] obtain f' where
    "skip_spaces (ch CHR '' '') g = (x, f')" "feeds f' r" by blast
  then show ?case
    using Suc.prems(1) g(1) by (subst (asm) (2) skip_spaces.simps) (simp add: skip_spaces.simps [of _ f])
qed

lemma list_update_append_exact:
  "length pre = i \<Longrightarrow> i < length xs \<Longrightarrow> (pre @ drop i xs)[i := c] = (pre @ [c]) @ drop (Suc i) xs"
  by (simp add: list_update_append Cons_nth_drop_Suc [symmetric])

lemma readName_feeds:
  assumes "feeds f (cs @ NEWLINE # r)" "NEWLINE \<notin> set cs" "length pre = i"
    "Suc i + length cs < FILENAMESIZE" "length xs = FILENAMESIZE"
  shows "\<exists>f'. readName i c (area\<lparr>a_name := pre @ drop i xs\<rparr>) f =
      Some (NEWLINE, area\<lparr>a_name := pre @ c # cs @ 0 # drop (Suc (Suc i) + length cs) xs\<rparr>, f') \<and>
    feeds f' r"
  using assms
proof (induction cs arbitrary: i c pre f)
  case Nil
  then obtain f' where f': "readChar f = (NEWLINE, f')" "feeds f' r" by (auto elim: readChar_Cons)
  from Nil have upd: "(pre @ drop i xs)[i := c] = (pre @ [c]) @ drop (Suc i) xs"
    by (intro list_update_append_exact) simp_all
  from Nil have "((pre @ [c]) @ drop (Suc i) xs)[Suc i := 0] = ((pre @ [c]) @ [0]) @ drop (Suc (Suc i)) xs"
    by (intro list_update_append_exact) simp_all
  with f' upd Nil show ?case by (simp add: readName.simps [of i c])
next
  case (Cons x cs)
  then obtain g where g: "readChar f = (x, g)" "feeds g (cs @ NEWLINE # r)"
    by (auto elim: readChar_Cons)
  have upd: "(pre @ drop i xs)[i := c] = (pre @ [c]) @ drop (Suc i) xs"
    using Cons.prems by (intro list_update_append_exact) simp_all
  have "x \<noteq> NEWLINE" using Cons.prems(2) by auto
  with Cons.prems upd g(1) have
    "readName i c (area\<lparr>a_name := pre @ drop i xs\<rparr>) f =
       readName (Suc i) x (area\<lparr>a_name := (pre @ [c]) @ drop (Suc i) xs\<rparr>) g"
    by (simp add: readName.simps [of i c])
  with Cons.IH [OF g(2), of "pre @ [c]" "Suc i" x] Cons.prems show ?case by simp
qed

subsection \<open>Whole lines\<close>

lemma delimiters [simp]:
  "hex_val (ch CHR ''-'') = None" "hex_val (ch CHR '' '') = None" "hex_val (ch CHR '':'') = None"
  "dec_val (ch CHR '' '') = None" "hex_val 0 = None"
  by (simp_all add: hex_val_def hex_digit_def dec_val_def is_dec_def ch_def)

lemma flag_chars [simp]:
  "ch CHR ''r'' \<noteq> ch CHR ''-''" "ch CHR ''w'' \<noteq> ch CHR ''-''" "ch CHR ''x'' \<noteq> ch CHR ''-''"
  "ch CHR ''-'' \<noteq> ch CHR ''r''" "ch CHR ''-'' \<noteq> ch CHR ''w''" "ch CHR ''-'' \<noteq> ch CHR ''x''"
  "ch CHR ''s'' \<noteq> ch CHR ''p''" "ch CHR ''p'' \<noteq> ch CHR ''s''"
  by (simp_all add: ch_def)

lemma readMapsLine_name:
  assumes "feeds f (replicate k (ch CHR '' '') @ name @ [NEWLINE] @ r)"
    "NEWLINE \<notin> set name" "length name < FILENAMESIZE" "length (a_name area) = FILENAMESIZE"
    "name = [] \<or> hd name = ch CHR ''/'' \<or> hd name = ch CHR ''[''"
  obtains f' c g where "skip_spaces (ch CHR '' '') f = (c, g)"
    "(if c = ch CHR ''/'' \<or> c = ch CHR ''['' then readName 0 c (area\<lparr>a_name := (a_name area)[0 := 0]\<rparr>) g
      else Some (c, area\<lparr>a_name := (a_name area)[0 := 0]\<rparr>, g)) =
     Some (NEWLINE, area\<lparr>a_name := name @ 0 # drop (Suc (length name)) (a_name area)\<rparr>, f')"
    "feeds f' r"
proof (cases name)
  case Nil
  have "NEWLINE \<noteq> ch CHR '' ''" by (simp add: NEWLINE_def ch_def)
  with assms(1) Nil obtain g where g: "skip_spaces (ch CHR '' '') f = (NEWLINE, g)" "feeds g r"
    by (auto elim: skip_spaces_feeds)
  have "(a_name area)[0 := 0] = 0 # drop (Suc 0) (a_name area)"
    using assms(4) by (cases "a_name area") (simp_all add: FILENAMESIZE_def)
  then show thesis
    using g Nil that by (simp add: NEWLINE_def ch_def)
next
  case (Cons x cs)
  with assms(5) have x: "x = ch CHR ''/'' \<or> x = ch CHR ''[''" by simp
  then have "x \<noteq> ch CHR '' ''" by (auto simp: ch_def)
  with assms(1) Cons obtain g where g: "skip_spaces (ch CHR '' '') f = (x, g)" "feeds g (cs @ NEWLINE # r)"
    by (auto elim: skip_spaces_feeds)
  let ?xs = "(a_name area)[0 := 0]"
  have "\<exists>f'. readName 0 x (area\<lparr>a_name := [] @ drop 0 ?xs\<rparr>) g =
      Some (NEWLINE, area\<lparr>a_name := [] @ x # cs @ 0 # drop (Suc (Suc 0) + length cs) ?xs\<rparr>, f') \<and> feeds f' r"
    by (rule readName_feeds [OF g(2)]) (use assms(2,3,4) Cons in simp_all)
  then obtain f' where f': "readName 0 x (area\<lparr>a_name := ?xs\<rparr>) g =
      Some (NEWLINE, area\<lparr>a_name := x # cs @ 0 # drop (Suc (Suc (length cs))) ?xs\<rparr>, f')" "feeds f' r"
    by auto
  moreover have "drop (Suc (Suc (length cs))) ?xs = drop (Suc (length name)) (a_name area)"
    using Cons by (simp add: drop_update_cancel)
  ultimately show thesis
    using g(1) x Cons that by simp
qed

lemma readMapsLine_line:
  assumes "feeds f (entry_line e @ r)" "entry_ok e" "length (a_name area) = FILENAMESIZE"
  shows "\<exists>f'. readMapsLine f area = Inr (1, entry_area e area, f') \<and> feeds f' r"
proof -
  obtain k where k: "e_blanks e = Suc k" using assms(2) by (cases "e_blanks e") (auto simp: entry_ok_def)
  let ?sp = "ch CHR '' ''"
  let ?r = "if e_read e then ch CHR ''r'' else ch CHR ''-''"
  let ?w = "if e_write e then ch CHR ''w'' else ch CHR ''-''"
  let ?x = "if e_exec e then ch CHR ''x'' else ch CHR ''-''"
  let ?s = "if e_shared e then ch CHR ''s'' else ch CHR ''p''"
  let ?name = "replicate k ?sp @ e_name e @ [NEWLINE] @ r"
  let ?minor = "hex_str 2 (e_minor e) @ ?sp # dec_str (e_inode e) @ ?sp # ?name"
  let ?offset = "hex_str 8 (e_offset e) @ ?sp # hex_str 2 (e_major e) @ ch CHR '':'' # ?minor"
  let ?rest = "?r # ?w # ?x # ?s # ?sp # ?offset"
  have line: "feeds f (hex_str 8 (e_start e) @ ch CHR ''-'' # hex_str 8 (e_end e) @ ?sp # ?rest)"
    using assms(1) by (simp add: entry_line_def k)
  obtain f1 where f1: "readHex f = (ch CHR ''-'', e_start e, f1)"
      "feeds f1 (hex_str 8 (e_end e) @ ?sp # ?rest)"
    by (rule readHex_hex_str [OF line]) simp
  obtain f2 where f2: "readHex f1 = (?sp, e_end e, f2)" "feeds f2 ?rest"
    by (rule readHex_hex_str [OF f1(2)]) simp
  obtain f3 where f3: "readChar f2 = (?r, f3)" "feeds f3 (?w # ?x # ?s # ?sp # ?offset)"
    by (rule readChar_Cons [OF f2(2)])
  obtain f4 where f4: "readChar f3 = (?w, f4)" "feeds f4 (?x # ?s # ?sp # ?offset)"
    by (rule readChar_Cons [OF f3(2)])
  obtain f5 where f5: "readChar f4 = (?x, f5)" "feeds f5 (?s # ?sp # ?offset)"
    by (rule readChar_Cons [OF f4(2)])
  obtain f6 where f6: "readChar f5 = (?s, f6)" "feeds f6 (?sp # ?offset)"
    by (rule readChar_Cons [OF f5(2)])
  obtain f7 where f7: "readChar f6 = (?sp, f7)" "feeds f7 ?offset"
    by (rule readChar_Cons [OF f6(2)])
  obtain f8 where f8: "readHex f7 = (?sp, e_offset e, f8)"
      "feeds f8 (hex_str 2 (e_major e) @ ch CHR '':'' # ?minor)"
    by (rule readHex_hex_str [OF f7(2)]) simp
  obtain f9 where f9: "readHex f8 = (ch CHR '':'', e_major e, f9)" "feeds f9 ?minor"
    by (rule readHex_hex_str [OF f8(2)]) simp
  obtain f10 where f10: "readHex f9 = (?sp, e_minor e, f10)"
      "feeds f10 (dec_str (e_inode e) @ ?sp # ?name)"
    by (rule readHex_hex_str [OF f9(2)]) simp
  obtain f11 where f11: "readDec f10 = (?sp, e_inode e, f11)" "feeds f11 ?name"
    by (rule readDec_dec_str [OF f10(2)]) simp
  let ?area = "area\<lparr>a_offset := e_offset e\<rparr>"
  have nm: "NEWLINE \<notin> set (e_name e)" "length (e_name e) < FILENAMESIZE"
    "e_name e = [] \<or> hd (e_name e) = ch CHR ''/'' \<or> hd (e_name e) = ch CHR ''[''"
    "length (a_name ?area) = FILENAMESIZE"
    using assms(2,3) by (simp_all add: entry_ok_def)
  obtain f12 c g where f12: "skip_spaces ?sp f11 = (c, g)"
    "(if c = ch CHR ''/'' \<or> c = ch CHR ''['' then readName 0 c (?area\<lparr>a_name := (a_name ?area)[0 := 0]\<rparr>) g
      else Some (c, ?area\<lparr>a_name := (a_name ?area)[0 := 0]\<rparr>, g)) =
     Some (NEWLINE, ?area\<lparr>a_name := e_name e @ 0 # drop (Suc (length (e_name e))) (a_name ?area)\<rparr>, f12)"
    "feeds f12 r"
    by (rule readMapsLine_name [OF f11(2) nm(1,2,4,3)])
  have first: "(e_name e @ 0 # zs) ! 0 = 0 \<longleftrightarrow> e_name e = []" for zs
    using assms(2) by (cases "e_name e") (auto simp: entry_ok_def)
  have flags: "\<not> (?r \<noteq> ch CHR ''r'' \<and> ?r \<noteq> ch CHR ''-'')" "\<not> (?w \<noteq> ch CHR ''w'' \<and> ?w \<noteq> ch CHR ''-'')"
    "\<not> (?x \<noteq> ch CHR ''x'' \<and> ?x \<noteq> ch CHR ''-'')" "\<not> (?s \<noteq> ch CHR ''s'' \<and> ?s \<noteq> ch CHR ''p'')"
    by auto
  have "\<not> e_end e < e_start e" using assms(2) by (simp add: entry_ok_def not_less)
  then have "readMapsLine f area = Inr (1, set_area (e_start e) (e_end e) ?r ?w ?x ?s (e_major e) (e_minor e)
      (e_inode e) (?area\<lparr>a_name := e_name e @ 0 # drop (Suc (length (e_name e))) (a_name ?area)\<rparr>), f12)"
    unfolding readMapsLine_def Let_def
    by (simp only: f1(1) f2(1) f3(1) f4(1) f5(1) f6(1) f7(1) f8(1) f9(1) f10(1) f11(1) f12(1,2)
          flags prod.case option.case simp_thms if_False if_True)
  also have "set_area (e_start e) (e_end e) ?r ?w ?x ?s (e_major e) (e_minor e)
      (e_inode e) (?area\<lparr>a_name := e_name e @ 0 # drop (Suc (length (e_name e))) (a_name ?area)\<rparr>) =
      entry_area e area"
    by (simp add: set_area_def entry_area_def first)
  finally show ?thesis using f12(3) by blast
qed

definition sample_entry :: maps_entry where
  "sample_entry = \<lparr>e_start = 0x400000, e_end = 0x40b000, e_read = True, e_write = False,
     e_exec = True, e_shared = False, e_offset = 0x2000, e_major = 8, e_minor = 1, e_inode = 1234,
     e_blanks = 3, e_name = bytes_of ''/bin/cat''\<rparr>"

definition blank_area :: Area where
  "blank_area = \<lparr>a_addr = 0, a_endAddr = 0, a_size = 0, a_offset = 0, a_prot = 0, a_prot_pad = 0,
     a_flags = 0, a_flags_pad = 0, a_devmajor = 0, a_devminor = 0, a_inodenum = 0, a_properties = 0,
     a_name = replicate FILENAMESIZE 0, a_padding = replicate 2992 0\<rparr>"

lemma sample_entry_ok: "entry_ok sample_entry"
  by (simp add: entry_ok_def sample_entry_def FILENAMESIZE_def bytes_of_def NEWLINE_def ch_def)

lemma area_ok_blank: "area_ok blank_area"
  by (simp add: area_ok_def blank_area_def)

lemma sample_line: "entry_line sample_entry =
    bytes_of ''00400000-0040b000 r-xp 00002000 08:01 1234   /bin/cat'' @ [10]"
  by (simp add: entry_line_def sample_entry_def hex_str_def dec_str_def digits.simps Let_def
      digit_char_def ch_def bytes_of_def NEWLINE_def replicate_numeral)

text \<open>
  C17. Every line of the documented format whose name is empty or starts with a slash or a bracket
  is parsed into the area of its entry, and the file is left at the next line; signals that
  interrupt the reads and short reads make no difference.
\<close>

theorem readMapsLine_entry:
  assumes "feeds f (entry_line e @ r)" "entry_ok e" "length (a_name area) = FILENAMESIZE"
  shows "\<exists>f'. readMapsLine f area = Inr (1, entry_area e area, f') \<and> feeds f' r"
  by (rule readMapsLine_line [OF assms])

theorem readMapsLine_entry_witness:
  "\<exists>f'. readMapsLine \<lparr>content = bytes_of ''00400000-0040b000 r-xp 00002000 08:01 1234   /bin/cat'' @ [10],
        pos = 0, answers = [Fail EINTR, Transfer 1]\<rparr> blank_area =
      Inr (1, entry_area sample_entry blank_area, f') \<and> feeds f' []"
  unfolding sample_line [symmetric]
  by (rule readMapsLine_entry)
     (use area_ok_blank in \<open>simp_all add: feeds_def pending_def sample_entry_ok area_ok_def\<close>)

lemma readMapsLine_eof:
  assumes "feeds f []"
  shows "\<exists>f'. readMapsLine f area = Inr (0, area, f') \<and> feeds f' []"
proof -
  obtain f' where "readHex f = (0, 0, f')" "feeds f' []"
    using hex.loop_end [OF assms, of 0] by (auto simp: readHex_def)
  then show ?thesis by (simp add: readMapsLine_def ch_def)
qed

text \<open>At the end of the file the parser answers 0 and leaves the area alone.\<close>

theorem readMapsLine_end:
  assumes "feeds f []"
  shows "\<exists>f'. readMapsLine f area = Inr (0, area, f') \<and> feeds f' []"
  by (rule readMapsLine_eof [OF assms])

theorem readMapsLine_end_witness:
  "\<exists>f'. readMapsLine \<lparr>content = [], pos = 0, answers = [Fail EINTR]\<rparr> blank_area = Inr (0, blank_area, f') \<and>
     feeds f' []"
  by (rule readMapsLine_end) (simp add: feeds_def pending_def)

section \<open>All lines\<close>

lemma readDec_fuel: "(c, v', f') = readDec_loop v f \<Longrightarrow> fuel_of f' \<le> fuel_of f"
proof (induction v f arbitrary: c v' f' rule: readDec_loop.induct)
  case (1 v f)
  obtain x g where x: "readChar f = (x, g)" by fastforce
  show ?case
    using "1.prems" "1.IH" [OF x [symmetric] refl] readChar_fuel [OF x]
    by (subst (asm) readDec_loop.simps) (fastforce simp: x split: if_splits)
qed

lemma readHex_fuel: "(c, v', f') = readHex_loop v f \<Longrightarrow>
    fuel_of f' \<le> fuel_of f \<and> (c \<noteq> 0 \<longrightarrow> fuel_of f' < fuel_of f)"
proof (induction v f arbitrary: c v' f' rule: readHex_loop.induct)
  case (1 v f)
  obtain x g where x: "readChar f = (x, g)" by fastforce
  show ?case
  proof (cases "hex_digit x")
    case None
    then show ?thesis
      using "1.prems" readChar_fuel [OF x] by (simp add: readHex_loop.simps [of v f] x)
  next
    case (Some d)
    then show ?thesis
      using "1.prems" "1.IH" [OF x [symmetric] refl Some, of c v' f'] readChar_fuel [OF x]
      by (auto simp: readHex_loop.simps [of v f] x)
  qed
qed

lemma skip_spaces_fuel: "(c', f') = skip_spaces c f \<Longrightarrow> fuel_of f' \<le> fuel_of f"
proof (induction c f arbitrary: c' f' rule: skip_spaces.induct)
  case (1 c f)
  obtain x g where x: "readChar f = (x, g)" by fastforce
  show ?case
    using "1.prems" "1.IH" [OF _ x [symmetric] refl, of c' f'] readChar_fuel [OF x]
    by (auto simp: skip_spaces.simps [of c f] x split: if_splits)
qed

lemma readName_fuel: "readName i c area f = Some (c', area', f') \<Longrightarrow> fuel_of f' \<le> fuel_of f"
proof (induction i c area f arbitrary: c' area' f' rule: readName.induct)
  case (1 i c area f)
  obtain x g where x: "readChar f = (x, g)" by fastforce
  show ?case
    using "1.prems" "1.IH" [OF refl _ x [symmetric] refl, of c' area' f'] readChar_fuel [OF x]
    by (auto simp: readName.simps [of i c area f] Let_def x split: if_splits)
qed

lemma readMapsLine_fuel:
  assumes "readMapsLine f area = Inr (rc, area', f')" "rc \<noteq> 0"
  shows "fuel_of f' < fuel_of f"
proof -
  obtain c1 v1 f1 where h1: "readHex f = (c1, v1, f1)" by (metis prod_cases3)
  obtain c2 v2 f2 where h2: "readHex f1 = (c2, v2, f2)" by (metis prod_cases3)
  obtain c3 f3 where h3: "readChar f2 = (c3, f3)" by fastforce
  obtain c4 f4 where h4: "readChar f3 = (c4, f4)" by fastforce
  obtain c5 f5 where h5: "readChar f4 = (c5, f5)" by fastforce
  obtain c6 f6 where h6: "readChar f5 = (c6, f6)" by fastforce
  obtain c7 f7 where h7: "readChar f6 = (c7, f7)" by fastforce
  obtain c8 v8 f8 where h8: "readHex f7 = (c8, v8, f8)" by (metis prod_cases3)
  obtain c9 v9 f9 where h9: "readHex f8 = (c9, v9, f9)" by (metis prod_cases3)
  obtain c10 v10 f10 where h10: "readHex f9 = (c10, v10, f10)" by (metis prod_cases3)
  obtain c11 v11 f11 where h11: "readDec f10 = (c11, v11, f11)" by (metis prod_cases3)
  obtain c12 f12 where h12: "skip_spaces c11 f11 = (c12, f12)" by fastforce
  note reads = h1 h2 h3 h4 h5 h6 h7 h8 h9 h10 h11 h12
  have le: "fuel_of f12 \<le> fuel_of f1"
    using readHex_fuel [OF h2 [unfolded readHex_def, symmetric]] readChar_fuel [OF h3]
      readChar_fuel [OF h4] readChar_fuel [OF h5] readChar_fuel [OF h6] readChar_fuel [OF h7]
      readHex_fuel [OF h8 [unfolded readHex_def, symmetric]]
      readHex_fuel [OF h9 [unfolded readHex_def, symmetric]]
      readHex_fuel [OF h10 [unfolded readHex_def, symmetric]]
      readDec_fuel [OF h11 [unfolded readDec_def, symmetric]] skip_spaces_fuel [OF h12 [symmetric]]
    by linarith
  note unfolded = assms(1) [unfolded readMapsLine_def Let_def reads prod.case]
  have dash: "c1 = ch CHR ''-''"
    using unfolded assms(2) by (simp add: skipeol_def split: if_splits)
  have strict: "fuel_of f1 < fuel_of f"
    using readHex_fuel [OF h1 [unfolded readHex_def, symmetric]] dash by (simp add: ch_def)
  have "fuel_of f' \<le> fuel_of f12"
    using unfolded dash
    by (simp only: skipeol_def Let_def simp_thms if_False)
       (force split: if_splits option.splits dest: readName_fuel)
  then show ?thesis using le strict by simp
qed

text \<open>
  The loop \<open>while (readMapsLine(mapsfd, &area)) { \<dots> }\<close> of five functions of the code. The body
  gets the area and the state of its function, and says whether it leaves the loop (a
  \<open>break\<close> or a \<open>return\<close>). The one \<open>area\<close> variable is filled in again for every line.
\<close>

function maps_loop :: "(Area \<Rightarrow> 's \<Rightarrow> ('s \<times> bool) run) \<Rightarrow> ofile \<Rightarrow> Area \<Rightarrow> 's \<Rightarrow> 's run" where
  "maps_loop body f area s =
     (case readMapsLine f area of
        Inl h \<Rightarrow> Inl h
      | Inr (rc, area', f') \<Rightarrow>
          if rc = 0 then Inr s
          else (case body area' s of
                  Inl h \<Rightarrow> Inl h
                | Inr (s', leave) \<Rightarrow> if leave then Inr s' else maps_loop body f' area' s'))"
  by pat_completeness auto
termination
  by (relation "measure (\<lambda>(body, f, area, s). fuel_of f)") (auto intro: readMapsLine_fuel)

declare maps_loop.simps [simp del]

text \<open>The areas the loop hands to its body, and the loop as a recursion over them.\<close>

fun areas_of :: "Area \<Rightarrow> maps_entry list \<Rightarrow> Area list" where
  "areas_of area [] = []"
| "areas_of area (e # es) = (let a = entry_area e area in a # areas_of a es)"

fun each_area :: "(Area \<Rightarrow> 's \<Rightarrow> ('s \<times> bool) run) \<Rightarrow> Area list \<Rightarrow> 's \<Rightarrow> 's run" where
  "each_area body [] s = Inr s"
| "each_area body (a # as) s =
     (case body a s of
        Inl h \<Rightarrow> Inl h
      | Inr (s', leave) \<Rightarrow> if leave then Inr s' else each_area body as s')"

definition maps_text :: "maps_entry list \<Rightarrow> byte list" where
  "maps_text es = concat (map entry_line es)"

lemma entry_area_ok: "entry_ok e \<Longrightarrow> area_ok area \<Longrightarrow> area_ok (entry_area e area)"
  by (simp add: area_ok_def entry_area_def entry_ok_def)

lemma entry_area_fields [simp]:
  "a_addr (entry_area e area) = e_start e" "a_endAddr (entry_area e area) = e_end e"
  "a_size (entry_area e area) = e_end e - e_start e"
  by (simp_all add: entry_area_def)

lemma entry_area_consistent: "entry_ok e \<Longrightarrow> area_consistent (entry_area e area)"
  by (simp add: area_consistent_def entry_ok_def)

lemma entry_area_name: "entry_ok e \<Longrightarrow> area_name (entry_area e area) = e_name e"
  by (simp add: area_name_def entry_area_def entry_ok_def cstr_append_nul)

lemma areas_of_ok:
  "area_ok area \<Longrightarrow> list_all entry_ok es \<Longrightarrow> list_all (\<lambda>a. area_ok a \<and> area_consistent a) (areas_of area es)"
  by (induction es arbitrary: area) (simp_all add: Let_def entry_area_ok entry_area_consistent)

lemma areas_of_starts: "map a_addr (areas_of area es) = map e_start es"
  by (induction es arbitrary: area) (simp_all add: Let_def)

lemma areas_of_ends: "map a_endAddr (areas_of area es) = map e_end es"
  by (induction es arbitrary: area) (simp_all add: Let_def)

lemma maps_loop_areas:
  assumes "feeds f (maps_text es)" "list_all entry_ok es" "area_ok area"
  shows "maps_loop body f area s = each_area body (areas_of area es) s"
  using assms
proof (induction es arbitrary: f area s)
  case Nil
  then obtain f' where "readMapsLine f area = Inr (0, area, f')"
    using readMapsLine_eof [of f area] by (auto simp: maps_text_def)
  then show ?case by (simp add: maps_loop.simps [of body f])
next
  case (Cons e es)
  then obtain f' where f': "readMapsLine f area = Inr (1, entry_area e area, f')"
      "feeds f' (maps_text es)"
    using readMapsLine_line [of f e "maps_text es" area] by (auto simp: maps_text_def area_ok_def)
  have ok: "area_ok (entry_area e area)" using Cons.prems by (simp add: entry_area_ok)
  show ?case
    using Cons.IH [OF f'(2) _ ok] Cons.prems(2) f'(1)
    by (simp add: maps_loop.simps [of body f] Let_def split: sum.split prod.split)
qed

text \<open>
  C18. Reading a whole \<open>/proc/self/maps\<close> is a loop over its entries: each line reaches the body of
  the loop once, in order, as the area of its entry, and the loop ends after the last line or
  when its body leaves it.
\<close>

theorem maps_loop_entries:
  assumes "feeds f (maps_text es)" "list_all entry_ok es" "area_ok area"
  shows "maps_loop body f area s = each_area body (areas_of area es) s"
  by (rule maps_loop_areas [OF assms])

theorem maps_loop_entries_witness:
  "maps_loop (\<lambda>a as. Inr (as @ [a], False))
      \<lparr>content = bytes_of ''00400000-0040b000 r-xp 00002000 08:01 1234   /bin/cat'' @ [10],
        pos = 0, answers = [Fail EINTR]\<rparr> blank_area [] =
    Inr [entry_area sample_entry blank_area]"
  unfolding sample_line [symmetric]
  by (subst maps_loop_entries [of _ "[sample_entry]"])
     (auto simp: feeds_def pending_def maps_text_def sample_entry_ok area_ok_blank Let_def)

end
