(* ===== verification/MapsView.thy ===== *)
theory MapsView
  imports ProcMaps Machine
begin

text \<open>
  What the code may expect of \<open>/proc/self/maps\<close>: the file lists the mappings of the process, in the
  documented format and page by page or coarser, and its reads are interrupted at most. A
  kernel that does so is built at the end.
\<close>

text \<open>The kernel lists the mappings \<open>es\<close> of the process, and interrupts the reads of the list at most.\<close>

definition lists :: "kernel \<Rightarrow> 'a machine_scheme \<Rightarrow> maps_entry list \<Rightarrow> bool" where
  "lists K m es \<longleftrightarrow> k_maps K (prot_at m) = Some (maps_text es) \<and> list_all entry_ok es \<and>
     list_all (\<lambda>a. case a of Transfer n \<Rightarrow> 0 < n | Fail e \<Rightarrow> e = EINTR)
       (k_answers K (bytes_of ''/proc/self/maps''))"

lemma lists_feeds:
  "lists K m es \<Longrightarrow> \<exists>f. open_maps K m = Some f \<and> feeds f (maps_text es)"
  by (simp add: lists_def open_maps_def feeds_def pending_def)

definition stale_ok :: "kernel \<Rightarrow> bool" where
  "stale_ok K \<longleftrightarrow> (\<forall>n. length (k_stale K n) = n)"

lemma area_ok_stale: "stale_ok K \<Longrightarrow> area_ok (area_of_bytes (k_stale K sizeof_Area))"
  by (simp add: stale_ok_def area_ok_def area_of_bytes_def FILENAMESIZE_def sizeof_Area_def)

section \<open>A truthful kernel\<close>

text \<open>A layout of the user half of the address space in whole pages.\<close>

definition layout_ok :: "layout \<Rightarrow> bool" where
  "layout_ok P \<longleftrightarrow> (\<forall>x. P x = P (ROUND_DOWN x)) \<and> (\<forall>x. P x \<noteq> None \<longrightarrow> unat x < 2 ^ 47)"

definition in_entry :: "maps_entry \<Rightarrow> va \<Rightarrow> bool" where
  "in_entry e x \<longleftrightarrow> e_start e \<le> x \<and> x < e_end e"

definition describes :: "maps_entry list \<Rightarrow> layout \<Rightarrow> bool" where
  "describes es P \<longleftrightarrow> list_all (\<lambda>e. entry_ok e \<and> e_start e < e_end e) es \<and>
     (\<forall>x. P x \<noteq> None \<longleftrightarrow> (\<exists>e \<in> set es. in_entry e x))"

definition maps_ok :: "kernel \<Rightarrow> bool" where
  "maps_ok K \<longleftrightarrow>
     (\<forall>P. layout_ok P \<longrightarrow> (\<exists>es. k_maps K P = Some (maps_text es) \<and> describes es P)) \<and>
     list_all (\<lambda>a. case a of Transfer n \<Rightarrow> 0 < n | Fail e \<Rightarrow> e = EINTR)
       (k_answers K (bytes_of ''/proc/self/maps'')) \<and> stale_ok K"

lemma maps_ok_lists:
  assumes "maps_ok K" "layout_ok (prot_at m)"
  obtains es where "lists K m es" "describes es (prot_at m)"
proof -
  obtain es where "k_maps K (prot_at m) = Some (maps_text es)" "describes es (prot_at m)"
    using assms by (auto simp: maps_ok_def)
  moreover have "list_all entry_ok es" using calculation(2) by (auto simp: describes_def list_all_iff)
  ultimately show thesis using that assms(1) by (auto simp: lists_def maps_ok_def)
qed

lemma layout_ok_map_pages:
  assumes "layout_ok (prot_at m)" "page_aligned a" "page_aligned n" "unat a + unat n \<le> 2 ^ 47"
  shows "layout_ok (\<lambda>x. if in_range a n x then Some p else prot_at m x)"
proof -
  have nw: "no_wrap a n" using assms(4) by (simp add: no_wrap_def)
  obtain i j where ij: "unat a = 4096 * i" "unat n = 4096 * j"
    using assms(2,3) by (auto simp: page_aligned_iff mod_eq_0_iff_dvd dvd_def)
  have "in_range a n (ROUND_DOWN x) = in_range a n x" for x
  proof -
    have "4096 * i \<le> unat x div 4096 * 4096 \<longleftrightarrow> 4096 * i \<le> unat x"
      using less_eq_div_iff_mult_less_eq [of 4096 i "unat x"] by (simp add: mult.commute)
    moreover have "unat x div 4096 * 4096 < 4096 * (i + j) \<longleftrightarrow> unat x < 4096 * (i + j)"
      using div_less_iff_less_mult [of 4096 "unat x" "i + j"] mult_less_cancel2 [of "unat x div 4096" 4096 "i + j"]
      by (simp only: mult.commute [of 4096 "i + j"]) simp
    ultimately show ?thesis
      by (simp add: in_range_unat [OF nw] unat_ROUND_DOWN ij algebra_simps)
  qed
  moreover have "unat x < 2 ^ 47" if "in_range a n x" for x
    using that assms(4) by (simp add: in_range_unat [OF nw])
  ultimately show ?thesis using assms(1) by (auto simp: layout_ok_def split: if_splits)
qed

definition page_entry :: "layout \<Rightarrow> nat \<Rightarrow> maps_entry" where
  "page_entry P i = (let p = (case P (of_nat (4096 * i)) of None \<Rightarrow> 0 | Some p \<Rightarrow> p)
     in \<lparr>e_start = of_nat (4096 * i), e_end = of_nat (4096 * Suc i), e_read = has_flag p PROT_READ,
         e_write = has_flag p PROT_WRITE, e_exec = has_flag p PROT_EXEC, e_shared = False,
         e_offset = 0, e_major = 0, e_minor = 0, e_inode = 0, e_blanks = 1, e_name = []\<rparr>)"

definition page_entries :: "layout \<Rightarrow> maps_entry list" where
  "page_entries P = map (page_entry P) (filter (\<lambda>i. P (of_nat (4096 * i)) \<noteq> None) [0..<2 ^ 35])"

definition truthful_kernel :: kernel where
  "truthful_kernel = plain_kernel\<lparr>k_maps := (\<lambda>P. Some (maps_text (page_entries P)))\<rparr>"

lemma page_entry_fields:
  "e_start (page_entry P i) = of_nat (4096 * i)" "e_end (page_entry P i) = of_nat (4096 * Suc i)"
  "e_name (page_entry P i) = []" "e_blanks (page_entry P i) = 1"
  by (simp_all add: page_entry_def Let_def)

lemma unat_page: "i \<le> 2 ^ 35 \<Longrightarrow> unat (of_nat (4096 * i) :: u64) = 4096 * i"
  by (simp only: unat_of_nat) simp

lemma in_page_entry:
  assumes "i < 2 ^ 35"
  shows "in_entry (page_entry P i) x \<longleftrightarrow> unat x div 4096 = i"
proof -
  have "in_entry (page_entry P i) x \<longleftrightarrow> 4096 * i \<le> unat x \<and> unat x < 4096 * Suc i"
    using assms unat_page [of i] unat_page [of "Suc i"]
    by (simp only: in_entry_def page_entry_fields word_le_nat_alt word_less_nat_alt)
  also have "\<dots> \<longleftrightarrow> unat x div 4096 = i"
    using div_mult_mod_eq [of "unat x" 4096] mod_less_divisor [of 4096 "unat x"] by auto
  finally show ?thesis .
qed

lemma page_entries_describe:
  assumes "layout_ok P"
  shows "describes (page_entries P) P"
proof -
  have entries: "list_all (\<lambda>e. entry_ok e \<and> e_start e < e_end e) (page_entries P)"
  proof -
    have "entry_ok (page_entry P i) \<and> e_start (page_entry P i) < e_end (page_entry P i)" if "i < 2 ^ 35" for i
      using that unat_page [of i] unat_page [of "Suc i"]
      by (simp only: entry_ok_def page_entry_fields word_le_nat_alt word_less_nat_alt) (simp add: FILENAMESIZE_def)
    then show ?thesis by (auto simp: page_entries_def list_all_iff)
  qed
  have "P x \<noteq> None \<longleftrightarrow> (\<exists>e \<in> set (page_entries P). in_entry e x)" for x
  proof -
    have "unat x < 2 ^ LENGTH(64)" by (rule unsigned_less)
    then have "4096 * (unat x div 4096) < 2 ^ LENGTH(64)" by (rule le_less_trans [rotated]) simp
    then have base: "of_nat (4096 * (unat x div 4096)) = ROUND_DOWN x"
      by (simp only: word_unat_eq_iff unat_ROUND_DOWN unat_of_nat mod_less mult.commute)
    have "(\<exists>e \<in> set (page_entries P). in_entry e x) \<longleftrightarrow>
        (\<exists>i < 2 ^ 35. P (of_nat (4096 * i)) \<noteq> None \<and> unat x div 4096 = i)"
      using in_page_entry by (auto simp: page_entries_def)
    also have "\<dots> \<longleftrightarrow> unat x div 4096 < 2 ^ 35 \<and> P x \<noteq> None"
      using assms base by (auto simp: layout_ok_def)
    also have "\<dots> \<longleftrightarrow> P x \<noteq> None"
      using assms by (auto simp: layout_ok_def div_less_iff_less_mult)
    finally show ?thesis by blast
  qed
  with entries show ?thesis by (simp add: describes_def)
qed

lemma truthful_maps_ok: "maps_ok truthful_kernel"
  using page_entries_describe
  by (auto simp: maps_ok_def truthful_kernel_def plain_kernel_def stale_ok_def)

lemma truthful_kernel_ok: "kernel_ok truthful_kernel"
  using plain_kernel_ok by (simp add: kernel_ok_def truthful_kernel_def)

end
