(* ===== verification/AddrSpace.thy ===== *)
theory AddrSpace
  imports MapsView CustomLoader
begin

text \<open>
  The address space of a rank (\<open>kernel-loader.c\<close>): the three searches of \<open>/proc/self/maps\<close> and
  \<open>confine_addr_space\<close>, which maps everything between the program break and the stack without
  access, except the 4 GB of the rank, so that the kernel has no other place for a new mapping. The
  calls of \<open>sbrk\<close> and \<open>mmap\<close> are those of the kernel loader's own C library, which nothing redirects.
\<close>

section \<open>Searching the memory map\<close>

text \<open>
  A descriptor of \<open>-1\<close> reads as an empty file. The variable \<open>area\<close> has no initialiser, and the out
  parameter keeps what it holds when no line matches.
\<close>

definition search_maps :: "kernel \<Rightarrow> (Area \<Rightarrow> bool) \<Rightarrow> Area \<Rightarrow> 'a machine_scheme \<Rightarrow> Area run" where
  "search_maps K hit out m =
     (case open_maps K m of
        None \<Rightarrow> Inr out
      | Some mapsfd \<Rightarrow>
          maps_loop (\<lambda>area out. if hit area then Inr (area, True) else Inr (out, False))
            mapsfd (area_of_bytes (k_stale K sizeof_Area)) out)"

text \<open>\<open>sp\<close> is the address of the local variable the code compares with.\<close>

definition getStackRegion :: "kernel \<Rightarrow> va \<Rightarrow> Area \<Rightarrow> 'a machine_scheme \<Rightarrow> Area run" where
  "getStackRegion K sp stack m =
     search_maps K (\<lambda>area. strstr (area_name area) (bytes_of ''[stack]'') \<and> a_endAddr area \<ge> sp) stack m"

definition getVvarRegion :: "kernel \<Rightarrow> Area \<Rightarrow> 'a machine_scheme \<Rightarrow> Area run" where
  "getVvarRegion K vvar m = search_maps K (\<lambda>area. strstr (area_name area) (bytes_of ''[vvar]'')) vvar m"

definition getVdsoRegion :: "kernel \<Rightarrow> Area \<Rightarrow> 'a machine_scheme \<Rightarrow> Area run" where
  "getVdsoRegion K vdso m = search_maps K (\<lambda>area. strstr (area_name area) (bytes_of ''[vdso]'')) vdso m"

section \<open>confine_addr_space\<close>

text \<open>
  \<open>sbrk(n)\<close> of the kernel loader: it maps the pages up to the new break and returns the old
  break \<open>brk\<close>, or \<open>-1\<close>.
\<close>

definition sys_sbrk :: "kernel \<Rightarrow> va \<Rightarrow> u64 \<Rightarrow> 'a machine_scheme \<Rightarrow> va \<times> 'a machine_scheme" where
  "sys_sbrk K brk n m =
     (if k_brk_fails K then (-1, m)
      else (brk, map_pages (ROUND_UP brk) (ROUND_UP (brk + n) - ROUND_UP brk) (PROT_READ OR PROT_WRITE) (\<lambda>_. 0) m))"

text \<open>\<open>assert(mmap(addr, map_size, PROT_NONE, flags, -1, 0) != MAP_FAILED)\<close>\<close>

definition book :: "kernel \<Rightarrow> va \<Rightarrow> u64 \<Rightarrow> 'a machine_scheme \<Rightarrow> 'a machine_scheme run" where
  "book K addr map_size m =
     (let (r, m) = sys_mmap K addr map_size PROT_NONE (MAP_FIXED OR MAP_ANONYMOUS OR MAP_PRIVATE) (-1) 0 m
      in if r \<noteq> MAP_FAILED then Inr m else Inl AssertFail)"

definition confine_addr_space :: "kernel \<Rightarrow> va \<Rightarrow> va \<Rightarrow> u32 \<Rightarrow> 'a machine_scheme \<Rightarrow> 'a machine_scheme run" where
  "confine_addr_space K brk sp rank_ID m =
     (let stale = area_of_bytes (k_stale K sizeof_Area);
          PAGE_SZ = 0x1000;
          addr_space_size = push_bit 32 1;
          addr_space_begin = addr_space_size + scast rank_ID * addr_space_size;
          (addr, m) = sys_sbrk K brk PAGE_SZ m
      in if addr = -1 then Inl AssertFail
         else
           andThen (book K addr (addr_space_begin - addr) m) (\<lambda>m.
           andThen (getVvarRegion K stale m) (\<lambda>vvar.
             let addr = addr_space_begin + addr_space_size in
             andThen (book K addr (a_addr vvar - addr) m) (\<lambda>m.
             andThen (getVdsoRegion K stale m) (\<lambda>vdso.
               let addr = a_endAddr vvar; map_size = a_addr vdso - addr in
               andThen (if map_size > 0 then book K addr map_size m else Inr m) (\<lambda>m.
               andThen (getStackRegion K sp stale m) (\<lambda>stack.
                 book K (a_endAddr vdso) (a_addr stack - a_endAddr vdso) m)))))))"

section \<open>What the searches find\<close>

lemma each_area_search:
  "each_area (\<lambda>area out. if hit area then Inr (area, True) else Inr (out, False)) as out =
     Inr (case find hit as of None \<Rightarrow> out | Some a \<Rightarrow> a)"
  by (induction as) auto

text \<open>The first line with a property of its name and its end.\<close>

lemma find_areas:
  assumes "list_all entry_ok es" "find (\<lambda>e. P (e_name e) (e_end e)) es = Some e"
  shows "\<exists>a. find (\<lambda>a. P (area_name a) (a_endAddr a)) (areas_of b es) = Some a \<and>
    a_addr a = e_start e \<and> a_endAddr a = e_end e \<and> a_size a = e_end e - e_start e"
  using assms by (induction es arbitrary: b) (auto simp: Let_def entry_area_name split: if_splits)

lemma search_maps_entry:
  assumes "lists K m es" "stale_ok K" "find (\<lambda>e. P (e_name e) (e_end e)) es = Some e"
  obtains a where "search_maps K (\<lambda>a. P (area_name a) (a_endAddr a)) out m = Inr a"
    "a_addr a = e_start e" "a_endAddr a = e_end e" "a_size a = e_end e - e_start e"
proof -
  obtain g where g: "open_maps K m = Some g" "feeds g (maps_text es)" using lists_feeds [OF assms(1)] by blast
  have es: "list_all entry_ok es" using assms(1) by (simp add: lists_def)
  obtain a where a: "find (\<lambda>a. P (area_name a) (a_endAddr a)) (areas_of (area_of_bytes (k_stale K sizeof_Area)) es) = Some a"
    "a_addr a = e_start e" "a_endAddr a = e_end e" "a_size a = e_end e - e_start e"
    using find_areas [OF es assms(3)] by blast
  have "search_maps K (\<lambda>a. P (area_name a) (a_endAddr a)) out m = Inr a"
    by (simp add: search_maps_def g(1) maps_loop_areas [OF g(2) es area_ok_stale [OF assms(2)]] each_area_search a(1))
  then show thesis using that a(2-4) by blast
qed

text \<open>
  The three special regions, mapped as their lines say. As long as they are, the kernel names them in the
  list, whatever else is mapped, and it interrupts the reads of the list at most.
\<close>

definition entry_prot :: "maps_entry \<Rightarrow> u32" where
  "entry_prot e = (if e_read e then PROT_READ else 0) OR (if e_write e then PROT_WRITE else 0) OR
     (if e_exec e then PROT_EXEC else 0)"

definition regions_mapped :: "maps_entry \<Rightarrow> maps_entry \<Rightarrow> maps_entry \<Rightarrow> layout \<Rightarrow> bool" where
  "regions_mapped vv vd st P \<longleftrightarrow> (\<forall>e \<in> {vv, vd, st}. \<forall>x. in_entry e x \<longrightarrow> P x = Some (entry_prot e))"

definition knows_regions :: "kernel \<Rightarrow> va \<Rightarrow> maps_entry \<Rightarrow> maps_entry \<Rightarrow> maps_entry \<Rightarrow> bool" where
  "knows_regions K sp vv vd st \<longleftrightarrow> stale_ok K \<and>
     list_all (\<lambda>a. case a of Transfer n \<Rightarrow> 0 < n | Fail e \<Rightarrow> e = EINTR)
       (k_answers K (bytes_of ''/proc/self/maps'')) \<and>
     (\<forall>P. regions_mapped vv vd st P \<longrightarrow> (\<exists>es. k_maps K P = Some (maps_text es) \<and> list_all entry_ok es \<and>
        find (\<lambda>e. strstr (e_name e) (bytes_of ''[vvar]'')) es = Some vv \<and>
        find (\<lambda>e. strstr (e_name e) (bytes_of ''[vdso]'')) es = Some vd \<and>
        find (\<lambda>e. strstr (e_name e) (bytes_of ''[stack]'') \<and> e_end e \<ge> sp) es = Some st))"

text \<open>The list of a process names the stack that holds \<open>sp\<close>.\<close>

definition stack_listed :: "kernel \<Rightarrow> va \<Rightarrow> 'a machine_scheme \<Rightarrow> maps_entry \<Rightarrow> bool" where
  "stack_listed K sp m st \<longleftrightarrow> stale_ok K \<and>
     (\<exists>es. lists K m es \<and> find (\<lambda>e. strstr (e_name e) (bytes_of ''[stack]'') \<and> e_end e \<ge> sp) es = Some st)"

lemma knows_stack_listed:
  "knows_regions K sp vv vd st \<Longrightarrow> regions_mapped vv vd st (prot_at m) \<Longrightarrow> stack_listed K sp m st"
  by (auto simp: knows_regions_def stack_listed_def lists_def)

lemma stack_found:
  assumes "stack_listed K sp m st"
  shows "\<exists>a. getStackRegion K sp out m = Inr a \<and> a_addr a = e_start st \<and> a_endAddr a = e_end st \<and>
      a_size a = e_end st - e_start st"
proof -
  obtain es where es: "lists K m es" "stale_ok K"
    and f: "find (\<lambda>e. strstr (e_name e) (bytes_of ''[stack]'') \<and> e_end e \<ge> sp) es = Some st"
    using assms by (auto simp: stack_listed_def)
  show ?thesis
    using search_maps_entry [OF es, of "\<lambda>n e. strstr n (bytes_of ''[stack]'') \<and> e \<ge> sp" st out] f
    by (auto simp: getStackRegion_def)
qed

lemma regions_found:
  assumes "knows_regions K sp vv vd st" "regions_mapped vv vd st (prot_at m)"
  shows "\<exists>a. getVvarRegion K out m = Inr a \<and> a_addr a = e_start vv \<and> a_endAddr a = e_end vv"
    and "\<exists>a. getVdsoRegion K out m = Inr a \<and> a_addr a = e_start vd \<and> a_endAddr a = e_end vd"
    and "\<exists>a. getStackRegion K sp out m = Inr a \<and> a_addr a = e_start st \<and> a_endAddr a = e_end st \<and>
      a_size a = e_end st - e_start st"
proof -
  obtain es where es: "lists K m es"
    and f: "find (\<lambda>e. strstr (e_name e) (bytes_of ''[vvar]'')) es = Some vv"
      "find (\<lambda>e. strstr (e_name e) (bytes_of ''[vdso]'')) es = Some vd"
    using assms by (auto simp: knows_regions_def lists_def)
  have stale: "stale_ok K" using assms by (simp add: knows_regions_def)
  show "\<exists>a. getVvarRegion K out m = Inr a \<and> a_addr a = e_start vv \<and> a_endAddr a = e_end vv"
    using search_maps_entry [OF es stale, of "\<lambda>n e. strstr n (bytes_of ''[vvar]'')" vv out] f(1)
    by (auto simp: getVvarRegion_def)
  show "\<exists>a. getVdsoRegion K out m = Inr a \<and> a_addr a = e_start vd \<and> a_endAddr a = e_end vd"
    using search_maps_entry [OF es stale, of "\<lambda>n e. strstr n (bytes_of ''[vdso]'')" vd out] f(2)
    by (auto simp: getVdsoRegion_def)
  show "\<exists>a. getStackRegion K sp out m = Inr a \<and> a_addr a = e_start st \<and> a_endAddr a = e_end st \<and>
      a_size a = e_end st - e_start st"
    by (rule stack_found [OF knows_stack_listed [OF assms]])
qed

section \<open>The confinement\<close>

lemma book_cases:
  assumes "book K a n m = Inr m'" "kernel_ok K"
  shows "page_aligned a" "no_wrap a (ROUND_UP n)" "unat n + 4095 < 2 ^ 64"
    and "prot_at m' = (\<lambda>x. if in_range a (ROUND_UP n) x then Some PROT_NONE else prot_at m x)"
    and "\<exists>g. m' = map_pages a (ROUND_UP n) PROT_NONE g m"
proof -
  obtain r m1 where sys: "sys_mmap K a n PROT_NONE (MAP_FIXED OR MAP_ANONYMOUS OR MAP_PRIVATE) (-1) 0 m = (r, m1)"
    by fastforce
  from sys assms(2) have "page_aligned a \<and> no_wrap a (ROUND_UP n) \<and> unat n + 4095 < 2 ^ 64 \<and>
      prot_at m' = (\<lambda>x. if in_range a (ROUND_UP n) x then Some PROT_NONE else prot_at m x) \<and>
      (\<exists>g. m' = map_pages a (ROUND_UP n) PROT_NONE g m)"
  proof (cases rule: sys_mmap_cases)
    case failed
    then show ?thesis using assms(1) sys by (simp add: book_def)
  next
    case (granted c)
    have "r = a" using granted(3) by (simp add: placement_ok_def map_fixed_flags)
    moreover have "m' = m1" using granted(1) assms(1) sys by (simp add: book_def)
    ultimately show ?thesis
      using granted(3,4) by (auto simp: placement_ok_def fun_eq_iff prot_map_pages)
  qed
  then show "page_aligned a" "no_wrap a (ROUND_UP n)" "unat n + 4095 < 2 ^ 64"
    "prot_at m' = (\<lambda>x. if in_range a (ROUND_UP n) x then Some PROT_NONE else prot_at m x)"
    "\<exists>g. m' = map_pages a (ROUND_UP n) PROT_NONE g m" by simp_all
qed

text \<open>A booking up to an aligned end does not reach beyond it.\<close>

lemma book_beyond:
  assumes "book K a (e - a) m = Inr m'" "kernel_ok K" "page_aligned e" "e \<le> x"
  shows "\<not> in_range a (ROUND_UP (e - a)) x"
proof (cases "a \<le> e")
  case True
  note b = book_cases [OF assms(1,2)]
  obtain i where i: "unat a = 4096 * i" using b(1) by (auto simp: page_aligned_iff mod_eq_0_iff_dvd)
  obtain j where j: "unat e = 4096 * j" using assms(3) by (auto simp: page_aligned_iff mod_eq_0_iff_dvd)
  have "unat (e - a) = 4096 * (j - i)" using True by (simp add: unat_sub i j diff_mult_distrib2)
  then have "ROUND_UP (e - a) = e - a" by (intro ROUND_UP_aligned) (simp add: page_aligned_iff)
  then show ?thesis
    unfolding in_range_unat [OF b(2)] using assms(4) True by (simp add: unat_sub word_le_nat_alt)
next
  case False
  note b = book_cases [OF assms(1,2)]
  have "unat (e - a) = unat e + 2 ^ 64 - unat a" "unat e < unat a"
    using False by (simp_all add: unat_sub_if' word_le_nat_alt)
  then have "2 ^ 64 \<le> unat a + unat (ROUND_UP (e - a))"
    using ROUND_UP_bounds(1) [OF b(3)] unat_u64 [of a] by linarith
  then show ?thesis using b(2) by (simp add: no_wrap_def)
qed

lemma book_keeps_beyond:
  assumes "book K a (e - a) m = Inr m'" "kernel_ok K" "page_aligned e" "e \<le> x"
  shows "mem m' x = mem m x" "prot_at m' x = prot_at m x"
proof -
  obtain g where "m' = map_pages a (ROUND_UP (e - a)) PROT_NONE g m" using book_cases(5) [OF assms(1,2)] by blast
  then show "mem m' x = mem m x" "prot_at m' x = prot_at m x"
    using book_beyond [OF assms] by (simp_all add: mem_map_pages prot_map_pages)
qed

text \<open>What a booking up to \<open>e\<close> does: everything in between is mapped, everything below is as before.\<close>

lemma book_up_to:
  assumes "book K a (e - a) m = Inr m'" "kernel_ok K"
  shows "a \<le> x \<Longrightarrow> x < e \<Longrightarrow> prot_at m' x = Some PROT_NONE"
    and "x < a \<Longrightarrow> prot_at m' x = prot_at m x"
    and "prot_at m x \<noteq> None \<Longrightarrow> prot_at m' x \<noteq> None"
    and "page_aligned e \<Longrightarrow> e \<le> x \<Longrightarrow> prot_at m' x = prot_at m x"
proof -
  note b = book_cases [OF assms]
  show "prot_at m' x = Some PROT_NONE" if "a \<le> x" "x < e"
  proof -
    have "unat (x - a) = unat x - unat a" "unat (e - a) = unat e - unat a" "unat a \<le> unat x" "unat x < unat e"
      using that by (simp_all add: unat_sub word_le_nat_alt word_less_nat_alt)
    then have "unat (x - a) < unat (e - a)" by linarith
    then have "x - a < ROUND_UP (e - a)"
      using ROUND_UP_bounds(1) [OF b(3)] by (simp add: word_less_nat_alt)
    then show ?thesis using b(4) by (simp add: in_range_def)
  qed
  show "prot_at m' x = prot_at m x" if "x < a"
    using that b(4) by (simp add: in_range_unat [OF b(2)] word_less_nat_alt)
  show "prot_at m x \<noteq> None \<Longrightarrow> prot_at m' x \<noteq> None" using b(4) by simp
  show "page_aligned e \<Longrightarrow> e \<le> x \<Longrightarrow> prot_at m' x = prot_at m x" by (rule book_keeps_beyond(2) [OF assms])
qed

lemma rank_begin:
  assumes "unat (rk :: u32) < 2 ^ 14"
  shows "unat (push_bit 32 1 + scast rk * push_bit 32 1 :: u64) = 2 ^ 32 * (unat rk + 1)"
    and "unat (push_bit 32 1 + scast rk * push_bit 32 1 + push_bit 32 1 :: u64) = 2 ^ 32 * (unat rk + 2)"
proof -
  have "sint rk = int (unat rk)" using assms by (intro sint_small) simp
  moreover have "(scast rk :: u64) = word_of_int (sint rk)" by (rule scast_eq)
  ultimately have sc: "(scast rk :: u64) = of_nat (unat rk)" by simp
  have "push_bit 32 1 + scast rk * push_bit 32 1 = (of_nat (2 ^ 32 * (unat rk + 1)) :: u64)"
    "push_bit 32 1 + scast rk * push_bit 32 1 + push_bit 32 1 = (of_nat (2 ^ 32 * (unat rk + 2)) :: u64)"
    unfolding sc by (simp_all add: algebra_simps)
  moreover have "2 ^ 32 * (unat rk + 1) < (2 ^ LENGTH(64) :: nat)" "2 ^ 32 * (unat rk + 2) < (2 ^ LENGTH(64) :: nat)"
    using assms by simp_all
  ultimately show "unat (push_bit 32 1 + scast rk * push_bit 32 1 :: u64) = 2 ^ 32 * (unat rk + 1)"
    "unat (push_bit 32 1 + scast rk * push_bit 32 1 + push_bit 32 1 :: u64) = 2 ^ 32 * (unat rk + 2)"
    by (simp_all only: unat_of_nat mod_less)
qed

lemma page_aligned_4GB:
  assumes "unat (x :: va) = 2 ^ 32 * k" shows "page_aligned x"
proof -
  have "unat x = 4096 * (2 ^ 20 * k)" using assms by simp
  then show ?thesis unfolding page_aligned_iff by (simp only: mod_mult_self1_is_0)
qed

text \<open>The layout a successful call leaves.\<close>

definition confined :: "va \<Rightarrow> maps_entry \<Rightarrow> u32 \<Rightarrow> layout \<Rightarrow> bool" where
  "confined brk st rk P \<longleftrightarrow>
     (\<forall>x. brk \<le> x \<longrightarrow> x < e_start st \<longrightarrow> \<not> rank_range rk x \<longrightarrow> P x \<noteq> None)"

text \<open>
  The regions lie above the range of the rank, in the order in which the code books the gaps between
  them. The bookings then leave them alone.
\<close>

definition regions_above :: "u32 \<Rightarrow> maps_entry \<Rightarrow> maps_entry \<Rightarrow> maps_entry \<Rightarrow> bool" where
  "regions_above rk vv vd st \<longleftrightarrow> unat rk < 2 ^ 14 \<and> 2 ^ 32 * (unat rk + 2) < unat (e_start vv) \<and>
     e_start vv \<le> e_end vv \<and> e_end vv \<le> e_start vd \<and> e_start vd \<le> e_end vd \<and> e_end vd \<le> e_start st \<and>
     page_aligned (e_start vv) \<and> page_aligned (e_start vd) \<and> page_aligned (e_start st)"

lemma in_regions:
  assumes "regions_above rk vv vd st" "e \<in> {vv, vd, st}" "in_entry e x"
  shows "e_start vv \<le> x" "e_start vd \<le> x \<or> x < e_end vv" "e_start st \<le> x \<or> x < e_end vd"
  using assms unfolding regions_above_def in_entry_def by (auto intro: order_trans order_less_le_trans)

lemma regions_mappedI:
  assumes "regions_mapped vv vd st P" "\<And>e x. e \<in> {vv, vd, st} \<Longrightarrow> in_entry e x \<Longrightarrow> P' x = P x"
  shows "regions_mapped vv vd st P'"
  using assms unfolding regions_mapped_def by simp

lemma book_ends:
  assumes "book K a (e - a) m = Inr m'" "kernel_ok K" "page_aligned e"
  shows "a \<le> e"
proof (rule ccontr)
  assume "\<not> a \<le> e"
  note b = book_cases [OF assms(1,2)]
  have "unat (e - a) = unat e + 2 ^ 64 - unat a" "unat e < unat a"
    using \<open>\<not> a \<le> e\<close> by (simp_all add: unat_sub_if' word_le_nat_alt)
  then have "2 ^ 64 \<le> unat a + unat (ROUND_UP (e - a))"
    using ROUND_UP_bounds(1) [OF b(3)] unat_u64 [of a] by linarith
  then show False using b(2) by (simp add: no_wrap_def)
qed

text \<open>The steps of a call that returns: the break is moved, then four ranges are booked.\<close>

lemma confine_start:
  fixes rk :: u32
  assumes "kernel_ok K" "unat rk < 2 ^ 14" "sys_sbrk K brk 0x1000 m = (brk, m0)"
    and bk: "book K brk (push_bit 32 1 + scast rk * push_bit 32 1 - brk) m0 = Inr m1"
  shows "m0 = map_pages brk 0x1000 (PROT_READ OR PROT_WRITE) (\<lambda>_. 0) m \<or> m0 = m"
    and "unat brk + 4096 \<le> 2 ^ 32 * (unat rk + 2)"
    and "2 ^ 32 * (unat rk + 2) \<le> unat x \<Longrightarrow> mem m1 x = mem m x \<and> prot_at m1 x = prot_at m x"
proof -
  let ?b = "push_bit 32 1 + scast rk * push_bit 32 1 :: u64"
  have u: "unat ?b = 2 ^ 32 * (unat rk + 1)" by (rule rank_begin(1) [OF assms(2)])
  have ab: "page_aligned ?b" by (rule page_aligned_4GB [OF u])
  have al: "page_aligned brk" by (rule book_cases(1) [OF bk assms(1)])
  have "unat brk \<le> unat ?b" using book_ends [OF bk assms(1) ab] by (simp add: word_le_nat_alt)
  then show le: "unat brk + 4096 \<le> 2 ^ 32 * (unat rk + 2)" using u by simp
  then have n: "unat (brk + 0x1000) = unat brk + 4096"
    using assms(2) by (simp add: unat_word_ariths)
  have "page_aligned (brk + 0x1000)" using al by (simp add: page_aligned_iff n)
  then show m0: "m0 = map_pages brk 0x1000 (PROT_READ OR PROT_WRITE) (\<lambda>_. 0) m \<or> m0 = m"
    using assms(3) al by (auto simp: sys_sbrk_def ROUND_UP_aligned split: if_splits)
  show "mem m1 x = mem m x \<and> prot_at m1 x = prot_at m x" if x: "2 ^ 32 * (unat rk + 2) \<le> unat x"
  proof -
    have "?b \<le> x" using x by (simp only: word_le_nat_alt u) simp
    moreover have "\<not> in_range brk 0x1000 x"
      using x le n unat_u64 [of "brk + 0x1000"] by (subst in_range_unat) (auto simp: no_wrap_def)
    ultimately show ?thesis
      using book_keeps_beyond [OF bk assms(1) ab] m0 by (auto simp: mem_map_pages prot_map_pages)
  qed
qed

lemma confine_steps:
  assumes "kernel_ok K" "knows_regions K sp vv vd st" "regions_above rk vv vd st"
    and "regions_mapped vv vd st (prot_at m)" "confine_addr_space K brk sp rk m = Inr m'"
  defines "b \<equiv> push_bit 32 1 + scast rk * push_bit 32 1"
  obtains m0 m1 m2 m3 where "sys_sbrk K brk 0x1000 m = (brk, m0)" "brk \<noteq> -1"
    "book K brk (b - brk) m0 = Inr m1"
    "book K (b + push_bit 32 1) (e_start vv - (b + push_bit 32 1)) m1 = Inr m2"
    "(if e_start vd - e_end vv > 0 then book K (e_end vv) (e_start vd - e_end vv) m2 else Inr m2) = Inr m3"
    "book K (e_end vd) (e_start st - e_end vd) m3 = Inr m'"
    "regions_mapped vv vd st (prot_at m')"
proof -
  let ?stale = "area_of_bytes (k_stale K sizeof_Area)" and ?e = "b + push_bit 32 1"
  note k = assms(1) and r = assms(3) [unfolded regions_above_def] and ir = in_regions [OF assms(3)]
  obtain m0 where sb: "sys_sbrk K brk 0x1000 m = (brk, m0)" "brk \<noteq> -1"
    using assms(5) by (auto simp: confine_addr_space_def sys_sbrk_def Let_def split: if_splits)
  obtain m1 where m1: "book K brk (b - brk) m0 = Inr m1"
    using assms(5) sb by (auto simp: confine_addr_space_def Let_def b_def run_simps)
  have "unat (e_start vv) \<le> unat x" if "e \<in> {vv, vd, st}" "in_entry e x" for e x
    using ir(1) [OF that] by (simp add: word_le_nat_alt)
  then have "2 ^ 32 * (unat rk + 2) \<le> unat x" if "e \<in> {vv, vd, st}" "in_entry e x" for e x
    using that r by (meson less_imp_le order_trans)
  then have r1: "regions_mapped vv vd st (prot_at m1)"
    using confine_start(3) [OF k _ sb(1) m1 [unfolded b_def]] r by (intro regions_mappedI [OF assms(4)]) blast
  obtain vvar where vvar: "getVvarRegion K ?stale m1 = Inr vvar" "a_addr vvar = e_start vv" "a_endAddr vvar = e_end vv"
    using regions_found(1) [OF assms(2) r1] by blast
  obtain m2 where m2: "book K ?e (e_start vv - ?e) m1 = Inr m2"
    using assms(5) sb m1 vvar by (auto simp: confine_addr_space_def Let_def b_def run_simps)
  have r2: "regions_mapped vv vd st (prot_at m2)"
    using book_keeps_beyond(2) [OF m2 k] r ir(1) by (intro regions_mappedI [OF r1]) blast
  obtain vdso where vdso: "getVdsoRegion K ?stale m2 = Inr vdso" "a_addr vdso = e_start vd" "a_endAddr vdso = e_end vd"
    using regions_found(2) [OF assms(2) r2] by blast
  obtain m3 where m3: "(if e_start vd - e_end vv > 0 then book K (e_end vv) (e_start vd - e_end vv) m2 else Inr m2) = Inr m3"
    using assms(5) sb m1 vvar m2 vdso
    by (auto simp: confine_addr_space_def Let_def b_def run_simps cong: if_cong)
  have "prot_at m3 x = prot_at m2 x" if "e_start vd \<le> x \<or> x < e_end vv" for x
    using m3 that r book_up_to(2,4) [OF _ k, of "e_end vv" "e_start vd" m2 m3] by (auto split: if_splits)
  then have r3: "regions_mapped vv vd st (prot_at m3)"
    using ir(2) by (intro regions_mappedI [OF r2]) blast
  obtain stack where stack: "getStackRegion K sp ?stale m3 = Inr stack" "a_addr stack = e_start st"
    using regions_found(3) [OF assms(2) r3] by blast
  have m4: "book K (e_end vd) (e_start st - e_end vd) m3 = Inr m'"
    using assms(5) sb m1 vvar m2 vdso m3 stack
    by (auto simp: confine_addr_space_def Let_def b_def run_simps cong: if_cong)
  have "prot_at m' x = prot_at m3 x" if "e_start st \<le> x \<or> x < e_end vd" for x
    using that r book_up_to(2,4) [OF m4 k] by blast
  then have r4: "regions_mapped vv vd st (prot_at m')"
    using ir(3) by (intro regions_mappedI [OF r3]) blast
  show thesis by (rule that [OF sb m1 m2 m3 m4 r4])
qed

lemma confine_layout:
  assumes "kernel_ok K" "knows_regions K sp vv vd st" "regions_above rk vv vd st"
    and "regions_mapped vv vd st (prot_at m)" "confine_addr_space K brk sp rk m = Inr m'"
  shows "confined brk st rk (prot_at m')"
    and "unat brk + 4096 \<le> 2 ^ 32 * (unat rk + 1) \<Longrightarrow> 2 ^ 32 * (unat rk + 2) \<le> unat (e_end vv) \<Longrightarrow>
      2 ^ 32 * (unat rk + 2) \<le> unat (e_end vd) \<Longrightarrow> rank_range rk x \<Longrightarrow> prot_at m' x = prot_at m x"
    and "brk \<le> y \<Longrightarrow> unat y < 2 ^ 32 * (unat rk + 1) \<Longrightarrow> y < e_end vv \<Longrightarrow> y < e_end vd \<Longrightarrow>
      prot_at m' y = Some PROT_NONE"
proof -
  define b :: u64 where "b = push_bit 32 1 + scast rk * push_bit 32 1"
  define e where "e = b + push_bit 32 1"
  have rk: "unat rk < 2 ^ 14" using assms(3) by (simp add: regions_above_def)
  have u: "unat b = 2 ^ 32 * (unat rk + 1)" "unat e = 2 ^ 32 * (unat rk + 2)"
    using rank_begin [OF rk] by (simp_all add: b_def e_def)
  have range: "rank_range rk x \<longleftrightarrow> b \<le> x \<and> x < e" for x
    by (simp only: rank_range_def word_le_nat_alt word_less_nat_alt u)
  obtain m0 m1 m2 m3 where sb: "sys_sbrk K brk 0x1000 m = (brk, m0)" "brk \<noteq> -1"
    and m1: "book K brk (b - brk) m0 = Inr m1" and m2: "book K e (e_start vv - e) m1 = Inr m2"
    and m3: "(if e_start vd - e_end vv > 0 then book K (e_end vv) (e_start vd - e_end vv) m2 else Inr m2) = Inr m3"
    and m4: "book K (e_end vd) (e_start st - e_end vd) m3 = Inr m'"
    and "regions_mapped vv vd st (prot_at m')"
    by (rule confine_steps [OF assms(1-5), folded b_def, folded e_def])
  note k = assms(1)
  have heap: "prot_at m0 x \<noteq> None" if "prot_at m x \<noteq> None" for x
    using that sb by (auto simp: sys_sbrk_def prot_map_pages split: if_splits)
  have m3': "prot_at m3 x \<noteq> None" if "prot_at m2 x \<noteq> None \<or> e_end vv \<le> x \<and> x < e_start vd" for x
  proof (cases "e_start vd - e_end vv > 0")
    case True
    then show ?thesis using that m3 book_up_to(1,3) [OF _ k, of "e_end vv" "e_start vd" m2 m3 x] by auto
  next
    case False
    then have "e_start vd = e_end vv" by (simp add: word_gt_0)
    then show ?thesis using that m3 False by auto
  qed
  have sp: "prot_at m' x \<noteq> None" if "prot_at m x \<noteq> None" for x
    using heap [OF that] book_up_to(3) [OF m1 k] book_up_to(3) [OF m2 k] m3' book_up_to(3) [OF m4 k] by blast
  show "confined brk st rk (prot_at m')"
    unfolding confined_def
  proof (intro allI impI)
    fix x assume x: "brk \<le> x" "x < e_start st" "\<not> rank_range rk x"
    consider "x < b" | "e \<le> x" "x < e_start vv" | "in_entry vv x" | "e_end vv \<le> x" "x < e_start vd"
      | "in_entry vd x" | "e_end vd \<le> x" "x < e_start st"
      using x(2,3) unfolding range in_entry_def by (meson not_le)
    then show "prot_at m' x \<noteq> None"
    proof cases
      case 1
      then have "prot_at m1 x \<noteq> None" using book_up_to(1) [OF m1 k x(1)] by simp
      then show ?thesis using book_up_to(3) [OF m2 k] m3' book_up_to(3) [OF m4 k] by blast
    next
      case 2
      then have "prot_at m2 x \<noteq> None" using book_up_to(1) [OF m2 k] by simp
      then show ?thesis using m3' book_up_to(3) [OF m4 k] by blast
    next
      case 4
      then show ?thesis using m3' book_up_to(3) [OF m4 k] by blast
    next
      case 6
      then show ?thesis using book_up_to(1) [OF m4 k] by simp
    next
      case 3
      then have "prot_at m x = Some (entry_prot vv)" using assms(4) by (simp add: regions_mapped_def)
      then show ?thesis using sp by blast
    next
      case 5
      then have "prot_at m x = Some (entry_prot vd)" using assms(4) by (simp add: regions_mapped_def)
      then show ?thesis using sp by blast
    qed
  qed
  have be: "b \<le> e" by (simp only: word_le_nat_alt u) simp
  have m3b: "prot_at m3 x = prot_at m2 x" if "x < e_end vv" for x
    using m3 book_up_to(2) [OF _ k that] by (auto split: if_splits)
  have tail: "prot_at m' x = prot_at m1 x" if "x < e" "x < e_end vv" "x < e_end vd" for x
    using that book_up_to(2) [OF m2 k] m3b book_up_to(2) [OF m4 k] by simp
  show "prot_at m' y = Some PROT_NONE"
    if y: "brk \<le> y" "unat y < 2 ^ 32 * (unat rk + 1)" "y < e_end vv" "y < e_end vd"
  proof -
    have "y < b" using y(2) by (simp only: word_less_nat_alt u)
    then have "y < e" using be by (rule order_less_le_trans)
    then show ?thesis using tail y(3,4) book_up_to(1) [OF m1 k y(1) \<open>y < b\<close>] by simp
  qed
  show "prot_at m' x = prot_at m x"
    if below: "unat brk + 4096 \<le> 2 ^ 32 * (unat rk + 1)"
      and above: "2 ^ 32 * (unat rk + 2) \<le> unat (e_end vv)" "2 ^ 32 * (unat rk + 2) \<le> unat (e_end vd)"
      and x: "rank_range rk x"
  proof -
    have "b \<le> x" "x < e" using x by (simp_all add: range)
    moreover have "x < e_end vv" "x < e_end vd"
      using \<open>x < e\<close> above by (auto simp only: word_less_nat_alt u intro: order_less_le_trans)
    moreover have "page_aligned b" using u(1) by (rule page_aligned_4GB)
    ultimately have "prot_at m' x = prot_at m0 x" using tail book_up_to(4) [OF m1 k] by simp
    also have "prot_at m0 x = prot_at m x"
    proof -
      have al: "page_aligned brk" by (rule book_cases(1) [OF m1 k])
      have n: "unat (brk + 0x1000) = unat brk + 4096"
        using below u(1) unat_u64 [of b] by (simp add: unat_word_ariths)
      have "page_aligned (brk + 0x1000)" using al by (simp add: page_aligned_iff n)
      then have "ROUND_UP (brk + 0x1000) - ROUND_UP brk = 0x1000" using al by (simp add: ROUND_UP_aligned)
      moreover have "\<not> in_range brk 0x1000 x"
        using below \<open>b \<le> x\<close> u(1) unat_u64 [of b]
        by (subst in_range_unat) (simp_all add: no_wrap_def word_le_nat_alt)
      ultimately show ?thesis
        using sb al by (auto simp: sys_sbrk_def prot_map_pages ROUND_UP_aligned split: if_splits)
    qed
    finally show ?thesis .
  qed
qed

text \<open>What lies above the stack's start, the stack included, is untouched, and so is the rest of the state.\<close>

lemma confine_frame:
  assumes "kernel_ok K" "knows_regions K sp vv vd st" "regions_above rk vv vd st"
    and "regions_mapped vv vd st (prot_at m)" "confine_addr_space K brk sp rk m = Inr m'"
  shows "e_start st \<le> x \<Longrightarrow> mem m' x = mem m x \<and> prot_at m' x = prot_at m x"
    and "\<exists>f p. m' = m\<lparr>mem := f, prot_at := p\<rparr>"
    and "regions_mapped vv vd st (prot_at m')"
proof -
  define e where "e = (push_bit 32 1 + scast rk * push_bit 32 1 + push_bit 32 1 :: u64)"
  note k = assms(1) and r = assms(3) [unfolded regions_above_def]
  have rk: "unat rk < 2 ^ 14" using r by blast
  obtain m0 m1 m2 m3 where sb: "sys_sbrk K brk 0x1000 m = (brk, m0)"
    and m1: "book K brk (push_bit 32 1 + scast rk * push_bit 32 1 - brk) m0 = Inr m1"
    and m2: "book K e (e_start vv - e) m1 = Inr m2"
    and m3: "(if e_start vd - e_end vv > 0 then book K (e_end vv) (e_start vd - e_end vv) m2 else Inr m2) = Inr m3"
    and m4: "book K (e_end vd) (e_start st - e_end vd) m3 = Inr m'"
    and r4: "regions_mapped vv vd st (prot_at m')"
    by (rule confine_steps [OF assms, folded e_def])
  show "regions_mapped vv vd st (prot_at m')" by (rule r4)
  note start = confine_start [OF k rk sb m1]
  show "mem m' x = mem m x \<and> prot_at m' x = prot_at m x" if x: "e_start st \<le> x"
  proof -
    have ord: "e_start vd \<le> x" "e_start vv \<le> x" using x r by (auto intro: order_trans)
    then have "unat (e_start vv) \<le> unat x" by (simp add: word_le_nat_alt)
    then have "2 ^ 32 * (unat rk + 2) \<le> unat x" using r by linarith
    then have "mem m1 x = mem m x \<and> prot_at m1 x = prot_at m x" by (rule start(3))
    moreover have "mem m3 x = mem m2 x \<and> prot_at m3 x = prot_at m2 x"
      using m3 book_keeps_beyond [OF _ k _ ord(1)] r by (auto split: if_splits)
    ultimately show ?thesis
      using book_keeps_beyond [OF m2 k _ ord(2)] book_keeps_beyond [OF m4 k _ x] r by simp
  qed
  have only: "\<exists>f p. mb = ma\<lparr>mem := f, prot_at := p\<rparr>" if bk: "book K a l ma = Inr mb" for a l and ma mb :: "'a machine_scheme"
    using book_cases(5) [OF bk k] by (auto simp: map_pages_def)
  have "\<exists>f p. m0 = m\<lparr>mem := f, prot_at := p\<rparr>"
  proof (cases "m0 = m")
    case True
    then have "m0 = m\<lparr>mem := mem m, prot_at := prot_at m\<rparr>" by simp
    then show ?thesis by blast
  next
    case False
    then show ?thesis using start(1) by (auto simp: map_pages_def)
  qed
  moreover have "\<exists>f p. m3 = m2\<lparr>mem := f, prot_at := p\<rparr>"
  proof (cases "e_start vd - e_end vv > 0")
    case True
    then show ?thesis using only m3 by simp
  next
    case False
    then have "m3 = m2\<lparr>mem := mem m2, prot_at := prot_at m2\<rparr>" using m3 by simp
    then show ?thesis by blast
  qed
  ultimately show "\<exists>f p. m' = m\<lparr>mem := f, prot_at := p\<rparr>"
    using only [OF m1] only [OF m2] only [OF m4] by fastforce
qed

text \<open>
  C10. A confined rank stays in its 4 GB: after \<open>confine_addr_space\<close> has returned, every mapping the
  kernel grants without \<open>MAP_FIXED\<close> lies, as far as it is between the old program break and the stack,
  in the range of the rank.
\<close>

theorem confine_addr_space_confines:
  assumes "kernel_ok K" "knows_regions K sp vv vd st" "regions_above rk vv vd st"
    and "regions_mapped vv vd st (prot_at m)" "confine_addr_space K brk sp rk m = Inr m'"
    and "sys_mmap K a n p fl fd off m' = (r, m'')" "r \<noteq> MAP_FAILED" "\<not> has_flag fl MAP_FIXED"
    and "in_range r (ROUND_UP n) x" "brk \<le> x" "x < e_start st"
  shows "rank_range rk x"
proof -
  have "placement_ok (prot_at m') a n fl r"
    using assms(6,1) by (cases rule: sys_mmap_cases) (use assms(7) in simp_all)
  then have "prot_at m' x = None" using assms(8,9) by (simp add: placement_ok_def)
  then show ?thesis
    using confine_layout(1) [OF assms(1-5)] assms(10,11) by (auto simp: confined_def)
qed

lemma book_granted:
  assumes "grants_at K" "page_aligned a" "a \<noteq> 0" "a < e" "page_aligned e" "unat e + 4096 < 2 ^ 64"
  shows "\<exists>m'. book K a (e - a) m = Inr m'"
proof -
  have n: "unat (e - a) = unat e - unat a" "unat a < unat e"
    using assms(4) by (simp_all add: unat_sub word_less_nat_alt word_le_nat_alt)
  have "unat (ROUND_UP (e - a)) < unat e - unat a + 4096"
    using ROUND_UP_bounds(2) [of "e - a"] n assms(6) by simp
  then have "unat (e - a) + 4095 < 2 ^ 64" "unat a + unat (ROUND_UP (e - a)) < 2 ^ 64"
    using n assms(6) by linarith+
  then have "placement_ok (prot_at m) a (e - a) (MAP_FIXED OR MAP_ANONYMOUS OR MAP_PRIVATE) a"
    using assms(2,3) by (simp add: placement_ok_def map_fixed_flags no_wrap_def)
  then have "k_place K (prot_at m) a (e - a) PROT_NONE (MAP_FIXED OR MAP_ANONYMOUS OR MAP_PRIVATE) (-1) 0 = Some a"
    using assms(1) by (simp add: grants_at_def map_fixed_flags)
  moreover have "e - a \<noteq> 0" using assms(4) by auto
  moreover have "a \<noteq> MAP_FAILED" using assms(2) MAP_FAILED_unaligned by auto
  ultimately show ?thesis by (simp add: book_def sys_mmap_def map_fixed_flags)
qed

lemma confine_succeeds:
  assumes "grants_at K" "knows_regions K sp vv vd st" "\<not> k_brk_fails K" "kernel_ok K"
    and "regions_above rk vv vd st" "regions_mapped vv vd st (prot_at m)"
    and "page_aligned brk" "brk \<noteq> 0" "unat brk < 2 ^ 32 * (unat rk + 1)"
    and "page_aligned (e_end vv)" "page_aligned (e_end vd)" "e_end vd < e_start st" "unat (e_start st) < 2 ^ 48"
  shows "\<exists>m'. confine_addr_space K brk sp rk m = Inr m'"
proof -
  note k = assms(4) and r = assms(5) [unfolded regions_above_def] and ir = in_regions [OF assms(5)]
  have rk: "unat rk < 2 ^ 14" using r by blast
  let ?stale = "area_of_bytes (k_stale K sizeof_Area)"
  define b where "b = (4294967296 + scast rk * 4294967296 :: u64)"
  define e where "e = (8589934592 + scast rk * 4294967296 :: u64)"
  have u: "unat b = 2 ^ 32 * (unat rk + 1)" "unat e = 2 ^ 32 * (unat rk + 2)"
    using rank_begin [OF rk] by (simp_all add: b_def e_def add.assoc)
  have al: "page_aligned b" "page_aligned e" by (rule page_aligned_4GB, rule u)+
  have ord: "unat brk < 2 ^ 32 * (unat rk + 1)" "2 ^ 32 * (unat rk + 2) < unat (e_start vv)"
    "unat (e_start vv) \<le> unat (e_end vv)" "unat (e_end vv) \<le> unat (e_start vd)"
    "unat (e_start vd) \<le> unat (e_end vd)" "unat (e_end vd) < unat (e_start st)"
    using r assms(9,12) by (simp_all add: word_le_nat_alt word_less_nat_alt)
  have top: "unat (e_end vd) < 2 ^ 48" "unat (e_start vd) < 2 ^ 48" "unat (e_end vv) < 2 ^ 48" "unat (e_start vv) < 2 ^ 48"
    using ord(3-6) assms(13) by linarith+
  moreover have "unat b < 2 ^ 48" using ord(2) top(4) by (simp add: u)
  ultimately have small: "unat b + 4096 < 2 ^ 64" "unat (e_start vv) + 4096 < 2 ^ 64"
      "unat (e_start vd) + 4096 < 2 ^ 64" "unat (e_start st) + 4096 < 2 ^ 64"
    using assms(13) by simp_all
  have "0 < unat e" by (simp add: u)
  moreover have "0 < unat (e_end vv)" "0 < unat (e_end vd)" using ord(2-5) by linarith+
  ultimately have nz: "e \<noteq> 0" "e_end vv \<noteq> 0" "e_end vd \<noteq> 0" by (simp_all add: unat_gt_0)
  have less: "brk < b" "e < e_start vv" "e_end vd < e_start st"
    unfolding word_less_nat_alt u using ord(1,2,6) by simp_all
  have brk: "brk \<noteq> -1" using assms(7) MAP_FAILED_unaligned by (auto simp: MAP_FAILED_def)
  obtain m0 where sb: "sys_sbrk K brk 0x1000 m = (brk, m0)" using assms(3) by (simp add: sys_sbrk_def)
  obtain m1 where m1: "book K brk (b - brk) m0 = Inr m1"
    using book_granted [OF assms(1,7,8) less(1) al(1) small(1)] by blast
  have pb: "push_bit 32 1 = (4294967296 :: u64)" by simp
  have "unat (e_start vv) \<le> unat x" if "e \<in> {vv, vd, st}" "in_entry e x" for e x
    using ir(1) [OF that] by (simp add: word_le_nat_alt)
  then have "2 ^ 32 * (unat rk + 2) \<le> unat x" if "e \<in> {vv, vd, st}" "in_entry e x" for e x
    using that ord(2) by (meson less_imp_le order_trans)
  then have r1: "regions_mapped vv vd st (prot_at m1)"
    using confine_start(3) [OF k rk sb, unfolded pb, OF m1 [unfolded b_def]]
    by (intro regions_mappedI [OF assms(6)]) blast
  obtain vvar where vvar: "getVvarRegion K ?stale m1 = Inr vvar" "a_addr vvar = e_start vv" "a_endAddr vvar = e_end vv"
    using regions_found(1) [OF assms(2) r1] by blast
  obtain m2 where m2: "book K e (e_start vv - e) m1 = Inr m2"
    using book_granted [OF assms(1) al(2) nz(1) less(2) _ small(2)] r by blast
  have r2: "regions_mapped vv vd st (prot_at m2)"
    using book_keeps_beyond(2) [OF m2 k] r ir(1) by (intro regions_mappedI [OF r1]) blast
  obtain vdso where vdso: "getVdsoRegion K ?stale m2 = Inr vdso" "a_addr vdso = e_start vd" "a_endAddr vdso = e_end vd"
    using regions_found(2) [OF assms(2) r2] by blast
  have "\<exists>m3. (if e_start vd - e_end vv > 0 then book K (e_end vv) (e_start vd - e_end vv) m2 else Inr m2) = Inr m3"
    using book_granted [OF assms(1,10) nz(2) _ _ small(3)] r
    by (cases "e_end vv < e_start vd") (auto simp: word_gt_0)
  then obtain m3 where m3: "(if e_start vd - e_end vv > 0 then book K (e_end vv) (e_start vd - e_end vv) m2 else Inr m2) = Inr m3"
    by blast
  have "prot_at m3 x = prot_at m2 x" if "e_start vd \<le> x \<or> x < e_end vv" for x
    using m3 that r book_up_to(2,4) [OF _ k, of "e_end vv" "e_start vd" m2 m3] by (auto split: if_splits)
  then have r3: "regions_mapped vv vd st (prot_at m3)"
    using ir(2) by (intro regions_mappedI [OF r2]) blast
  obtain stack where stack: "getStackRegion K sp ?stale m3 = Inr stack" "a_addr stack = e_start st"
    using regions_found(3) [OF assms(2) r3] by blast
  obtain m4 where m4: "book K (e_end vd) (e_start st - e_end vd) m3 = Inr m4"
    using book_granted [OF assms(1,11) nz(3) less(3) _ small(4)] r by blast
  have be: "b + 4294967296 = e" by (simp add: b_def e_def)
  have "confine_addr_space K brk sp rk m = Inr m4"
    unfolding confine_addr_space_def Let_def sb prod.case pb b_def [symmetric] if_not_P [OF brk] m1 andThen.simps
      vvar be m2 vdso m3 stack m4 ..
  then show ?thesis by blast
qed

subsection \<open>A kernel with the three regions\<close>

definition region_entry :: "va \<Rightarrow> va \<Rightarrow> bool \<Rightarrow> bool \<Rightarrow> string \<Rightarrow> maps_entry" where
  "region_entry a b w x name = \<lparr>e_start = a, e_end = b, e_read = True, e_write = w, e_exec = x,
     e_shared = False, e_offset = 0, e_major = 0, e_minor = 0, e_inode = 0, e_blanks = 1, e_name = bytes_of name\<rparr>"

definition vvar_entry :: maps_entry where
  "vvar_entry = region_entry 0x7ffff0000000 0x7ffff0003000 False False ''[vvar]''"
definition vdso_entry :: maps_entry where
  "vdso_entry = region_entry 0x7ffff0003000 0x7ffff0005000 False True ''[vdso]''"
definition stack_entry :: maps_entry where
  "stack_entry = region_entry 0x7ffff8000000 0x7ffff8002000 True False ''[stack]''"

lemmas region_entries = vvar_entry_def vdso_entry_def stack_entry_def region_entry_def

text \<open>
  The list of this kernel names the special regions that are mapped, and describes every other page by a
  line of its own.
\<close>

definition special_entries :: "layout \<Rightarrow> maps_entry list" where
  "special_entries P = (if regions_mapped vvar_entry vdso_entry stack_entry P
     then [vvar_entry, vdso_entry, stack_entry] else [])"

definition listed_entries :: "layout \<Rightarrow> maps_entry list" where
  "listed_entries P = special_entries P @
     page_entries (\<lambda>x. if \<exists>e \<in> set (special_entries P). in_entry e x then None else P x)"

definition rank_kernel :: kernel where
  "rank_kernel = plain_kernel\<lparr>k_maps := (\<lambda>P. Some (maps_text (listed_entries P)))\<rparr>"

definition rank_machine :: machine where
  "rank_machine = empty_machine\<lparr>prot_at := (\<lambda>x. if in_range 0x7ffff0000000 0x3000 x then Some PROT_READ
     else if in_range 0x7ffff0003000 0x2000 x then Some (PROT_READ OR PROT_EXEC)
     else if in_range 0x7ffff8000000 0x2000 x then Some (PROT_READ OR PROT_WRITE) else None)\<rparr>"

lemma rank_kernel_ok: "kernel_ok rank_kernel" "grants_at rank_kernel" "\<not> k_brk_fails rank_kernel"
proof -
  have same: "k_place rank_kernel = k_place plain_kernel" "k_mprotect rank_kernel = k_mprotect plain_kernel"
    "k_brk_fails rank_kernel = k_brk_fails plain_kernel" by (simp_all add: rank_kernel_def)
  show "kernel_ok rank_kernel" using plain_kernel_ok unfolding kernel_ok_def same .
  show "grants_at rank_kernel" using plain_grants_at unfolding grants_at_def same .
  show "\<not> k_brk_fails rank_kernel" unfolding same by (simp add: plain_kernel_def)
qed

lemma region_names:
  "e_name vvar_entry = [0x5b, 0x76, 0x76, 0x61, 0x72, 0x5d]" "e_name vdso_entry = [0x5b, 0x76, 0x64, 0x73, 0x6f, 0x5d]"
  "e_name stack_entry = [0x5b, 0x73, 0x74, 0x61, 0x63, 0x6b, 0x5d]"
  "bytes_of ''[vvar]'' = [0x5b, 0x76, 0x76, 0x61, 0x72, 0x5d]" "bytes_of ''[vdso]'' = [0x5b, 0x76, 0x64, 0x73, 0x6f, 0x5d]"
  "bytes_of ''[stack]'' = [0x5b, 0x73, 0x74, 0x61, 0x63, 0x6b, 0x5d]"
  by (simp_all add: region_entries bytes_of_def)

lemma special_ok: "list_all (\<lambda>e. entry_ok e \<and> e_start e < e_end e) [vvar_entry, vdso_entry, stack_entry]"
  by (simp add: entry_ok_def region_names NEWLINE_def ch_def FILENAMESIZE_def)
     (simp add: region_entries word_le_nat_alt word_less_nat_alt)

lemma in_special:
  "in_entry vvar_entry x \<longleftrightarrow> in_range 0x7ffff0000000 0x3000 x"
  "in_entry vdso_entry x \<longleftrightarrow> in_range 0x7ffff0003000 0x2000 x"
  "in_entry stack_entry x \<longleftrightarrow> in_range 0x7ffff8000000 0x2000 x"
  by (simp_all add: in_entry_def region_entries in_range_unat no_wrap_def word_le_nat_alt word_less_nat_alt)

lemma in_special_page:
  assumes "e \<in> set (special_entries P)"
  shows "in_entry e (ROUND_DOWN x) \<longleftrightarrow> in_entry e x"
proof -
  have le: "4096 * i \<le> unat x div 4096 * 4096 \<longleftrightarrow> 4096 * i \<le> unat x" for i
    using less_eq_div_iff_mult_less_eq [of 4096 i "unat x"] by (simp add: mult.commute)
  have aligned: "a \<le> ROUND_DOWN x \<longleftrightarrow> a \<le> x" if "unat a = 4096 * i" for a i
    by (simp only: word_le_nat_alt unat_ROUND_DOWN that le)
  have "e \<in> {vvar_entry, vdso_entry, stack_entry}"
    using assms by (auto simp: special_entries_def split: if_splits)
  then have "unat (e_start e) = 4096 * (unat (e_start e) div 4096)" "unat (e_end e) = 4096 * (unat (e_end e) div 4096)"
    by (auto simp: region_entries)
  note aligned [OF this(1)] aligned [OF this(2)]
  then show ?thesis by (simp only: in_entry_def not_le [symmetric])
qed

lemma listed_describes:
  assumes "layout_ok P"
  shows "describes (listed_entries P) P"
proof -
  let ?Q = "\<lambda>x. if \<exists>e \<in> set (special_entries P). in_entry e x then None else P x"
  have "layout_ok ?Q"
    using assms by (simp add: layout_ok_def in_special_page)
  then have pages: "describes (page_entries ?Q) ?Q" by (rule page_entries_describe)
  have "list_all (\<lambda>e. entry_ok e \<and> e_start e < e_end e) (special_entries P)"
    using special_ok by (simp add: special_entries_def)
  moreover have "P x \<noteq> None" if "e \<in> set (special_entries P)" "in_entry e x" for e x
    using that by (auto simp: special_entries_def regions_mapped_def split: if_splits)
  ultimately show ?thesis
    using pages unfolding describes_def listed_entries_def by (auto split: if_splits)
qed

text \<open>A kernel that does both: its list is true, and it names the special regions.\<close>

lemma rank_kernel_maps_ok: "maps_ok rank_kernel"
  using listed_describes by (auto simp: maps_ok_def rank_kernel_def plain_kernel_def stale_ok_def)

lemma find_no_name: "(\<And>e. e \<in> set es \<Longrightarrow> \<not> P e) \<Longrightarrow> find P es = None"
  by (auto simp: find_None_iff)

lemma rank_kernel_regions: "knows_regions rank_kernel 0x7ffff8001000 vvar_entry vdso_entry stack_entry"
proof -
  have names: "list_all entry_ok (page_entries P)" for P
  proof -
    have "entry_ok (page_entry P i)" if "i < 2 ^ 35" for i
      using that unat_page [of i] unat_page [of "Suc i"]
      by (simp only: entry_ok_def page_entry_fields word_le_nat_alt word_less_nat_alt) (simp add: FILENAMESIZE_def)
    then show ?thesis by (auto simp: page_entries_def list_all_iff)
  qed
  have "stale_ok rank_kernel" by (simp add: stale_ok_def rank_kernel_def plain_kernel_def)
  moreover have "e_end stack_entry \<ge> 0x7ffff8001000" by (simp add: region_entries word_le_nat_alt)
  ultimately show ?thesis
    using special_ok names
    by (simp add: knows_regions_def region_names rank_kernel_def plain_kernel_def listed_entries_def special_entries_def)
       (fastforce simp: region_names)
qed

lemma rank_regions:
  "regions_above 1 vvar_entry vdso_entry stack_entry" "regions_mapped vvar_entry vdso_entry stack_entry (prot_at rank_machine)"
proof -
  show "regions_above 1 vvar_entry vdso_entry stack_entry"
    by (simp add: regions_above_def region_entries page_aligned_iff word_le_nat_alt)
  show "regions_mapped vvar_entry vdso_entry stack_entry (prot_at rank_machine)"
    by (simp add: regions_mapped_def in_special)
       (auto simp: rank_machine_def entry_prot_def region_entries in_range_unat no_wrap_def)
qed

lemma rank_confines: "\<exists>m'. confine_addr_space rank_kernel 0x10000 0x7ffff8001000 1 rank_machine = Inr m'"
  by (rule confine_succeeds [OF rank_kernel_ok(2) rank_kernel_regions rank_kernel_ok(3,1) rank_regions])
     (simp_all add: region_entries page_aligned_iff word_less_nat_alt)

theorem confine_addr_space_confines_witness:
  "\<exists>m' m''. confine_addr_space rank_kernel 0x10000 0x7ffff8001000 1 rank_machine = Inr m' \<and>
     sys_mmap rank_kernel 0x240000000 0x1000 PROT_READ (MAP_PRIVATE OR MAP_ANONYMOUS) (-1) 0 m' = (0x240000000, m'') \<and>
     rank_range 1 0x240000000"
proof -
  let ?fl = "MAP_PRIVATE OR MAP_ANONYMOUS"
  obtain m' where m': "confine_addr_space rank_kernel 0x10000 0x7ffff8001000 1 rank_machine = Inr m'"
    using rank_confines by blast
  have up: "ROUND_UP 0x1000 = 0x1000" by (rule ROUND_UP_aligned) (simp add: page_aligned_iff)
  have free: "prot_at m' x = None" if "in_range 0x240000000 0x1000 x" for x
  proof -
    have x: "0x240000000 \<le> unat x" "unat x < 0x240001000"
      using that by (simp_all add: in_range_unat no_wrap_def)
    then have "rank_range 1 x" by (simp add: rank_range_def)
    then have "prot_at m' x = prot_at rank_machine x"
      by (intro confine_layout(2) [OF rank_kernel_ok(1) rank_kernel_regions rank_regions m'])
         (simp_all add: region_entries)
    then show ?thesis using x by (simp add: rank_machine_def in_range_unat no_wrap_def)
  qed
  have flags: "\<not> has_flag ?fl MAP_FIXED" "has_flag ?fl MAP_ANONYMOUS" by (simp_all add: flag_defs has_flag_def)
  have "placement_ok (prot_at m') 0x240000000 0x1000 ?fl 0x240000000"
    using free flags(1) by (simp add: placement_ok_def page_aligned_iff no_wrap_def up del: has_flag_OR)
  then have "k_place rank_kernel (prot_at m') 0x240000000 0x1000 PROT_READ ?fl (-1) 0 = Some 0x240000000"
    by (simp add: rank_kernel_def plain_kernel_def)
  then obtain m'' where m'': "sys_mmap rank_kernel 0x240000000 0x1000 PROT_READ ?fl (-1) 0 m' = (0x240000000, m'')"
    using flags(2) by (simp add: sys_mmap_def del: has_flag_OR)
  have "rank_range 1 0x240000000"
    by (rule confine_addr_space_confines [OF rank_kernel_ok(1) rank_kernel_regions rank_regions m' m'' _ flags(1)])
       (simp_all add: MAP_FAILED_def up in_range_def region_entries word_le_nat_alt word_less_nat_alt)
  then show ?thesis using m' m'' by blast
qed

end
