(* ===== verification/SbrkWrapper.thy ===== *)
theory SbrkWrapper
  imports MmapWrapper
begin

text \<open>
  The lower half's \<open>sbrk\<close> (\<open>sbrk-wrapper.c\<close>): the heap of the upper half is a range of its own that
  grows by fixed mappings behind its end. \<open>__curbrk\<close> is a static variable of that file, so the call
  of \<open>brk(0)\<close> does not set it.
\<close>

section \<open>Operations\<close>

definition setEndOfHeap :: "va \<Rightarrow> 'a lower_half_scheme \<Rightarrow> 'a lower_half_scheme" where
  "setEndOfHeap addr m = m\<lparr>endOfHeap := ROUND_UP addr\<rparr>"

definition setUhBrk :: "va \<Rightarrow> 'a lower_half_scheme \<Rightarrow> 'a lower_half_scheme" where
  "setUhBrk addr m = m\<lparr>curbrk := addr\<rparr>"

text \<open>\<open>__sbrkWrapper\<close>; \<open>intptr_t\<close> is a word read as signed where the code compares it with 0.\<close>

definition sbrk_lh :: "kernel \<Rightarrow> u64 \<Rightarrow> 'a lower_half_scheme \<Rightarrow> (va \<times> 'a lower_half_scheme) run" where
  "sbrk_lh K increment m =
     (if curbrk m = 0 \<and> k_brk_fails K then Inr (-1, m)
      else
        let m = (if curbrk m = 0 then m\<lparr>endOfHeap := curbrk m\<rparr> else m)
        in if increment = 0 then Inr (curbrk m, m)
           else
             let oldbrk = curbrk m
             in if (if 0 <s increment then oldbrk + increment < oldbrk else oldbrk < - increment)
                then Inr (-1, m)
                else
                  andThen
                    (if oldbrk + increment > endOfHeap m
                     then mmapWrapper K (endOfHeap m) (ROUND_UP (oldbrk + increment - endOfHeap m))
                            (PROT_READ OR PROT_WRITE) (MAP_PRIVATE OR MAP_FIXED OR MAP_ANONYMOUS) (-1) 0 m
                     else Inr (0, m)) (\<lambda>(ret, m).
                  if ret = MAP_FAILED then Inr (-1, m)
                  else Inr (oldbrk, m\<lparr>endOfHeap := ROUND_UP (oldbrk + increment),
                                      curbrk := oldbrk + increment\<rparr>)))"

definition sbrkWrapper :: "kernel \<Rightarrow> u64 \<Rightarrow> 'a lower_half_scheme \<Rightarrow> (va \<times> 'a lower_half_scheme) run" where
  "sbrkWrapper K increment m = in_lower_half K (lhFsAddr (lhInfo m)) (sbrk_lh K increment) m"

section \<open>The heap\<close>

text \<open>
  What is true of the heap behind a base at every moment: its end is page aligned and not below the break, and
  everything from the base to the end is mapped readable and writable. No call compares the break with the
  base, so the break may be anywhere below the end. A well-formed heap has its break at the base or above.
\<close>

definition heap_mapped :: "va \<Rightarrow> 'a lower_half_scheme \<Rightarrow> bool" where
  "heap_mapped b m \<longleftrightarrow> curbrk m \<le> endOfHeap m \<and> page_aligned (endOfHeap m) \<and> (curbrk m = 0 \<longrightarrow> endOfHeap m = 0) \<and>
     (\<forall>x. b \<le> x \<and> x < endOfHeap m \<longrightarrow> prot_at m x = Some (PROT_READ OR PROT_WRITE))"

definition heap_ok :: "va \<Rightarrow> 'a lower_half_scheme \<Rightarrow> bool" where
  "heap_ok b m \<longleftrightarrow> b \<noteq> 0 \<and> b \<le> curbrk m \<and> heap_mapped b m"

text \<open>The break a call asks for, in the integers.\<close>

definition wanted :: "va \<Rightarrow> u64 \<Rightarrow> int" where
  "wanted brk increment = uint brk + sint increment"

text \<open>When a call has to fail: the break would leave the address space, or the kernel refuses.\<close>

definition sbrk_refused :: "kernel \<Rightarrow> u64 \<Rightarrow> 'a lower_half_scheme \<Rightarrow> bool" where
  "sbrk_refused K increment m \<longleftrightarrow>
     wanted (curbrk m) increment < 0 \<or> 2 ^ 64 \<le> wanted (curbrk m) increment \<or>
     curbrk m = 0 \<and> k_brk_fails K \<or>
     endOfHeap m < curbrk m + increment \<and>
       (let len = ROUND_UP (curbrk m + increment - endOfHeap m)
        in len = 0 \<or> k_place K (prot_at m) (endOfHeap m) len (PROT_READ OR PROT_WRITE)
             (MAP_PRIVATE OR MAP_FIXED OR MAP_ANONYMOUS) (-1) 0 = None)"

lemma sbrk_lh_alt:
  assumes "curbrk m \<noteq> 0 \<or> \<not> k_brk_fails K \<and> endOfHeap m = 0"
  shows "sbrk_lh K increment m =
     (if increment = 0 then Inr (curbrk m, m)
      else if (if 0 <s increment then curbrk m + increment < curbrk m else curbrk m < - increment)
      then Inr (-1, m)
      else if curbrk m + increment > endOfHeap m then
        andThen (map_fixed K (endOfHeap m) (ROUND_UP (curbrk m + increment - endOfHeap m))
           (PROT_READ OR PROT_WRITE) m) (\<lambda>(ret, m').
          if ret = MAP_FAILED then Inr (-1, m')
          else Inr (curbrk m, m'\<lparr>endOfHeap := ROUND_UP (curbrk m + increment), curbrk := curbrk m + increment\<rparr>))
      else Inr (curbrk m, m\<lparr>endOfHeap := ROUND_UP (curbrk m + increment), curbrk := curbrk m + increment\<rparr>))"
proof -
  have "m\<lparr>endOfHeap := endOfHeap m\<rparr> = m" by (cases m) simp
  then have same: "(if curbrk m = 0 then m\<lparr>endOfHeap := curbrk m\<rparr> else m) = m" using assms by auto
  have brk: "\<not> (curbrk m = 0 \<and> k_brk_fails K)" using assms by auto
  show ?thesis unfolding sbrk_lh_def Let_def same if_not_P [OF brk] map_fixed_def
    by (simp only: andThen.simps split_conv MAP_FAILED_def) simp
qed

text \<open>A fixed mapping succeeds whenever the kernel places it.\<close>

lemma map_fixed_result:
  fixes m :: "'a lower_half_scheme"
  assumes "kernel_ok K" "map_fixed K a n p m = Inr (r, m')"
  shows "r = MAP_FAILED \<longleftrightarrow>
    n = 0 \<or> k_place K (prot_at m) a n p (MAP_PRIVATE OR MAP_FIXED OR MAP_ANONYMOUS) (-1) 0 = None"
proof -
  let ?fl = "MAP_PRIVATE OR MAP_FIXED OR MAP_ANONYMOUS"
  have fl: "has_flag ?fl MAP_ANONYMOUS" by (simp add: map_fixed_flags)
  have off: "(0 :: u64) AND MMAP_OFF_MASK = 0" by simp
  obtain m1 m2 :: "'a lower_half_scheme" where b: "mmap_lh K a n p ?fl (-1) 0 m1 = Inr (r, m2)" "prot_at m1 = prot_at m"
    using assms(2) unfolding map_fixed_def mmapWrapper_def by (rule in_lower_half_Inr) (rule that, assumption, simp)
  show ?thesis
  proof (cases "n = 0 \<or> k_place K (prot_at m) a n p ?fl (-1) 0 = None")
    case True
    then have "sys_mmap K a n p ?fl (-1) 0 m1 = (MAP_FAILED, m1)"
      using b(2) fl by (auto simp: sys_mmap_def simp del: has_flag_OR)
    then show ?thesis using b(1) True by (simp add: mmap_lh_def)
  next
    case False
    then obtain q where q: "k_place K (prot_at m) a n p ?fl (-1) 0 = Some q" "n \<noteq> 0" by auto
    then have "q \<noteq> MAP_FAILED"
      using kernel_ok_place [OF assms(1) q(1)] MAP_FAILED_unaligned by (auto simp: placement_ok_def)
    moreover obtain m3 where "sys_mmap K a n p ?fl (-1) 0 m1 = (q, m3)"
      using b(2) fl q by (simp add: sys_mmap_def del: has_flag_OR)
    ultimately show ?thesis using b(1) False by (auto simp: mmap_lh_def Let_def)
  qed
qed

lemma sint_u64:
  fixes x :: u64
  shows "sint x = (if uint x < 2 ^ 63 then uint x else uint x - 2 ^ 64)"
proof (cases "uint x < 2 ^ 63")
  case True
  then show ?thesis
    using signed_take_bit_int_eq_self [of 63 "uint x"] order_trans [of "-(2 ^ 63)" 0 "uint x"]
    by (simp add: sint_uint)
next
  case False
  have "uint x < 2 ^ 64" using uint_lt2p [of x] by simp
  then have "take_bit (Suc 63) (uint x + 2 ^ 63) = uint x - 2 ^ 63"
    using False by (simp add: take_bit_eq_mod) (simp add: mod_pos_geq)
  then show ?thesis
    using False by (simp add: sint_uint signed_take_bit_eq_take_bit_shift)
qed

lemma uint_u64: "0 \<le> uint (x :: u64)" "uint (x :: u64) < 2 ^ 64"
  using uint_lt2p [of x] by simp_all

text \<open>The overflow tests are exact: they refuse just the breaks outside the address space.\<close>

lemma sbrk_test:
  assumes "increment \<noteq> 0"
  shows "(if 0 <s increment then brk + increment < brk else brk < - increment) \<longleftrightarrow>
     wanted brk increment < 0 \<or> 2 ^ 64 \<le> wanted brk increment"
    and "0 \<le> wanted brk increment \<Longrightarrow> wanted brk increment < 2 ^ 64 \<Longrightarrow>
      uint (brk + increment) = wanted brk increment"
proof -
  define u v where "u = uint brk" and "v = uint increment"
  have range: "0 \<le> u" "u < 2 ^ 64" "0 \<le> v" "v < 2 ^ 64"
    using uint_u64 [of brk] uint_u64 [of increment] by (simp_all add: u_def v_def)
  have pos: "v \<noteq> 0" using assms by (simp add: v_def word_uint_eq_iff)
  have plus: "uint (brk + increment) = (if u + v < 2 ^ 64 then u + v else u + v - 2 ^ 64)"
    by (simp add: u_def v_def uint_plus_if')
  have neg: "uint (- increment) = 2 ^ 64 - v"
    using pos range uint_sub_if' [of 0 increment] by (simp add: v_def)
  have want: "wanted brk increment = u + (if v < 2 ^ 63 then v else v - 2 ^ 64)"
    by (simp add: wanted_def sint_u64 u_def v_def)
  have sign: "0 <s increment \<longleftrightarrow> v < 2 ^ 63"
    using pos range by (simp add: word_sless_alt sint_u64 v_def [symmetric])
  have "(if 0 <s increment then brk + increment < brk else brk < - increment) \<longleftrightarrow>
      (if v < 2 ^ 63 then (if u + v < 2 ^ 64 then u + v else u + v - 2 ^ 64) < u else u < 2 ^ 64 - v)"
    by (simp only: sign word_less_def plus neg u_def)
  also have "\<dots> \<longleftrightarrow> wanted brk increment < 0 \<or> 2 ^ 64 \<le> wanted brk increment"
    unfolding want using range pos by (auto split: if_splits)
  finally show "(if 0 <s increment then brk + increment < brk else brk < - increment) \<longleftrightarrow>
      wanted brk increment < 0 \<or> 2 ^ 64 \<le> wanted brk increment" .
  show "0 \<le> wanted brk increment \<Longrightarrow> wanted brk increment < 2 ^ 64 \<Longrightarrow>
      uint (brk + increment) = wanted brk increment"
    unfolding want plus using range by (auto split: if_splits)
qed

text \<open>Where the heap ends after a shrink and after a growth.\<close>

lemma ROUND_UP_le:
  assumes "x \<le> e" "page_aligned e"
  shows "x \<le> ROUND_UP x" "ROUND_UP x \<le> e"
proof -
  have xe: "unat x \<le> unat e" using assms(1) by (simp add: word_le_nat_alt)
  have fits: "unat x + 4095 < 2 ^ 64" using xe aligned_top [OF assms(2)] by simp
  obtain k where k: "unat e = 4096 * k"
    using assms(2) by (auto simp: page_aligned_iff mod_eq_0_iff_dvd dvd_def)
  have "unat x + 4095 < 4096 * Suc k" using xe k by simp
  then have "(unat x + 4095) div 4096 \<le> k" by (simp add: less_Suc_eq_le [symmetric] div_less_iff_less_mult)
  then show "ROUND_UP x \<le> e" using k by (simp add: word_le_nat_alt unat_ROUND_UP [OF fits])
  show "x \<le> ROUND_UP x" using ROUND_UP_bounds(1) [OF fits] by (simp add: word_le_nat_alt)
qed

lemma ROUND_UP_growth:
  assumes "e < x" "page_aligned e" "ROUND_UP (x - e) \<noteq> 0" "no_wrap e (ROUND_UP (x - e))"
  shows "e + ROUND_UP (x - e) = ROUND_UP x" "x \<le> ROUND_UP x" "no_wrap e (ROUND_UP (x - e))"
    "unat (ROUND_UP x) = unat e + unat (ROUND_UP (x - e))"
proof -
  let ?d = "unat x - unat e"
  have lt: "unat e < unat x" using assms(1) by (simp add: word_less_nat_alt)
  have d: "unat (x - e) = ?d" using lt by (simp add: unat_sub word_le_nat_alt)
  have small: "?d + 4095 < 2 ^ 64"
    using assms(3) ROUND_UP_wraps [of "x - e"] by (auto simp: d not_less [symmetric])
  have len: "unat (ROUND_UP (x - e)) = (?d + 4095) div 4096 * 4096"
    using unat_ROUND_UP [of "x - e"] small by (simp add: d)
  obtain k where k: "unat e = 4096 * k"
    using assms(2) by (auto simp: page_aligned_iff mod_eq_0_iff_dvd dvd_def)
  have sum: "unat (e + ROUND_UP (x - e)) = unat e + (?d + 4095) div 4096 * 4096"
    using unat_end [OF assms(4)] len by simp
  have "page_aligned (e + ROUND_UP (x - e))"
    using k by (simp add: page_aligned_iff sum)
  from aligned_top [OF this] have top: "unat x + 4095 < 2 ^ 64"
    using round_up_nat_bounds(1) [of ?d] lt sum by linarith
  have "unat x + 4095 = 4096 * k + (?d + 4095)" using k lt by simp
  then have "(unat x + 4095) div 4096 = k + (?d + 4095) div 4096" by simp
  then have "unat (ROUND_UP x) = unat (e + ROUND_UP (x - e))"
    using unat_ROUND_UP [OF top] sum k by simp
  then show "e + ROUND_UP (x - e) = ROUND_UP x" "unat (ROUND_UP x) = unat e + unat (ROUND_UP (x - e))"
    using unat_end [OF assms(4)] by (simp_all add: word_unat_eq_iff)
  show "x \<le> ROUND_UP x" using ROUND_UP_bounds(1) [OF top] by (simp add: word_le_nat_alt)
  show "no_wrap e (ROUND_UP (x - e))" by (rule assms(4))
qed

text \<open>What one call does to the heap with base \<open>b\<close>.\<close>

definition sbrk_effect :: "kernel \<Rightarrow> va \<Rightarrow> u64 \<Rightarrow> 'a lower_half_scheme \<Rightarrow> va \<Rightarrow> 'a lower_half_scheme \<Rightarrow> bool" where
  "sbrk_effect K b increment m r m' \<longleftrightarrow>
     (if sbrk_refused K increment m
      then r = -1 \<and> curbrk m' = curbrk m \<and> endOfHeap m' = endOfHeap m
      else r = curbrk m \<and> uint (curbrk m') = wanted (curbrk m) increment \<and>
        endOfHeap m' = (if increment = 0 then endOfHeap m else ROUND_UP (curbrk m'))) \<and>
     heap_mapped b m' \<and>
     (\<forall>x. if endOfHeap m \<le> x \<and> x < endOfHeap m'
        then mem m' x = 0 \<and> prot_at m' x = Some (PROT_READ OR PROT_WRITE)
        else mem m' x = mem m x \<and> prot_at m' x = prot_at m x)"

lemma heap_mapped_same:
  "heap_mapped b m \<Longrightarrow> curbrk m' = curbrk m \<Longrightarrow> endOfHeap m' = endOfHeap m \<Longrightarrow> prot_at m' = prot_at m \<Longrightarrow> heap_mapped b m'"
  by (simp add: heap_mapped_def)

lemma sbrk_effect_nothing:
  assumes "heap_mapped b m" "curbrk m' = curbrk m" "endOfHeap m' = endOfHeap m" "prot_at m' = prot_at m"
    "mem m' = mem m"
  shows "sbrk_refused K increment m \<Longrightarrow> sbrk_effect K b increment m (-1) m'"
    and "\<not> sbrk_refused K 0 m \<Longrightarrow> sbrk_effect K b 0 m (curbrk m) m'"
  using assms heap_mapped_same [OF assms(1-4)] by (auto simp: sbrk_effect_def wanted_def)

lemma sbrk_lh_effect:
  fixes m :: "'a lower_half_scheme"
  assumes "kernel_ok K" "heap_mapped b m" "sbrk_lh K increment m = Inr (r, m')"
  shows "sbrk_effect K b increment m r m'"
proof (cases "curbrk m = 0 \<and> k_brk_fails K")
  case True
  then have "r = -1" "m' = m" "sbrk_refused K increment m" using assms(3) by (auto simp: sbrk_lh_def sbrk_refused_def)
  then show ?thesis using sbrk_effect_nothing(1) [OF assms(2), of m'] by simp
next
  case brk: False
  let ?new = "curbrk m + increment"
  have heap: "curbrk m \<le> endOfHeap m" "page_aligned (endOfHeap m)" "curbrk m = 0 \<Longrightarrow> endOfHeap m = 0"
      "\<And>x. b \<le> x \<Longrightarrow> x < endOfHeap m \<Longrightarrow> prot_at m x = Some (PROT_READ OR PROT_WRITE)"
    using assms(2) by (simp_all add: heap_mapped_def)
  have "curbrk m \<noteq> 0 \<or> \<not> k_brk_fails K \<and> endOfHeap m = 0" using brk heap(3) by blast
  note alt = sbrk_lh_alt [OF this]
  consider (zero) "increment = 0"
    | (outside) "increment \<noteq> 0" "wanted (curbrk m) increment < 0 \<or> 2 ^ 64 \<le> wanted (curbrk m) increment"
    | (inside) "increment \<noteq> 0" "0 \<le> wanted (curbrk m) increment" "wanted (curbrk m) increment < 2 ^ 64" by linarith
  then show ?thesis
  proof cases
    case zero
    have "\<not> endOfHeap m < curbrk m" using heap(1) by simp
    then have "\<not> sbrk_refused K 0 m" using brk uint_u64 [of "curbrk m"] by (simp add: sbrk_refused_def wanted_def)
    moreover have "Inr (curbrk m, m) = (Inr (r, m') :: (va \<times> 'a lower_half_scheme) run)"
      using assms(3) zero by (simp only: alt refl if_True)
    then have "r = curbrk m" "m' = m" by blast+
    ultimately show ?thesis using sbrk_effect_nothing(2) [OF assms(2), of m] zero by simp
  next
    case outside
    then have "sbrk_refused K increment m" by (auto simp: sbrk_refused_def)
    then show ?thesis
      using assms(3) outside sbrk_test(1) [OF outside(1), of "curbrk m"] sbrk_effect_nothing(1) [OF assms(2), of m']
      by (simp add: alt)
  next
    case inside
    have new: "uint ?new = wanted (curbrk m) increment" and
      ok: "\<not> (if 0 <s increment then ?new < curbrk m else curbrk m < - increment)"
      using sbrk_test [OF inside(1), of "curbrk m"] inside(2,3) by auto
    show ?thesis
    proof (cases "?new > endOfHeap m")
      case False
      then have m': "r = curbrk m" "m' = m\<lparr>endOfHeap := ROUND_UP ?new, curbrk := ?new\<rparr>"
        using assms(3) ok inside(1) by (auto simp: alt)
      have le: "?new \<le> ROUND_UP ?new" "ROUND_UP ?new \<le> endOfHeap m"
        using ROUND_UP_le [of ?new "endOfHeap m"] False heap(2) by simp_all
      have "\<not> sbrk_refused K increment m" using False brk inside by (auto simp: sbrk_refused_def)
      moreover have "?new = 0 \<Longrightarrow> ROUND_UP ?new = 0" by (simp add: ROUND_UP_def PAGE_SIZE_def)
      ultimately show ?thesis
        using le heap inside(1) by (auto simp: sbrk_effect_def m' new heap_mapped_def dest: leD intro: order_less_le_trans)
    next
      case True
      let ?len = "ROUND_UP (?new - endOfHeap m)"
      obtain ret m1 where mapped: "map_fixed K (endOfHeap m) ?len (PROT_READ OR PROT_WRITE) m = Inr (ret, m1)"
        using wrapper.map_returns by blast
      note facts = map_fixed_facts [OF assms(1) mapped]
      have refused: "sbrk_refused K increment m \<longleftrightarrow> ret = MAP_FAILED"
        using True brk inside(2,3) map_fixed_result [OF assms(1) mapped] by (auto simp: sbrk_refused_def Let_def)
      show ?thesis
      proof (cases "ret = MAP_FAILED")
        case failed: True
        then have "r = -1" "m' = m1" using assms(3) ok inside(1) True mapped by (simp_all add: alt)
        moreover have "same_globals m m1" "mem m1 = mem m" "prot_at m1 = prot_at m" using facts failed by auto
        ultimately show ?thesis
          using sbrk_effect_nothing(1) [OF assms(2)] refused failed by (simp add: same_globals_def)
      next
        case granted: False
        have m': "r = curbrk m" "m' = m1\<lparr>endOfHeap := ROUND_UP ?new, curbrk := ?new\<rparr>"
          using assms(3) ok inside(1) True mapped granted by (auto simp: alt)
        have len: "ROUND_UP ?len = ?len" by (rule ROUND_UP_aligned) simp
        have g: "?len \<noteq> 0" "no_wrap (endOfHeap m) ?len"
          "mem m1 = (\<lambda>x. if in_range (endOfHeap m) ?len x then 0 else mem m x)"
          "prot_at m1 = (\<lambda>x. if in_range (endOfHeap m) ?len x then Some (PROT_READ OR PROT_WRITE) else prot_at m x)"
          using facts granted len by auto
        note grow = ROUND_UP_growth [OF True heap(2) g(1,2)]
        have range: "in_range (endOfHeap m) ?len x \<longleftrightarrow> endOfHeap m \<le> x \<and> x < ROUND_UP ?new" for x
          using grow(4) by (simp add: in_range_unat [OF g(2)] word_le_nat_alt word_less_nat_alt)
        have "prot_at m1 x = Some (PROT_READ OR PROT_WRITE)" if "b \<le> x" "x < ROUND_UP ?new" for x
          using that heap(4) [of x] by (simp add: g(4) range not_le [symmetric])
        moreover have "?new \<noteq> 0" using True by auto
        ultimately show ?thesis
          using grow(2) refused granted inside(1)
          by (simp add: sbrk_effect_def m' new heap_mapped_def g(3,4) range)
      qed
    qed
  qed
qed

lemma sbrk_effect_cong:
  assumes "curbrk n = curbrk m" "endOfHeap n = endOfHeap m" "prot_at n = prot_at m" "mem n = mem m"
    and "curbrk n' = curbrk m'" "endOfHeap n' = endOfHeap m'" "prot_at n' = prot_at m'" "mem n' = mem m'"
  shows "sbrk_effect K b increment n r n' = sbrk_effect K b increment m r m'"
  by (simp only: sbrk_effect_def sbrk_refused_def heap_mapped_def assms)

lemma sbrkWrapper_sbrk_effect:
  assumes "kernel_ok K" "heap_mapped b m" "sbrkWrapper K increment m = Inr (r, m')"
  shows "sbrk_effect K b increment m r m'"
  using assms(3) unfolding sbrkWrapper_def
proof (rule in_lower_half_Inr)
  let ?fs = "if lhFsAddr (lhInfo m) > 0 \<and> k_set_fs K (lhFsAddr (lhInfo m))
    then lhFsAddr (lhInfo m) else fs_base m"
  fix m1
  assume run: "sbrk_lh K increment (m\<lparr>fs_base := ?fs\<rparr>) = Inr (r, m1)" and m': "m' = snd (set_fs K (fs_base m) m1)"
  have "sbrk_effect K b increment (m\<lparr>fs_base := ?fs\<rparr>) r m1"
    by (rule sbrk_lh_effect [OF assms(1) _ run]) (use assms(2) in \<open>simp add: heap_mapped_def\<close>)
  then show ?thesis by (rule sbrk_effect_cong [THEN iffD1, rotated -1]) (simp_all add: m' set_fs_def)
qed

text \<open>Every call returns.\<close>

lemma sbrkWrapper_returns: "\<exists>r m'. sbrkWrapper K increment m = Inr (r, m')"
proof -
  have "\<exists>r m'. sbrk_lh K increment m0 = Inr (r, m')" for m0 :: "'a lower_half_scheme"
  proof -
    have after: "\<exists>r m'. andThen c (\<lambda>(ret, m). if ret = MAP_FAILED then Inr (-1, m) else Inr (q, f m)) = Inr (r, m')"
      if "\<exists>p. c = Inr p" for c :: "(va \<times> 'a lower_half_scheme) run" and q :: va and f
      using that by auto
    have mapped: "\<exists>q. mmapWrapper K a n p (MAP_PRIVATE OR MAP_FIXED OR MAP_ANONYMOUS) (-1) 0 m1 = Inr q"
      for a n p and m1 :: "'a lower_half_scheme"
      using map_fixed_returns [of K a n p m1] by (auto simp: map_fixed_def)
    show ?thesis
      unfolding sbrk_lh_def Let_def using after mapped by (simp split: if_split)
  qed
  then show ?thesis by (fastforce simp: sbrkWrapper_def in_lower_half_def Let_def run_simps)
qed

text \<open>
  C24. The heap behind \<open>sbrk\<close>: a call returns \<open>-1\<close> and changes nothing exactly if the new break would leave
  the address space or the kernel refuses the pages; otherwise it returns the old break, moves it by the
  increment, and ends the heap at the next page boundary. The bytes from the old end to the new one become zero, readable
  and writable, no other byte or protection changes, and everything from the base to the end stays mapped.
  The code does not look at what was mapped behind the old end, nor whether the break stays above the base.
\<close>

theorem sbrkWrapper_effect:
  assumes "kernel_ok K" "heap_mapped b m" "sbrkWrapper K increment m = Inr (r, m')"
  shows "(if sbrk_refused K increment m
      then r = -1 \<and> curbrk m' = curbrk m \<and> endOfHeap m' = endOfHeap m
      else r = curbrk m \<and> uint (curbrk m') = wanted (curbrk m) increment \<and>
        endOfHeap m' = (if increment = 0 then endOfHeap m else ROUND_UP (curbrk m'))) \<and>
     heap_mapped b m' \<and>
     (\<forall>x. if endOfHeap m \<le> x \<and> x < endOfHeap m'
        then mem m' x = 0 \<and> prot_at m' x = Some (PROT_READ OR PROT_WRITE)
        else mem m' x = mem m x \<and> prot_at m' x = prot_at m x)"
  by (rule sbrkWrapper_sbrk_effect [OF assms, unfolded sbrk_effect_def])

text \<open>
  Before \<open>setUhBrk\<close> the heap does not work: the static break is not what \<open>brk(0)\<close> sets, so
  the first request asks for pages at address 0, which the kernel refuses, and every call with an
  increment answers \<open>-1\<close>.
\<close>

theorem sbrk_before_setUhBrk:
  assumes "kernel_ok K" "curbrk m = 0" "0 <s increment"
  shows "\<exists>m'. sbrkWrapper K increment m = Inr (-1, m') \<and> curbrk m' = 0"
proof -
  have first: "\<exists>m'. sbrk_lh K increment m0 = Inr (-1, m') \<and> curbrk m' = 0"
    if c: "curbrk m0 = 0" for m0 :: "'a lower_half_scheme"
  proof (cases "k_brk_fails K")
    case True
    then show ?thesis using c by (simp add: sbrk_lh_def)
  next
    case False
    let ?m = "m0\<lparr>endOfHeap := 0\<rparr>"
    have inc: "increment \<noteq> 0" "increment > 0" using assms(3) by (auto simp: word_gt_0)
    obtain ret m1 where mapped: "map_fixed K 0 (ROUND_UP increment) (PROT_READ OR PROT_WRITE) ?m = Inr (ret, m1)"
      using wrapper.map_returns by blast
    have "ret = MAP_FAILED"
    proof (rule ccontr)
      assume "ret \<noteq> MAP_FAILED"
      with mapped assms(1) show False
        unfolding map_fixed_def
        by (cases rule: mmapWrapper_cases) (auto simp: placement_ok_def map_fixed_flags)
    qed
    moreover have "curbrk m1 = 0"
      using map_fixed_facts [OF assms(1) mapped] calculation c by (auto simp: same_globals_def)
    ultimately show ?thesis
      using c False inc assms(3) mapped by (simp add: sbrk_lh_def map_fixed_def)
  qed
  let ?m = "if lhFsAddr (lhInfo m) > 0 then snd (set_fs K (lhFsAddr (lhInfo m)) m) else m"
  have "curbrk ?m = 0" using assms(2) by (simp add: set_fs_def)
  then obtain m1 where "sbrk_lh K increment ?m = Inr (-1, m1)" "curbrk m1 = 0"
    using first by blast
  then show ?thesis by (simp add: sbrkWrapper_def in_lower_half_def set_fs_def Let_def)
qed

section \<open>All calls of a run\<close>

text \<open>The calls of a run with their increments and results.\<close>

inductive sbrk_run :: "kernel \<Rightarrow> 'a lower_half_scheme \<Rightarrow> (u64 \<times> va) list \<Rightarrow>
    'a lower_half_scheme \<Rightarrow> bool" for K m where
  start: "sbrk_run K m [] m"
| call: "sbrk_run K m tr m1 \<Longrightarrow> sbrkWrapper K increment m1 = Inr (r, m2) \<Longrightarrow>
    sbrk_run K m (tr @ [(increment, r)]) m2"

definition granted :: "(u64 \<times> va) list \<Rightarrow> int" where
  "granted tr = sum_list (map (\<lambda>(increment, r). if r = -1 then 0 else sint increment) tr)"

lemma heap_mapped_break: "heap_mapped b m \<Longrightarrow> curbrk m \<noteq> -1"
proof
  assume h: "heap_mapped b m" "curbrk m = -1"
  then have "endOfHeap m = MAP_FAILED" by (auto simp: heap_mapped_def MAP_FAILED_def word_order.extremum_unique)
  then show False using h(1) MAP_FAILED_unaligned by (simp add: heap_mapped_def)
qed

lemma heap_ok_mapped: "heap_ok b m \<Longrightarrow> heap_mapped b m"
  by (simp add: heap_ok_def)

lemma sbrk_run_invariant:
  assumes "sbrk_run K m tr m'" "kernel_ok K" "heap_mapped b m"
  shows "heap_mapped b m' \<and> uint (curbrk m') = uint (curbrk m) + granted tr \<and>
    (\<forall>x. (\<forall>k \<le> length tr. uint x < uint (curbrk m) + granted (take k tr)) \<longrightarrow>
       mem m' x = mem m x \<and> prot_at m' x = prot_at m x)"
  using assms(1)
proof induction
  case start
  then show ?case using assms(3) by (simp add: granted_def)
next
  case (call tr m1 increment r m2)
  have ok: "heap_mapped b m1" and brk1: "uint (curbrk m1) = uint (curbrk m) + granted tr" using call.IH by blast+
  have eff: "sbrk_effect K b increment m1 r m2"
    by (rule sbrkWrapper_sbrk_effect [OF assms(2) ok call.hyps(2)])
  have sum: "granted (tr @ [(increment, r)]) = granted tr + (if r = -1 then 0 else sint increment)"
    by (simp add: granted_def)
  have brk: "uint (curbrk m2) = uint (curbrk m1) + (if r = -1 then 0 else sint increment)"
    using eff heap_mapped_break [OF ok] by (auto simp: sbrk_effect_def wanted_def split: if_splits)
  have "mem m2 x = mem m x \<and> prot_at m2 x = prot_at m x"
    if x: "\<forall>k \<le> length (tr @ [(increment, r)]). uint x < uint (curbrk m) + granted (take k (tr @ [(increment, r)]))" for x
  proof -
    have below: "uint x < uint (curbrk m) + granted (take k tr)" if "k \<le> length tr" for k
      using x [rule_format, of k] that by simp
    then have "x < curbrk m1" using brk1 below [of "length tr"] by (simp add: word_less_def)
    then have "x < endOfHeap m1" using ok by (auto simp: heap_mapped_def intro: order_less_le_trans)
    then have "mem m2 x = mem m1 x \<and> prot_at m2 x = prot_at m1 x"
      using eff by (auto simp: sbrk_effect_def dest: leD split: if_splits)
    then show ?thesis using call.IH below by simp
  qed
  then show ?case using eff brk sum brk1 by (simp add: sbrk_effect_def)
qed

text \<open>
  C25. Along every run of calls, whatever their increments, the heap stays mapped from its base to its end, the break is the
  initial one plus the increments granted so far, and a byte that is below the break at every moment
  of the run keeps its value and its protection.
\<close>

theorem sbrk_run_heap:
  assumes "sbrk_run K m tr m'" "kernel_ok K" "heap_mapped b m"
  shows "heap_mapped b m' \<and> uint (curbrk m') = uint (curbrk m) + granted tr \<and>
    (\<forall>x. (\<forall>k \<le> length tr. uint x < uint (curbrk m) + granted (take k tr)) \<longrightarrow>
       mem m' x = mem m x \<and> prot_at m' x = prot_at m x)"
  by (rule sbrk_run_invariant [OF assms])

text \<open>
  C26. Nothing keeps the break above the base of the heap. A negative increment may take it below, over whatever the process
  has mapped there, and the next growth maps fresh pages with \<open>MAP_FIXED\<close>: all bytes in between become zero,
  readable and writable, those of other mappings included.
\<close>

theorem sbrk_below_base_overwrites:
  assumes "kernel_ok K" "heap_mapped b m" "0 <s d" "d < curbrk m"
    and "sbrkWrapper K (- d) m = Inr (r1, m1)" "sbrkWrapper K d m1 = Inr (r2, m2)" "r2 \<noteq> -1"
    and "ROUND_UP (curbrk m - d) \<le> x" "x < curbrk m"
  shows "r1 = curbrk m \<and> curbrk m2 = curbrk m \<and> mem m1 x = mem m x \<and> prot_at m1 x = prot_at m x \<and>
    mem m2 x = 0 \<and> prot_at m2 x = Some (PROT_READ OR PROT_WRITE)"
proof -
  have d: "sint d = uint d" "uint d < 2 ^ 63" "0 < uint d"
    using assms(3) uint_u64 [of d] by (auto simp: word_sless_alt sint_u64 split: if_splits)
  then have nd: "sint (- d) = - uint d"
    using uint_sub_if' [of 0 d] uint_u64 [of d] by (simp add: sint_u64)
  have dc: "uint d < uint (curbrk m)" using assms(4) by (simp add: word_less_def)
  then have new: "uint (curbrk m - d) = uint (curbrk m) - uint d" by (simp add: uint_sub_if')
  have heap: "curbrk m \<le> endOfHeap m" "page_aligned (endOfHeap m)" using assms(2) by (simp_all add: heap_mapped_def)
  have le: "curbrk m - d \<le> curbrk m" using new d(3) by (simp add: word_le_def)
  then have "\<not> endOfHeap m < curbrk m + - d" using heap(1) by (auto simp: not_less intro: order_trans)
  moreover have "curbrk m \<noteq> 0" using dc by auto
  ultimately have "\<not> sbrk_refused K (- d) m"
    using dc d(3) uint_u64 [of "curbrk m"] nd by (simp add: sbrk_refused_def wanted_def)
  with sbrkWrapper_sbrk_effect [OF assms(1,2,5)]
  have m1: "r1 = curbrk m" "uint (curbrk m1) = uint (curbrk m) - uint d" "endOfHeap m1 = ROUND_UP (curbrk m1)"
    "heap_mapped b m1" "endOfHeap m \<le> y \<and> y < endOfHeap m1 \<or> mem m1 y = mem m y \<and> prot_at m1 y = prot_at m y" for y
    using d(3) by (auto simp: sbrk_effect_def wanted_def nd split: if_splits)
  have c1: "curbrk m1 = curbrk m - d" using m1(2) new by (simp add: word_uint_eq_iff)
  have xe: "x < endOfHeap m" using assms(9) heap(1) by (rule order_less_le_trans)
  note eff = sbrkWrapper_sbrk_effect [OF assms(1) m1(4) assms(6)]
  have "\<not> sbrk_refused K d m1" using eff assms(7) by (auto simp: sbrk_effect_def split: if_splits)
  with eff have m2: "uint (curbrk m2) = uint (curbrk m)" "heap_mapped b m2"
    "endOfHeap m1 \<le> y \<Longrightarrow> y < endOfHeap m2 \<Longrightarrow> mem m2 y = 0 \<and> prot_at m2 y = Some (PROT_READ OR PROT_WRITE)" for y
    using m1(2) d(1) by (auto simp: sbrk_effect_def wanted_def split: if_splits)
  have c2: "curbrk m2 = curbrk m" using m2(1) by (simp add: word_uint_eq_iff)
  then have "x < endOfHeap m2" using m2(2) assms(9) by (auto simp: heap_mapped_def intro: order_less_le_trans)
  moreover have "endOfHeap m1 \<le> x" using m1(3) c1 assms(8) by simp
  ultimately show ?thesis using m1(1) m1(5) [of x] m2(3) [of x] c2 xe by (auto dest: leD)
qed

text \<open>A heap of one page with the break in its middle, and a kernel that grants every placement.\<close>

definition small_heap :: lower_half where
  "small_heap = fresh_lower_half\<lparr>curbrk := 0x100800, endOfHeap := 0x101000,
     prot_at := (\<lambda>x. if 0x100000 \<le> x \<and> x < 0x101000 then Some (PROT_READ OR PROT_WRITE) else None)\<rparr>"

lemma small_heap_ok: "heap_mapped 0x100000 small_heap"
  by (simp add: heap_mapped_def) (simp add: small_heap_def page_aligned_iff)

lemma small_heap_fields: "curbrk small_heap = 0x100800" "endOfHeap small_heap = 0x101000"
  by (simp_all add: small_heap_def)

lemma small_heap_room: "\<not> sbrk_refused plain_kernel 0x300 small_heap"
  by (simp add: sbrk_refused_def wanted_def small_heap_fields sint_u64)

lemma small_heap_grows: "\<exists>m'. sbrkWrapper plain_kernel 0x300 small_heap = Inr (0x100800, m')"
proof -
  obtain r m' where m': "sbrkWrapper plain_kernel 0x300 small_heap = Inr (r, m')" using sbrkWrapper_returns by blast
  have "r = 0x100800"
    using sbrkWrapper_sbrk_effect [OF plain_kernel_ok small_heap_ok m'] small_heap_room
    by (simp add: sbrk_effect_def small_heap_fields)
  then show ?thesis using m' by blast
qed

theorem sbrkWrapper_effect_witness:
  "\<exists>m'. sbrkWrapper plain_kernel 0x300 small_heap = Inr (0x100800, m') \<and>
     uint (curbrk m') = 0x100b00 \<and> endOfHeap m' = 0x101000 \<and> heap_mapped 0x100000 m'"
proof -
  obtain m' where m': "sbrkWrapper plain_kernel 0x300 small_heap = Inr (0x100800, m')"
    using small_heap_grows by blast
  have brk: "uint (curbrk m') = 0x100b00" "endOfHeap m' = ROUND_UP (curbrk m')" "heap_mapped 0x100000 m'"
    using sbrkWrapper_effect [OF plain_kernel_ok small_heap_ok m'] small_heap_room
    by (simp_all add: wanted_def small_heap_fields sint_u64)
  then have "curbrk m' = 0x100b00" by (simp add: word_uint_eq_iff)
  then show ?thesis using m' brk by (simp add: ROUND_UP_def PAGE_SIZE_def)
qed

theorem sbrk_before_setUhBrk_witness:
  "\<exists>m'. sbrkWrapper plain_kernel 0x20 fresh_lower_half = Inr (-1, m') \<and> curbrk m' = 0"
  by (rule sbrk_before_setUhBrk)
    (simp_all add: plain_kernel_ok fresh_lower_half_def word_sless_alt sint_u64)

theorem sbrk_run_heap_witness:
  "\<exists>m'. sbrk_run plain_kernel small_heap [(0x300, 0x100800)] m' \<and>
     uint (curbrk m') = 0x100b00 \<and> heap_mapped 0x100000 m' \<and> mem m' 0x100700 = mem small_heap 0x100700"
proof -
  obtain m' where m': "sbrkWrapper plain_kernel 0x300 small_heap = Inr (0x100800, m')"
    using small_heap_grows by blast
  have "sbrk_run plain_kernel small_heap ([] @ [(0x300, 0x100800)]) m'"
    by (rule sbrk_run.call [OF sbrk_run.start m'])
  then have run: "sbrk_run plain_kernel small_heap [(0x300, 0x100800)] m'" by simp
  have "granted (take k [(0x300, 0x100800)]) \<ge> 0" for k
    by (cases k) (simp_all add: granted_def)
  then have "uint (0x100700 :: va) < uint (curbrk small_heap) + granted (take k [(0x300, 0x100800)])" for k
    by (simp add: small_heap_def add_strict_increasing)
  then show ?thesis
    using sbrk_run_heap [OF run plain_kernel_ok small_heap_ok] run
    by (auto simp: granted_def small_heap_def)
qed

text \<open>The same heap with a page of something else right below it.\<close>

definition neighbour_heap :: lower_half where
  "neighbour_heap = small_heap\<lparr>mem := (\<lambda>x. 7),
     prot_at := (\<lambda>x. if 0xff000 \<le> x \<and> x < 0x100000 then Some PROT_READ else prot_at small_heap x)\<rparr>"

theorem sbrk_below_base_overwrites_witness:
  "\<exists>m1 m2. sbrkWrapper plain_kernel (- 0x1900) neighbour_heap = Inr (0x100800, m1) \<and>
     sbrkWrapper plain_kernel 0x1900 m1 = Inr (0xfef00, m2) \<and>
     mem m1 0xff800 = 7 \<and> prot_at m1 0xff800 = Some PROT_READ \<and>
     mem m2 0xff800 = 0 \<and> prot_at m2 0xff800 = Some (PROT_READ OR PROT_WRITE)"
proof -
  have ok: "heap_mapped 0x100000 neighbour_heap"
    by (simp add: heap_mapped_def) (auto simp: neighbour_heap_def small_heap_def page_aligned_iff dest: leD)
  have c: "curbrk neighbour_heap = 0x100800" "endOfHeap neighbour_heap = 0x101000"
    by (simp_all add: neighbour_heap_def small_heap_def)
  obtain r1 m1 where m1: "sbrkWrapper plain_kernel (- 0x1900) neighbour_heap = Inr (r1, m1)"
    using sbrkWrapper_returns by blast
  obtain r2 m2 where m2: "sbrkWrapper plain_kernel 0x1900 m1 = Inr (r2, m2)" using sbrkWrapper_returns by blast
  have "\<not> sbrk_refused plain_kernel (- 0x1900) neighbour_heap"
    by (simp add: sbrk_refused_def wanted_def c sint_u64 plain_kernel_def)
  then have e1: "uint (curbrk m1) = 0xfef00" "endOfHeap m1 = ROUND_UP (curbrk m1)" "heap_mapped 0x100000 m1"
    using sbrkWrapper_sbrk_effect [OF plain_kernel_ok ok m1] by (simp_all add: sbrk_effect_def wanted_def c sint_u64)
  then have c1: "curbrk m1 = 0xfef00" by (simp add: word_uint_eq_iff)
  then have c2: "endOfHeap m1 = 0xff000" using e1(2) by (simp add: ROUND_UP_def PAGE_SIZE_def)
  have "\<not> sbrk_refused plain_kernel 0x1900 m1"
    by (simp add: sbrk_refused_def wanted_def c1 c2 sint_u64 plain_kernel_def placement_ok_def map_fixed_flags
        page_aligned_iff no_wrap_def ROUND_UP_def PAGE_SIZE_def)
  then have r2: "r2 = 0xfef00"
    using sbrkWrapper_sbrk_effect [OF plain_kernel_ok e1(3) m2] by (simp add: sbrk_effect_def c1)
  have "r1 = curbrk neighbour_heap \<and> curbrk m2 = curbrk neighbour_heap \<and> mem m1 0xff800 = mem neighbour_heap 0xff800 \<and>
      prot_at m1 0xff800 = prot_at neighbour_heap 0xff800 \<and> mem m2 0xff800 = 0 \<and> prot_at m2 0xff800 = Some (PROT_READ OR PROT_WRITE)"
    by (rule sbrk_below_base_overwrites [OF plain_kernel_ok ok _ _ m1 m2])
      (simp_all add: c r2 word_sless_alt sint_u64 ROUND_UP_def PAGE_SIZE_def)
  then show ?thesis using m1 m2 r2 c by (simp add: neighbour_heap_def)
qed

end
