(* ===== verification/MemCkpt.thy ===== *)
theory MemCkpt
  imports MapsView MmapWrapper
begin

text \<open>
  Writing a checkpoint image (\<open>mem-ckpt.c\<close>). An image is the \<open>CkptRestartState_t\<close> of the process
  followed by one segment per saved region: its \<open>Area\<close> and its bytes. The upper half keeps its
  own globals; of these \<open>state\<close> stays where the linker put it, because what a restart finds in
  it is what the image says of that address.
\<close>

section \<open>State\<close>

record process = lower_half +
  uh_lhInfo :: LowerHalfInfo
  initialized :: bool
  ckpt_img :: "byte list"

fun CkptOrRestore_code :: "CkptOrRestore \<Rightarrow> u32" where
  "CkptOrRestore_code RUNNING = 0"
| "CkptOrRestore_code POST_RESUME = 1"
| "CkptOrRestore_code POST_RESTART = 2"

declare CkptOrRestore_code.simps [simp del]

definition get_state :: "kernel \<Rightarrow> 'a machine_scheme \<Rightarrow> u32" where
  "get_state K m = le_word (peek m (k_sym K ''state'') 4)"

definition set_state :: "kernel \<Rightarrow> CkptOrRestore \<Rightarrow> 'a machine_scheme \<Rightarrow> 'a machine_scheme" where
  "set_state K s m = poke (k_sym K ''state'') (le_bytes 4 (CkptOrRestore_code s)) m"

text \<open>\<open>CkptRestartState_t\<close>; the \<open>ucontext_t\<close> in front is opaque to the code.\<close>

record CkptRestartState =
  st_ctx :: "byte list"
  st_sp :: va
  st_fsAddr :: u64

definition st_bytes :: "CkptRestartState \<Rightarrow> byte list" where
  "st_bytes st = st_ctx st @ le_bytes 8 (st_sp st) @ le_bytes 8 (st_fsAddr st)"

definition st_of_bytes :: "nat \<Rightarrow> byte list \<Rightarrow> CkptRestartState" where
  "st_of_bytes n bs = \<lparr>st_ctx = take n bs, st_sp = le_word (take 8 (drop n bs)),
     st_fsAddr = le_word (take 8 (drop (n + 8) bs))\<rparr>"

definition sizeof_st :: "kernel \<Rightarrow> nat" where
  "sizeof_st K = k_sizeof_ucontext K + 16"

lemma st_codec: "length (st_ctx st) = k_sizeof_ucontext K \<Longrightarrow> length (st_bytes st) = sizeof_st K"
  "length (st_ctx st) = k_sizeof_ucontext K \<Longrightarrow> st_of_bytes (k_sizeof_ucontext K) (st_bytes st) = st"
  by (simp_all add: st_bytes_def sizeof_st_def st_of_bytes_def codec_simps)

section \<open>Installation\<close>

text \<open>
  The constructor: the image name is built from the first byte of \<open>RANK_ID\<close>. The array is static, so
  its bytes start as zeros; \<open>installed\<close> says whether \<open>sigaction\<close> accepted the handler.
\<close>

definition installCkptHandler :: "kernel \<Rightarrow> bool \<Rightarrow> byte list option \<Rightarrow> 'a process_scheme \<Rightarrow>
    'a process_scheme run" where
  "installCkptHandler K installed rank_ID m =
     (if \<not> installed then Inl (Exit (-1))
      else case rank_ID of
        None \<Rightarrow> Inl AssertFail
      | Some env \<Rightarrow>
          let ckpt = bytes_of ''./rank_'' @ take 1 (cstr env @ [0]) @ bytes_of ''_ckpt.img'' @ [0]
          in Inr (set_state K RUNNING (m\<lparr>ckpt_img := cstr ckpt\<rparr>)))"

section \<open>Writing memory\<close>

definition skipRegion :: "Area \<Rightarrow> bool" where
  "skipRegion area \<longleftrightarrow> \<not> has_flag (a_prot area) PROT_READ \<or>
     strstr (area_name area) (bytes_of ''vvar'') \<or> strstr (area_name area) (bytes_of ''vdso'') \<or>
     strstr (area_name area) (bytes_of ''vsyscall'')"

text \<open>\<open>rc\<close> is an \<open>int\<close>, so the two results are added modulo \<open>2 ^ 32\<close>.\<close>

definition writeMemoryRegion :: "'a machine_scheme \<Rightarrow> ofile \<Rightarrow> Area \<Rightarrow> u32 \<times> ofile" where
  "writeMemoryRegion m f area =
     (let (n1, f) = writeAll (area_bytes area) f;
          (n2, f) = writeAll_from m (a_addr area) (unat (a_size area)) f
      in (0 + word_of_int n1 + word_of_int n2, f))"

fun uh_regions_loop :: "'a machine_scheme \<Rightarrow> MmapInfo list \<Rightarrow> ofile \<Rightarrow> Area \<Rightarrow> u32 \<times> ofile" where
  "uh_regions_loop m [] f area = (0, f)"
| "uh_regions_loop m (r # rs) f area =
     (let uhMmapStart = mi_addr r; uhMmapEnd = mi_addr r + mi_len r
      in if regionContains uhMmapStart uhMmapEnd (a_addr area) (a_endAddr area)
         then writeMemoryRegion m f area
         else if regionContains (a_addr area) (a_endAddr area) uhMmapStart uhMmapEnd
         then writeMemoryRegion m f
                (area\<lparr>a_addr := uhMmapStart, a_endAddr := uhMmapEnd, a_size := mi_len r\<rparr>)
         else uh_regions_loop m rs f area)"

definition writeRelevantMemoryRegion :: "'a process_scheme \<Rightarrow> ofile \<Rightarrow> Area \<Rightarrow> u32 \<times> ofile" where
  "writeRelevantMemoryRegion m f area =
     (if \<not> has_flag (a_prot area) PROT_READ then (0, f)
      else if lhMmapListFptr (uh_lhInfo m) \<noteq> 0
      then (let (numUhRegions, array) = getMmappedList m
            in uh_regions_loop m (take numUhRegions array) f area)
      else (0, f))"

text \<open>The variable \<open>area\<close> of \<open>checkpointMemory\<close> has no initialiser.\<close>

definition checkpointMemory :: "kernel \<Rightarrow> 'a process_scheme \<Rightarrow> ofile \<Rightarrow> ofile run" where
  "checkpointMemory K m ckptfd =
     (case open_maps K m of
        None \<Rightarrow> Inl (Exit 1)
      | Some mapsfd \<Rightarrow>
          maps_loop (\<lambda>area f.
              Inr (if \<not> skipRegion area then snd (writeRelevantMemoryRegion m f area) else f, False))
            mapsfd (area_of_bytes (k_stale K sizeof_Area)) ckptfd)"

section \<open>The handler\<close>

definition getFs :: "'a machine_scheme \<Rightarrow> u64" where
  "getFs m = fs_base m"

text \<open>A failed or short write of the context only prints a message.\<close>

definition checkpointContext :: "ofile \<Rightarrow> CkptRestartState \<Rightarrow> ofile" where
  "checkpointContext ckptfd st = snd (writeAll (st_bytes st) ckptfd)"

definition reset_wrappers :: "'a process_scheme \<Rightarrow> 'a process_scheme" where
  "reset_wrappers m = m\<lparr>initialized := False\<rparr>"

text \<open>
  What follows the return of \<open>getcontext\<close>: a checkpoint runs it, and \<open>setcontext\<close> on the saved
  context runs it again after a restart. The image is the open file; its new bytes go back
  to the file system when the descriptor is no longer written.
\<close>

definition handler_after_getcontext ::
  "kernel \<Rightarrow> ofile \<Rightarrow> byte list \<Rightarrow> va \<Rightarrow> 'a process_scheme \<Rightarrow> 'a process_scheme run" where
  "handler_after_getcontext K ckptfd ctx sp m =
     (if get_state K m = CkptOrRestore_code RUNNING \<or> get_state K m = CkptOrRestore_code POST_RESUME then
        let m = set_state K POST_RESTART m;
            st = \<lparr>st_ctx = ctx, st_sp = sp, st_fsAddr = getFs m\<rparr>;
            ckptfd = checkpointContext ckptfd st
        in andThen (checkpointMemory K m ckptfd) (\<lambda>ckptfd.
             Inr (set_state K POST_RESUME (m\<lparr>files := (files m)(ckpt_img m \<mapsto> content ckptfd)\<rparr>)))
      else if get_state K m = CkptOrRestore_code POST_RESTART then Inr (reset_wrappers m)
      else Inr m)"

text \<open>\<open>ctx\<close> is what \<open>getcontext\<close> stores, \<open>None\<close> when it fails; \<open>O_TRUNC\<close> empties the image first.\<close>

definition checkpointHandler :: "kernel \<Rightarrow> byte list option \<Rightarrow> va \<Rightarrow> 'a process_scheme \<Rightarrow>
    'a process_scheme run" where
  "checkpointHandler K ctx sp m =
     (if \<not> k_creat K (ckpt_img m) then Inr m
      else
        let m = m\<lparr>files := (files m)(ckpt_img m \<mapsto> [])\<rparr>;
            ckptfd = \<lparr>content = [], pos = 0, answers = k_answers K (ckpt_img m)\<rparr>
        in case ctx of
             None \<Rightarrow> Inr m
           | Some c \<Rightarrow> handler_after_getcontext K ckptfd c sp m)"

text \<open>What \<open>doCheckpoint\<close> does when the handler has returned, after a checkpoint or after a restart.\<close>

definition report_state :: "kernel \<Rightarrow> 'a machine_scheme \<Rightarrow> u32 \<times> 'a machine_scheme" where
  "report_state K m =
     (let tempState = get_state K m
      in (tempState,
          if tempState = CkptOrRestore_code POST_RESTART \<or> tempState = CkptOrRestore_code POST_RESUME
          then set_state K RUNNING m else m))"

definition doCheckpoint :: "kernel \<Rightarrow> byte list option \<Rightarrow> va \<Rightarrow> 'a process_scheme \<Rightarrow>
    (u32 \<times> 'a process_scheme) run" where
  "doCheckpoint K ctx sp m = andThen (checkpointHandler K ctx sp m) (\<lambda>m. Inr (report_state K m))"

section \<open>What an image holds\<close>

text \<open>
  The specification of the selection: of a readable region that is not one of the kernel's own, the
  first tracked region (in the order of the table) that contains it or lies inside it decides what
  is saved, the region itself or the tracked part of it.
\<close>

fun chosen :: "MmapInfo list \<Rightarrow> Area \<Rightarrow> Area option" where
  "chosen [] area = None"
| "chosen (r # rs) area =
     (if regionContains (mi_addr r) (mi_addr r + mi_len r) (a_addr area) (a_endAddr area) then Some area
      else if regionContains (a_addr area) (a_endAddr area) (mi_addr r) (mi_addr r + mi_len r)
      then Some (area\<lparr>a_addr := mi_addr r, a_endAddr := mi_addr r + mi_len r, a_size := mi_len r\<rparr>)
      else chosen rs area)"

definition to_save :: "'a process_scheme \<Rightarrow> Area \<Rightarrow> Area option" where
  "to_save m area = (if skipRegion area \<or> lhMmapListFptr (uh_lhInfo m) = 0 then None
     else chosen (tracked m) area)"

definition saved_areas :: "'a process_scheme \<Rightarrow> Area list \<Rightarrow> Area list" where
  "saved_areas m areas = List.map_filter (to_save m) areas"

definition segment :: "'a machine_scheme \<Rightarrow> Area \<Rightarrow> byte list" where
  "segment m area = area_bytes area @ peek m (a_addr area) (unat (a_size area))"

definition readable :: "'a machine_scheme \<Rightarrow> Area \<Rightarrow> bool" where
  "readable m area \<longleftrightarrow> all_prot PROT_READ m (a_addr area) (unat (a_size area))"

text \<open>A file being written at its end, on a kernel that only interrupts.\<close>

definition appending :: "ofile \<Rightarrow> bool" where
  "appending f \<longleftrightarrow> calm f \<and> at_end f"

lemma writeMemoryRegion_segment:
  assumes "appending f" "readable m area"
  shows "\<exists>f'. snd (writeMemoryRegion m f area) = f' \<and> appending f' \<and> content f' = content f @ segment m area"
proof -
  obtain f1 where f1: "writeAll (area_bytes area) f = (int (length (area_bytes area)), f1)"
    "content f1 = content f @ area_bytes area" "at_end f1" "calm f1"
    using writeAll_append [of f "area_bytes area"] assms(1) by (auto simp: appending_def)
  obtain f2 where f2: "writeAll (peek m (a_addr area) (unat (a_size area))) f1 = (int (unat (a_size area)), f2)"
    "content f2 = content f1 @ peek m (a_addr area) (unat (a_size area))" "at_end f2" "calm f2"
    using writeAll_append [OF f1(4,3), of "peek m (a_addr area) (unat (a_size area))"] by auto
  show ?thesis
    using assms(2) f1 f2
    by (simp add: writeMemoryRegion_def writeAll_from_def readable_def segment_def appending_def)
qed

lemma uh_regions_loop_chosen:
  assumes "appending f" "\<And>a. chosen rs area = Some a \<Longrightarrow> readable m a"
  shows "\<exists>f'. snd (uh_regions_loop m rs f area) = f' \<and> appending f' \<and>
    content f' = content f @ (case chosen rs area of None \<Rightarrow> [] | Some a \<Rightarrow> segment m a)"
  using assms(2)
proof (induction rs)
  case Nil
  then show ?case using assms(1) by simp
next
  case (Cons r rs)
  then show ?case
    using writeMemoryRegion_segment [OF assms(1), of m] by (auto simp: Let_def)
qed

lemma save_one_area:
  assumes "appending f" "\<And>a. to_save m area = Some a \<Longrightarrow> readable m a"
  defines "f' \<equiv> if \<not> skipRegion area then snd (writeRelevantMemoryRegion m f area) else f"
  shows "appending f' \<and> content f' = content f @ (case to_save m area of None \<Rightarrow> [] | Some a \<Rightarrow> segment m a)"
proof (cases "skipRegion area \<or> lhMmapListFptr (uh_lhInfo m) = 0")
  case True
  then show ?thesis using assms(1) by (auto simp: f'_def to_save_def writeRelevantMemoryRegion_def)
next
  case False
  then have "to_save m area = chosen (tracked m) area" "has_flag (a_prot area) PROT_READ"
    by (auto simp: to_save_def skipRegion_def)
  then show ?thesis
    using False uh_regions_loop_chosen [OF assms(1), of "tracked m" area m] assms(2)
    by (simp add: f'_def writeRelevantMemoryRegion_def tracked_def getMmappedList_def)
qed

lemma save_areas:
  assumes "appending f" "list_all (readable m) (saved_areas m areas)"
  shows "\<exists>f'. each_area (\<lambda>area f. Inr (if \<not> skipRegion area then snd (writeRelevantMemoryRegion m f area) else f, False))
      areas f = Inr f' \<and> appending f' \<and> content f' = content f @ concat (map (segment m) (saved_areas m areas))"
  using assms
proof (induction areas arbitrary: f)
  case Nil
  then show ?case by (simp add: saved_areas_def List.map_filter_def)
next
  case (Cons area areas)
  let ?f = "if \<not> skipRegion area then snd (writeRelevantMemoryRegion m f area) else f"
  have "appending ?f \<and> content ?f = content f @ (case to_save m area of None \<Rightarrow> [] | Some a \<Rightarrow> segment m a)"
    by (rule save_one_area [OF Cons.prems(1)])
       (use Cons.prems(2) in \<open>simp add: saved_areas_def List.map_filter_simps\<close>)
  moreover have "list_all (readable m) (saved_areas m areas)"
    using Cons.prems(2) by (simp add: saved_areas_def List.map_filter_simps split: option.splits)
  ultimately show ?case
    using Cons.IH [of ?f]
    by (auto simp: saved_areas_def List.map_filter_simps split: option.splits)
qed

text \<open>The areas of \<open>/proc/self/maps\<close> as \<open>checkpointMemory\<close> sees them.\<close>

definition maps_areas :: "kernel \<Rightarrow> maps_entry list \<Rightarrow> Area list" where
  "maps_areas K es = areas_of (area_of_bytes (k_stale K sizeof_Area)) es"

lemma checkpointMemory_segments:
  assumes "lists K m es" "stale_ok K" "appending f"
    and "list_all (readable m) (saved_areas m (maps_areas K es))"
  shows "\<exists>f'. checkpointMemory K m f = Inr f' \<and> appending f' \<and>
    content f' = content f @ concat (map (segment m) (saved_areas m (maps_areas K es)))"
proof -
  obtain g where g: "open_maps K m = Some g" "feeds g (maps_text es)" using lists_feeds [OF assms(1)] by blast
  have ok: "list_all entry_ok es" using assms(1) by (simp add: lists_def)
  show ?thesis
    using save_areas [OF assms(3,4)] g(1)
    by (simp add: checkpointMemory_def maps_areas_def
        maps_loop_areas [OF g(2) ok area_ok_stale [OF assms(2)]])
qed

text \<open>
  C11. What \<open>checkpointMemory\<close> appends to the image, on a kernel that interrupts but does not fail:
  one segment (the area and its bytes) for every listed region that is readable, not the
  kernel's own and covered by a mapping of the upper half, in the order of the list.
\<close>

theorem checkpointMemory_image:
  assumes "lists K m es" "stale_ok K" "appending f"
    and "list_all (readable m) (saved_areas m (maps_areas K es))"
  shows "\<exists>f'. checkpointMemory K m f = Inr f' \<and> appending f' \<and>
    content f' = content f @ concat (map (segment m) (saved_areas m (maps_areas K es)))"
  by (rule checkpointMemory_segments [OF assms])

text \<open>What is saved for a region is all of it or a tracked mapping inside it.\<close>

lemma chosen_cases:
  assumes "chosen rs area = Some a"
  shows "a = area \<or> (\<exists>r \<in> set rs. regionContains (a_addr area) (a_endAddr area) (mi_addr r) (mi_addr r + mi_len r) \<and>
    a = area\<lparr>a_addr := mi_addr r, a_endAddr := mi_addr r + mi_len r, a_size := mi_len r\<rparr>)"
  using assms by (induction rs) (auto split: if_splits)

text \<open>
  C28. A region that holds two tracked mappings, as the kernel lists adjacent mappings of one
  protection, is saved only in part: the first mapping in the table's order is written, and the
  result is the same whatever mappings follow it in the table.
\<close>

theorem merged_mappings_lost:
  assumes "regionContains (a_addr area) (a_endAddr area) (mi_addr r) (mi_addr r + mi_len r)"
    and "\<not> regionContains (mi_addr r) (mi_addr r + mi_len r) (a_addr area) (a_endAddr area)"
    and "appending f" "readable m (area\<lparr>a_addr := mi_addr r, a_endAddr := mi_addr r + mi_len r, a_size := mi_len r\<rparr>)"
  shows "content (snd (uh_regions_loop m (r # rs) f area)) = content f @
    segment m (area\<lparr>a_addr := mi_addr r, a_endAddr := mi_addr r + mi_len r, a_size := mi_len r\<rparr>)"
  using uh_regions_loop_chosen [OF assms(3), of "r # rs" area m] assms(1,2,4) by auto

text \<open>
  A region that neither lies in a tracked mapping nor holds a whole one is not written at
  all, even where the two overlap.
\<close>

theorem partial_overlap_lost:
  assumes "\<And>r. r \<in> set (tracked m) \<Longrightarrow>
      \<not> regionContains (mi_addr r) (mi_addr r + mi_len r) (a_addr area) (a_endAddr area) \<and>
      \<not> regionContains (a_addr area) (a_endAddr area) (mi_addr r) (mi_addr r + mi_len r)"
  shows "writeRelevantMemoryRegion m f area = (0, f)"
proof -
  have "uh_regions_loop m rs f area = (0, f)" if "set rs \<subseteq> set (tracked m)" for rs
    using that assms by (induction rs) auto
  then show ?thesis
    by (simp add: writeRelevantMemoryRegion_def tracked_def getMmappedList_def)
qed

section \<open>The handler\<close>

lemma get_set_state: "get_state K (set_state K s m) = CkptOrRestore_code s"
  using peek_poke [of "le_bytes 4 (CkptOrRestore_code s)" "k_sym K ''state''" m]
  by (simp add: get_state_def set_state_def codec_simps)

lemma set_state_fields [simp]:
  "prot_at (set_state K s m) = prot_at m" "files (set_state K s m) = files m" "fs_base (set_state K s m) = fs_base m"
  "fds (set_state K s m) = fds m"
  by (simp_all add: set_state_def)

lemma set_state_process [simp]:
  "ckpt_img (set_state K s m) = ckpt_img m" "uh_lhInfo (set_state K s m) = uh_lhInfo m"
  "initialized (set_state K s m) = initialized m" "tracked (set_state K s m) = tracked m"
  by (simp_all add: set_state_def poke_def tracked_def getMmappedList_def)

lemma CkptOrRestore_code_inj [simp]: "CkptOrRestore_code s = CkptOrRestore_code t \<longleftrightarrow> s = t"
  by (cases s; cases t) (simp_all add: CkptOrRestore_code.simps)

text \<open>The process as its image shows it: the state variable already says \<open>POST_RESTART\<close>.\<close>

definition frozen :: "kernel \<Rightarrow> 'a process_scheme \<Rightarrow> 'a process_scheme" where
  "frozen K m = set_state K POST_RESTART (m\<lparr>files := (files m)(ckpt_img m \<mapsto> [])\<rparr>)"

definition ckpt_image :: "kernel \<Rightarrow> byte list \<Rightarrow> va \<Rightarrow> maps_entry list \<Rightarrow> 'a process_scheme \<Rightarrow> byte list" where
  "ckpt_image K ctx sp es m = st_bytes \<lparr>st_ctx = ctx, st_sp = sp, st_fsAddr = fs_base m\<rparr> @
     concat (map (segment (frozen K m)) (saved_areas m (maps_areas K es)))"


lemma tracked_files [simp]: "tracked (m\<lparr>files := fs\<rparr>) = tracked m"
  by (simp add: tracked_def getMmappedList_def)

lemma frozen_fields [simp]:
  "prot_at (frozen K m) = prot_at m" "fs_base (frozen K m) = fs_base m" "ckpt_img (frozen K m) = ckpt_img m"
  "tracked (frozen K m) = tracked m" "uh_lhInfo (frozen K m) = uh_lhInfo m"
  "get_state K (frozen K m) = CkptOrRestore_code POST_RESTART"
  by (simp_all add: frozen_def get_set_state tracked_files)

lemma saved_areas_frozen [simp]: "saved_areas (frozen K m) = saved_areas m"
proof -
  have "to_save (frozen K m) = to_save m" by (simp add: to_save_def fun_eq_iff)
  then show ?thesis by (intro ext) (simp only: saved_areas_def)
qed

lemma readable_frozen [simp]: "readable (frozen K m) = readable m"
  by (simp add: readable_def all_prot_iff fun_eq_iff)

definition can_checkpoint :: "kernel \<Rightarrow> maps_entry list \<Rightarrow> 'a process_scheme \<Rightarrow> bool" where
  "can_checkpoint K es m \<longleftrightarrow> k_creat K (ckpt_img m) \<and> stale_ok K \<and> lists K m es \<and>
     list_all calm_answer (k_answers K (ckpt_img m)) \<and>
     list_all (readable m) (saved_areas m (maps_areas K es))"

lemma handler_running:
  assumes "get_state K m = CkptOrRestore_code RUNNING \<or> get_state K m = CkptOrRestore_code POST_RESUME"
  shows "handler_after_getcontext K f ctx sp m =
    andThen (checkpointMemory K (set_state K POST_RESTART m)
        (checkpointContext f \<lparr>st_ctx = ctx, st_sp = sp, st_fsAddr = fs_base m\<rparr>)) (\<lambda>f'.
      Inr (set_state K POST_RESUME
        ((set_state K POST_RESTART m)\<lparr>files := (files m)(ckpt_img m \<mapsto> content f')\<rparr>)))"
  unfolding handler_after_getcontext_def if_P [OF assms] by (simp add: Let_def getFs_def)

lemma image_written:
  assumes "can_checkpoint K es m"
  shows "\<exists>f. checkpointMemory K (frozen K m)
      (checkpointContext \<lparr>content = [], pos = 0, answers = k_answers K (ckpt_img m)\<rparr>
        \<lparr>st_ctx = ctx, st_sp = sp, st_fsAddr = fs_base m\<rparr>) = Inr f \<and> content f = ckpt_image K ctx sp es m"
proof -
  let ?st = "\<lparr>st_ctx = ctx, st_sp = sp, st_fsAddr = fs_base m\<rparr>"
  let ?f0 = "\<lparr>content = [], pos = 0, answers = k_answers K (ckpt_img m)\<rparr>"
  have can: "stale_ok K" "lists K m es" "list_all calm_answer (k_answers K (ckpt_img m))"
      "list_all (readable m) (saved_areas m (maps_areas K es))"
    using assms by (simp_all add: can_checkpoint_def)
  have "calm ?f0" "at_end ?f0" using can(3) by (simp_all add: calm_def at_end_def)
  then obtain f1 where f1: "writeAll (st_bytes ?st) ?f0 = (int (length (st_bytes ?st)), f1)"
    "content f1 = content ?f0 @ st_bytes ?st" "at_end f1" "calm f1"
    by (rule writeAll_append)
  have "lists K (frozen K m) es" using can(2) by (simp add: lists_def)
  moreover have "appending f1" using f1(3,4) by (simp add: appending_def)
  moreover have "list_all (readable (frozen K m)) (saved_areas (frozen K m) (maps_areas K es))"
    using can(4) by simp
  ultimately obtain f2 where f2: "checkpointMemory K (frozen K m) f1 = Inr f2"
    "content f2 = content f1 @ concat (map (segment (frozen K m)) (saved_areas (frozen K m) (maps_areas K es)))"
    using checkpointMemory_segments [OF _ can(1)] by blast
  have "content f2 = ckpt_image K ctx sp es m" using f1(2) f2(2) by (simp add: ckpt_image_def)
  moreover have "checkpointContext ?f0 ?st = f1" by (simp add: checkpointContext_def f1(1))
  ultimately show ?thesis using f2(1) by blast
qed

lemma checkpointHandler_saves:
  assumes "can_checkpoint K es m"
    and "get_state K m = CkptOrRestore_code RUNNING \<or> get_state K m = CkptOrRestore_code POST_RESUME"
  shows "checkpointHandler K (Some ctx) sp m = Inr (set_state K POST_RESUME
    ((frozen K m)\<lparr>files := (files m)(ckpt_img m \<mapsto> ckpt_image K ctx sp es m)\<rparr>))"
proof -
  let ?m = "m\<lparr>files := (files m)(ckpt_img m \<mapsto> [])\<rparr>"
  have "get_state K ?m = get_state K m" by (simp add: get_state_def peek_def)
  then have running: "get_state K ?m = CkptOrRestore_code RUNNING \<or> get_state K ?m = CkptOrRestore_code POST_RESUME"
    using assms(2) by simp
  obtain f where f: "checkpointMemory K (frozen K m)
      (checkpointContext \<lparr>content = [], pos = 0, answers = k_answers K (ckpt_img m)\<rparr>
        \<lparr>st_ctx = ctx, st_sp = sp, st_fsAddr = fs_base m\<rparr>) = Inr f" "content f = ckpt_image K ctx sp es m"
    using image_written [OF assms(1)] by blast
  have "k_creat K (ckpt_img m)" using assms(1) by (simp add: can_checkpoint_def)
  then show ?thesis
    using f by (simp add: checkpointHandler_def handler_running [OF running] frozen_def)
qed

text \<open>
  C12. A checkpoint of a running or resumed process writes the whole image (its context, stack
  pointer and \<open>fs\<close> base, then the saved regions, in which the state variable reads
  \<open>POST_RESTART\<close>), and goes on in state \<open>POST_RESUME\<close> with its other memory as it was.
\<close>

theorem checkpointHandler_image:
  assumes "can_checkpoint K es m"
    and "get_state K m = CkptOrRestore_code RUNNING \<or> get_state K m = CkptOrRestore_code POST_RESUME"
  shows "\<exists>m'. checkpointHandler K (Some ctx) sp m = Inr m' \<and>
    files m' (ckpt_img m) = Some (ckpt_image K ctx sp es m) \<and>
    get_state K m' = CkptOrRestore_code POST_RESUME \<and> prot_at m' = prot_at m \<and>
    (\<forall>x. \<not> in_range (k_sym K ''state'') 4 x \<longrightarrow> mem m' x = mem m x)"
proof -
  have other: "mem (set_state K t m0) x = mem m0 x" if "\<not> in_range (k_sym K ''state'') 4 x"
    for t x and m0 :: "'a process_scheme"
    using that unat_poke_range [of "le_bytes 4 (CkptOrRestore_code t)" 4 x "k_sym K ''state''"]
    by (simp add: set_state_def mem_poke)
  have "mem (set_state K POST_RESUME ((frozen K m)\<lparr>files := fs\<rparr>)) x = mem m x"
    if "\<not> in_range (k_sym K ''state'') 4 x" for x fs
    using other [OF that] by (simp add: frozen_def)
  then show ?thesis
    using checkpointHandler_saves [OF assms, of ctx sp] by (simp add: get_set_state)
qed

text \<open>
  C29. Entered in state \<open>POST_RESTART\<close>, which is how a restart of a signal-initiated checkpoint
  leaves the process, the handler empties the image and saves nothing: the previous
  checkpoint is lost.
\<close>

theorem checkpoint_after_restart_empties_image:
  assumes "get_state K m = CkptOrRestore_code POST_RESTART" "k_creat K (ckpt_img m)"
  shows "\<exists>m'. checkpointHandler K (Some ctx) sp m = Inr m' \<and> files m' (ckpt_img m) = Some [] \<and>
    mem m' = mem m \<and> get_state K m' = CkptOrRestore_code POST_RESTART"
proof -
  let ?m = "m\<lparr>files := (files m)(ckpt_img m \<mapsto> [])\<rparr>"
  have "get_state K ?m = CkptOrRestore_code POST_RESTART" using assms(1) by (simp add: get_state_def peek_def)
  then show ?thesis
    using assms(2)
    by (simp add: checkpointHandler_def handler_after_getcontext_def reset_wrappers_def)
       (simp add: get_state_def peek_def)
qed

text \<open>
  \<open>doCheckpoint\<close> reports \<open>POST_RESUME\<close> to the process that took the checkpoint and puts the
  state back to \<open>RUNNING\<close>, so that the next call takes a checkpoint again.
\<close>

theorem doCheckpoint_resumes:
  assumes "can_checkpoint K es m"
    and "get_state K m = CkptOrRestore_code RUNNING \<or> get_state K m = CkptOrRestore_code POST_RESUME"
  shows "\<exists>m'. doCheckpoint K (Some ctx) sp m = Inr (CkptOrRestore_code POST_RESUME, m') \<and>
    get_state K m' = CkptOrRestore_code RUNNING \<and> files m' (ckpt_img m) = Some (ckpt_image K ctx sp es m)"
  using checkpointHandler_saves [OF assms, of ctx sp] by (simp add: doCheckpoint_def report_state_def get_set_state)

text \<open>
  Only the first character of \<open>RANK_ID\<close> is in the name of the image, so ranks 1 and 10 write the
  same file.
\<close>

theorem image_name_first_character:
  assumes "installCkptHandler K True (Some (c # r)) m = Inr m'" "c \<noteq> 0"
  shows "ckpt_img m' = bytes_of ''./rank_'' @ [c] @ bytes_of ''_ckpt.img''"
  using assms by (auto simp: installCkptHandler_def cstr_def bytes_of_def Let_def)

section \<open>A process to checkpoint\<close>

definition ckpt_kernel :: kernel where
  "ckpt_kernel = truthful_kernel\<lparr>k_sym := (\<lambda>s. if s = ''state'' then 0x600010 else 0x5000)\<rparr>"

definition one_page :: layout where
  "one_page = (\<lambda>x. if in_range 0x600000 0x1000 x then Some (PROT_READ OR PROT_WRITE) else None)"

definition ckpt_process :: process where
  "ckpt_process = \<lparr>mem = (\<lambda>x. 0), prot_at = one_page, fs_base = 0x1000, files = (\<lambda>path. None),
     fds = (\<lambda>fd. None), numRegions = 1,
     mmaps = \<lparr>mi_addr = 0x600000, mi_len = 0x1000\<rparr> # replicate 999 \<lparr>mi_addr = 0, mi_len = 0\<rparr>,
     curbrk = 0, endOfHeap = 0,
     lhInfo = \<lparr>lhSbrk = 0x6000, lhMmap = 0x5000, lhDlsym = 0x7000, lhFsAddr = 0x2000, lhMmapListFptr = 0x8000\<rparr>,
     uh_lhInfo = \<lparr>lhSbrk = 0x6000, lhMmap = 0x5000, lhDlsym = 0x7000, lhFsAddr = 0x2000, lhMmapListFptr = 0x8000\<rparr>,
     initialized = True, ckpt_img = bytes_of ''./rank_0_ckpt.img''\<rparr>"

lemma filter_single: "k < n \<Longrightarrow> filter (\<lambda>i. i = k) [0..<n] = [k]"
proof -
  assume "k < n"
  then have "[0..<n] = [0..<k] @ k # [Suc k..<n]"
    using upt_add_eq_append [of 0 k "n - k"] by (simp add: upt_conv_Cons)
  then show ?thesis by (simp add: filter_False)
qed

lemma one_page_entries: "page_entries one_page = [page_entry one_page 0x600]"
proof -
  have "one_page (of_nat (4096 * i)) \<noteq> None \<longleftrightarrow> i = 0x600" if "i < 2 ^ 35" for i
  proof -
    have "one_page (of_nat (4096 * i)) \<noteq> None \<longleftrightarrow> 0x600000 \<le> 4096 * i \<and> 4096 * i < 0x601000"
      using that unat_page [of i] in_range_unat [of "0x600000" "0x1000" "of_nat (4096 * i)"]
      by (simp add: one_page_def no_wrap_def del: of_nat_mult)
    then show ?thesis by auto
  qed
  then have "filter (\<lambda>i. one_page (of_nat (4096 * i)) \<noteq> None) [0..<2 ^ 35] = filter (\<lambda>i. i = 0x600) [0..<2 ^ 35]"
    by (intro filter_cong) simp_all
  then show ?thesis using filter_single [of "0x600" "2 ^ 35"] by (simp add: page_entries_def del: of_nat_mult)
qed

definition page_area :: Area where
  "page_area = entry_area (page_entry one_page 0x600) (area_of_bytes (replicate sizeof_Area 0))"

lemma page_area_fields:
  "a_addr page_area = 0x600000" "a_endAddr page_area = 0x601000" "a_size page_area = 0x1000"
  "a_prot page_area = PROT_READ OR PROT_WRITE" "area_name page_area = []"
proof -
  have "one_page 0x600000 = Some (PROT_READ OR PROT_WRITE)" by (simp add: one_page_def in_range_def)
  then show "a_addr page_area = 0x600000" "a_endAddr page_area = 0x601000" "a_size page_area = 0x1000"
    "a_prot page_area = PROT_READ OR PROT_WRITE"
    by (simp_all add: page_area_def page_entry_def entry_area_def has_flag_def flag_defs)
  have "entry_ok (page_entry one_page 0x600)"
    by (simp add: entry_ok_def page_entry_def Let_def FILENAMESIZE_def)
  then show "area_name page_area = []"
    by (simp add: page_area_def entry_area_name page_entry_fields)
qed

lemma one_page_areas: "maps_areas ckpt_kernel (page_entries one_page) = [page_area]"
  by (simp add: maps_areas_def one_page_entries page_area_def Let_def ckpt_kernel_def
      truthful_kernel_def plain_kernel_def)

lemma ckpt_process_saved: "saved_areas ckpt_process [page_area] = [page_area]"
proof -
  have "tracked ckpt_process = [\<lparr>mi_addr = 0x600000, mi_len = 0x1000\<rparr>]"
    by (simp add: tracked_def getMmappedList_def ckpt_process_def)
  moreover have "\<not> skipRegion page_area"
    by (simp add: skipRegion_def page_area_fields has_flag_def flag_defs bytes_of_def)
  ultimately have "to_save ckpt_process page_area = Some page_area"
    by (simp add: to_save_def regionContains_def page_area_fields) (simp add: ckpt_process_def)
  then show ?thesis by (simp add: saved_areas_def List.map_filter_simps)
qed

lemma page_readable: "readable ckpt_process page_area"
  unfolding readable_def
  by (rule all_prot_range [where n = "a_size page_area"])
     (simp_all add: page_area_fields ckpt_process_def one_page_def has_flag_def flag_defs)

lemma ckpt_process_can: "can_checkpoint ckpt_kernel (page_entries one_page) ckpt_process"
proof -
  have "layout_ok one_page"
    by (auto simp: layout_ok_def one_page_def in_range_unat no_wrap_def unat_ROUND_DOWN)
  then have "list_all entry_ok (page_entries one_page)"
    using page_entries_describe by (auto simp: describes_def list_all_iff)
  then have "lists ckpt_kernel ckpt_process (page_entries one_page)"
    by (simp add: lists_def ckpt_kernel_def truthful_kernel_def plain_kernel_def ckpt_process_def)
  then show ?thesis
    using page_readable
    by (simp add: can_checkpoint_def one_page_areas ckpt_process_saved stale_ok_def)
       (simp add: ckpt_kernel_def truthful_kernel_def plain_kernel_def)
qed

lemma ckpt_process_running: "get_state ckpt_kernel ckpt_process = CkptOrRestore_code RUNNING"
  by (simp add: get_state_def ckpt_process_def peek_def CkptOrRestore_code.simps upt_rec)

subsection \<open>Runs\<close>

theorem checkpointMemory_image_witness:
  "\<exists>f'. checkpointMemory ckpt_kernel ckpt_process \<lparr>content = [7], pos = 1, answers = [Transfer 3, Fail EINTR]\<rparr> = Inr f' \<and>
     appending f' \<and> content f' = [7] @ segment ckpt_process page_area"
proof -
  have can: "lists ckpt_kernel ckpt_process (page_entries one_page)" "stale_ok ckpt_kernel"
      "list_all (readable ckpt_process) (saved_areas ckpt_process (maps_areas ckpt_kernel (page_entries one_page)))"
    using ckpt_process_can by (simp_all add: can_checkpoint_def)
  have "appending \<lparr>content = [7], pos = 1, answers = [Transfer 3, Fail EINTR]\<rparr>"
    by (simp add: appending_def calm_def calm_answer_def retry_def at_end_def)
  from checkpointMemory_image [OF can(1,2) this can(3)] show ?thesis
    by (simp add: one_page_areas ckpt_process_saved)
qed

text \<open>One listed region of two pages, of which two mappings are tracked.\<close>

theorem merged_mappings_lost_witness:
  "content (snd (uh_regions_loop (ckpt_process\<lparr>prot_at := (\<lambda>x. Some PROT_READ)\<rparr>)
       [\<lparr>mi_addr = 0x600000, mi_len = 0x1000\<rparr>, \<lparr>mi_addr = 0x601000, mi_len = 0x1000\<rparr>]
       \<lparr>content = [], pos = 0, answers = []\<rparr>
       (page_area\<lparr>a_endAddr := 0x602000, a_size := 0x2000\<rparr>))) =
   [] @ segment (ckpt_process\<lparr>prot_at := (\<lambda>x. Some PROT_READ)\<rparr>) page_area"
proof -
  let ?m = "ckpt_process\<lparr>prot_at := (\<lambda>x. Some PROT_READ)\<rparr>"
  let ?area = "page_area\<lparr>a_endAddr := 0x602000, a_size := 0x2000\<rparr>"
  have part: "page_area\<lparr>a_addr := 0x600000, a_endAddr := 0x601000, a_size := 0x1000\<rparr> = page_area"
    using page_area_fields(1-3) by (cases page_area) simp
  have "all_prot PROT_READ ?m 0x600000 0x1000" by (simp add: all_prot_iff has_flag_def flag_defs)
  then have "readable ?m page_area" by (simp add: readable_def page_area_fields)
  then show ?thesis
    using merged_mappings_lost [of ?area "\<lparr>mi_addr = 0x600000, mi_len = 0x1000\<rparr>" "\<lparr>content = [], pos = 0, answers = []\<rparr>" ?m]
    by (simp add: regionContains_def page_area_fields part appending_def calm_def at_end_def)
qed

theorem partial_overlap_lost_witness:
  "writeRelevantMemoryRegion ckpt_process \<lparr>content = [], pos = 0, answers = []\<rparr>
     (page_area\<lparr>a_addr := 0x600800, a_endAddr := 0x601800\<rparr>) = (0, \<lparr>content = [], pos = 0, answers = []\<rparr>)"
  by (rule partial_overlap_lost)
     (simp add: tracked_def getMmappedList_def ckpt_process_def regionContains_def)

theorem checkpointHandler_image_witness:
  "\<exists>m'. checkpointHandler ckpt_kernel (Some (replicate 968 1)) 0x7ffe0000 ckpt_process = Inr m' \<and>
     files m' (bytes_of ''./rank_0_ckpt.img'') =
       Some (ckpt_image ckpt_kernel (replicate 968 1) 0x7ffe0000 (page_entries one_page) ckpt_process)"
  using checkpointHandler_image [OF ckpt_process_can disjI1 [OF ckpt_process_running], of "replicate 968 1" "0x7ffe0000"]
  by (auto simp: ckpt_process_def)

theorem doCheckpoint_resumes_witness:
  "\<exists>m'. doCheckpoint ckpt_kernel (Some (replicate 968 1)) 0x7ffe0000 ckpt_process =
     Inr (CkptOrRestore_code POST_RESUME, m') \<and> get_state ckpt_kernel m' = CkptOrRestore_code RUNNING"
  using doCheckpoint_resumes [OF ckpt_process_can disjI1 [OF ckpt_process_running], of "replicate 968 1" "0x7ffe0000"]
  by blast

theorem checkpoint_after_restart_empties_image_witness:
  "\<exists>m'. checkpointHandler ckpt_kernel (Some []) 0 (set_state ckpt_kernel POST_RESTART ckpt_process) = Inr m' \<and>
     files m' (bytes_of ''./rank_0_ckpt.img'') = Some []"
proof -
  have "k_creat ckpt_kernel (ckpt_img (set_state ckpt_kernel POST_RESTART ckpt_process))"
    by (simp add: ckpt_kernel_def truthful_kernel_def plain_kernel_def)
  from checkpoint_after_restart_empties_image [OF get_set_state this, of "[]" 0] show ?thesis
    by (auto simp: ckpt_process_def)
qed

theorem image_name_first_character_witness:
  "\<exists>m1 m10. installCkptHandler ckpt_kernel True (Some (bytes_of ''1'')) ckpt_process = Inr m1 \<and>
     installCkptHandler ckpt_kernel True (Some (bytes_of ''10'')) ckpt_process = Inr m10 \<and>
     ckpt_img m1 = ckpt_img m10"
proof -
  have run: "\<exists>m'. installCkptHandler ckpt_kernel True (Some e) ckpt_process = Inr m'" for e
    by (simp add: installCkptHandler_def Let_def)
  obtain m1 m10 where m: "installCkptHandler ckpt_kernel True (Some (bytes_of ''1'')) ckpt_process = Inr m1"
    "installCkptHandler ckpt_kernel True (Some (bytes_of ''10'')) ckpt_process = Inr m10" using run by blast
  have "ckpt_img m1 = bytes_of ''./rank_'' @ [49] @ bytes_of ''_ckpt.img''"
    using image_name_first_character [OF m(1) [unfolded bytes_of_def list.map]] by simp
  moreover have "ckpt_img m10 = bytes_of ''./rank_'' @ [49] @ bytes_of ''_ckpt.img''"
    using image_name_first_character [OF m(2) [unfolded bytes_of_def list.map]] by simp
  ultimately show ?thesis using m by auto
qed

end
