(* ===== verification/UpperHalf.thy ===== *)
theory UpperHalf
  imports MemCkpt
begin

text \<open>
  The upper half's side of the calls into the lower half: the \<open>sbrk\<close> and \<open>mmap\<close> interposed in
  \<open>upper-half-wrappers.c\<close>, the MPI wrappers of \<open>upper-half-mpi-wrappers.h\<close>, and the lower half's
  function table and MPI functions (\<open>mpi-lh-if.c\<close>, \<open>lower-half-mpi.h\<close>) they reach. A call through
  a function pointer runs the code at that address, which is an argument of the definitions.
\<close>

section \<open>State\<close>

text \<open>The two function-local static pointers, \<open>-1\<close> until their first use.\<close>

record upper_half = process +
  lowerHalfSbrkWrapper :: va
  lowerHalfMmapWrapper :: va

definition LH_FILE_NAME :: "byte list" where "LH_FILE_NAME = bytes_of ''./addr.bin''"

section \<open>The addresses of the lower half\<close>

text \<open>
  One \<open>read\<close>; \<open>rc < sizeof(lhInfo)\<close> compares as unsigned numbers, so that the \<open>-1\<close> of a failed read
  passes and leaves \<open>lhInfo\<close> as it was.
\<close>

definition read_lhInfo :: "ofile \<Rightarrow> 'a process_scheme \<Rightarrow> 'a process_scheme run" where
  "read_lhInfo fd m =
     (let (rc, m) = (case fst (sys_read 40 fd) of
                       ReadErr e \<Rightarrow> (-1 :: u64, m)
                     | Data d \<Rightarrow> (of_nat (length d), m\<lparr>uh_lhInfo := lhinfo_of_bytes
                         (d @ drop (length d) (lhinfo_bytes (uh_lhInfo m)))\<rparr>))
      in if rc < 40 then Inl (Exit (-1)) else Inr m)"

definition sys_unlink :: "byte list \<Rightarrow> 'a machine_scheme \<Rightarrow> 'a machine_scheme" where
  "sys_unlink path m = m\<lparr>files := (files m)(path := None)\<rparr>"

definition readLhInfoAddr :: "kernel \<Rightarrow> 'a process_scheme \<Rightarrow> 'a process_scheme run" where
  "readLhInfoAddr K m =
     (case open_ro K LH_FILE_NAME m of
        None \<Rightarrow> Inl (Exit (-1))
      | Some fd \<Rightarrow> andThen (read_lhInfo fd m) (\<lambda>m. Inr (sys_unlink LH_FILE_NAME m)))"

definition initialize_wrappers :: "kernel \<Rightarrow> 'a process_scheme \<Rightarrow> 'a process_scheme run" where
  "initialize_wrappers K m =
     (if \<not> initialized m then andThen (readLhInfoAddr K m) (\<lambda>m. Inr (m\<lparr>initialized := True\<rparr>))
      else Inr m)"

section \<open>sbrk and mmap of the upper half\<close>

definition sbrk :: "kernel \<Rightarrow> (va \<Rightarrow> u64 \<Rightarrow> 'a upper_half_scheme \<Rightarrow> (va \<times> 'a upper_half_scheme) run) \<Rightarrow>
    u64 \<Rightarrow> 'a upper_half_scheme \<Rightarrow> (va \<times> 'a upper_half_scheme) run" where
  "sbrk K code increment m =
     andThen (if \<not> initialized m then initialize_wrappers K m else Inr m) (\<lambda>m.
       let m = (if lowerHalfSbrkWrapper m = -1 then m\<lparr>lowerHalfSbrkWrapper := lhSbrk (uh_lhInfo m)\<rparr> else m)
       in code (lowerHalfSbrkWrapper m) increment m)"

text \<open>\<open>__sbrk\<close>\<close>

definition sbrk_internal :: "kernel \<Rightarrow> (va \<Rightarrow> u64 \<Rightarrow> 'a upper_half_scheme \<Rightarrow> (va \<times> 'a upper_half_scheme) run) \<Rightarrow>
    u64 \<Rightarrow> 'a upper_half_scheme \<Rightarrow> (va \<times> 'a upper_half_scheme) run" where
  "sbrk_internal K code increment m = sbrk K code increment m"

record mmap_args =
  arg_addr :: va
  arg_length :: u64
  arg_prot :: u32
  arg_flags :: u32
  arg_fd :: int
  arg_offset :: u64

definition mmap :: "kernel \<Rightarrow> (va \<Rightarrow> mmap_args \<Rightarrow> 'a upper_half_scheme \<Rightarrow> (va \<times> 'a upper_half_scheme) run) \<Rightarrow>
    mmap_args \<Rightarrow> 'a upper_half_scheme \<Rightarrow> (va \<times> 'a upper_half_scheme) run" where
  "mmap K code args m =
     andThen (if \<not> initialized m then initialize_wrappers K m else Inr m) (\<lambda>m.
       let m = (if lowerHalfMmapWrapper m = -1 then m\<lparr>lowerHalfMmapWrapper := lhMmap (uh_lhInfo m)\<rparr> else m)
       in code (lowerHalfMmapWrapper m) args m)"

section \<open>MPI\<close>

text \<open>The functions in the order of their codes.\<close>

instantiation MPI_Fncs :: linorder
begin

definition less_eq_MPI_Fncs :: "MPI_Fncs \<Rightarrow> MPI_Fncs \<Rightarrow> bool" where
  "less_eq_MPI_Fncs f g \<longleftrightarrow> MPI_Fncs_code f \<le> MPI_Fncs_code g"

definition less_MPI_Fncs :: "MPI_Fncs \<Rightarrow> MPI_Fncs \<Rightarrow> bool" where
  "less_MPI_Fncs f g \<longleftrightarrow> MPI_Fncs_code f < MPI_Fncs_code g"

instance
proof
  fix f g :: MPI_Fncs
  show "f \<le> g \<Longrightarrow> g \<le> f \<Longrightarrow> f = g"
    by (cases f; cases g) (simp_all add: less_eq_MPI_Fncs_def word_le_nat_alt)
qed (auto simp: less_eq_MPI_Fncs_def less_MPI_Fncs_def)

end

definition MPI_Fnc_Ptrs :: "kernel \<Rightarrow> va list" where
  "MPI_Fnc_Ptrs K = [0, k_sym K ''MPI_Init'', k_sym K ''MPI_Comm_rank'', k_sym K ''MPI_Send'', k_sym K ''MPI_Recv'', 0]"

text \<open>\<open>lhDlsym\<close>; the enumeration is an \<open>unsigned int\<close>, so the lower bound never fails.\<close>

definition lhDlsym_fn :: "kernel \<Rightarrow> u32 \<Rightarrow> va" where
  "lhDlsym_fn K fnc =
     (if fnc < MPI_Fncs_code MPI_Fnc_NULL \<or> fnc > MPI_Fncs_code MPI_Fnc_Invalid then 0
      else MPI_Fnc_Ptrs K ! unat fnc)"

definition MPI_SUCCESS :: int where "MPI_SUCCESS = 0"

text \<open>The lower half's MPI functions: after a pause they report success.\<close>

definition lower_MPI :: "'args \<Rightarrow> 'a machine_scheme \<Rightarrow> (int \<times> 'a machine_scheme) run" where
  "lower_MPI args m = Inr (MPI_SUCCESS, m)"

text \<open>
  \<open>NEXT_FUNC\<close>: its pointer is a fresh variable of every call, so it asks \<open>lhDlsym\<close> every time.
\<close>

definition NEXT_FUNC :: "(va \<Rightarrow> u32 \<Rightarrow> va) \<Rightarrow> MPI_Fncs \<Rightarrow> 'a process_scheme \<Rightarrow> va" where
  "NEXT_FUNC dlsym fnc m = dlsym (lhDlsym (uh_lhInfo m)) (MPI_Fncs_code fnc)"

definition call_lower_half :: "kernel \<Rightarrow> (va \<Rightarrow> u32 \<Rightarrow> va) \<Rightarrow>
    (va \<Rightarrow> 'args \<Rightarrow> 'a process_scheme \<Rightarrow> (int \<times> 'a process_scheme) run) \<Rightarrow> MPI_Fncs \<Rightarrow> 'args \<Rightarrow>
    'a process_scheme \<Rightarrow> (int \<times> 'a process_scheme) run" where
  "call_lower_half K dlsym code fnc args m =
     in_lower_half K (lhFsAddr (uh_lhInfo m)) (\<lambda>m. code (NEXT_FUNC dlsym fnc m) args m) m"

definition MPI_wrapper :: "kernel \<Rightarrow> (va \<Rightarrow> u32 \<Rightarrow> va) \<Rightarrow>
    (va \<Rightarrow> 'args \<Rightarrow> 'a process_scheme \<Rightarrow> (int \<times> 'a process_scheme) run) \<Rightarrow> MPI_Fncs \<Rightarrow> 'args \<Rightarrow>
    'a process_scheme \<Rightarrow> (int \<times> 'a process_scheme) run" where
  "MPI_wrapper K dlsym code fnc args m =
     andThen (if \<not> initialized m then initialize_wrappers K m else Inr m)
       (call_lower_half K dlsym code fnc args)"

section \<open>What the wrappers guarantee\<close>

text \<open>
  The address file, written by \<open>writeLhInfoToFile\<close> of the lower half over what an older file held, and a read
  that delivers it.
\<close>

definition published :: "kernel \<Rightarrow> LowerHalfInfo \<Rightarrow> 'a machine_scheme \<Rightarrow> bool" where
  "published K info m \<longleftrightarrow> (\<exists>old. files m LH_FILE_NAME = Some (lhinfo_bytes info @ old)) \<and> k_answers K LH_FILE_NAME = []"

lemma read_lhInfo_prefix:
  "read_lhInfo \<lparr>content = lhinfo_bytes info @ old, pos = 0, answers = []\<rparr> m = Inr (m\<lparr>uh_lhInfo := info\<rparr>)"
proof -
  have len: "length (lhinfo_bytes i) = 40" for i using lhinfo_codec.length_enc by simp
  moreover have "lhinfo_of_bytes (lhinfo_bytes info) = info" using lhinfo_codec.dec_enc by simp
  ultimately show ?thesis by (simp add: read_lhInfo_def sys_read.simps pending_def Let_def)
qed

lemma readLhInfoAddr_prefix:
  assumes "files m LH_FILE_NAME = Some (lhinfo_bytes info @ old)" "k_answers K LH_FILE_NAME = []"
  shows "readLhInfoAddr K m = Inr (m\<lparr>uh_lhInfo := info, files := (files m)(LH_FILE_NAME := None)\<rparr>)"
  using assms by (simp add: readLhInfoAddr_def open_ro_def read_lhInfo_prefix sys_unlink_def)

lemma initialize_published:
  assumes "published K info m" "\<not> initialized m"
  shows "initialize_wrappers K m =
    Inr (m\<lparr>uh_lhInfo := info, files := (files m)(LH_FILE_NAME := None), initialized := True\<rparr>)"
proof -
  obtain old where "files m LH_FILE_NAME = Some (lhinfo_bytes info @ old)" "k_answers K LH_FILE_NAME = []"
    using assms(1) by (auto simp: published_def)
  from readLhInfoAddr_prefix [OF this] show ?thesis using assms(2) by (simp add: initialize_wrappers_def)
qed

lemma readLhInfoAddr_missing:
  "files m LH_FILE_NAME = None \<Longrightarrow> readLhInfoAddr K m = Inl (Exit (-1))"
  by (simp add: readLhInfoAddr_def open_ro_def)

text \<open>
  One address file serves one rank: the upper half that reads it removes it, so when a
  second rank of the same process starts its wrappers, the program ends with status \<open>-1\<close>, whichever
  wrapper it calls first.
\<close>

theorem second_rank_exits:
  assumes "published K info a" "\<not> initialized a" "initialize_wrappers K a = Inr a'"
    and "files b = files a'" "\<not> initialized b"
  shows "sbrk K code increment b = Inl (Exit (-1)) \<and> mmap K code' args b = Inl (Exit (-1)) \<and>
    MPI_wrapper K dlsym code'' f x b = Inl (Exit (-1))"
proof -
  have "files b LH_FILE_NAME = None" using assms(3,4) initialize_published [OF assms(1,2)] by auto
  then have "initialize_wrappers K b = Inl (Exit (-1))"
    using assms(5) by (simp add: initialize_wrappers_def readLhInfoAddr_missing)
  then show ?thesis
    using assms(5) by (simp_all add: sbrk_def mmap_def MPI_wrapper_def)
qed

text \<open>
  The first \<open>sbrk\<close> of the upper half reads the address file the lower half has left, removes it,
  and calls the published function; it remembers both.
\<close>

theorem sbrk_first_call:
  assumes "published K info m" "\<not> initialized m" "lowerHalfSbrkWrapper m = -1"
  shows "sbrk K code increment m = code (lhSbrk info) increment
    (m\<lparr>uh_lhInfo := info, files := (files m)(LH_FILE_NAME := None), initialized := True,
       lowerHalfSbrkWrapper := lhSbrk info\<rparr>)"
  using assms(2,3) by (simp add: sbrk_def initialize_published [OF assms(1,2)])

text \<open>
  C33. After a restart \<open>sbrk\<close> and \<open>mmap\<close> read the addresses of the new lower half but call the
  old one: \<open>reset_wrappers\<close> does not reset the pointers they keep.
\<close>

theorem stale_pointers_after_restart:
  assumes "published K info m" "lowerHalfSbrkWrapper m \<noteq> -1" "lowerHalfMmapWrapper m \<noteq> -1"
  shows "\<exists>m'. uh_lhInfo m' = info \<and>
    sbrk K code increment (reset_wrappers m) = code (lowerHalfSbrkWrapper m) increment m' \<and>
    mmap K code' args (reset_wrappers m) = code' (lowerHalfMmapWrapper m) args m'"
proof -
  let ?m = "reset_wrappers m"
  have pub: "published K info ?m" "\<not> initialized ?m"
    using assms(1) by (simp_all add: published_def reset_wrappers_def)
  note init = initialize_published [OF this]
  let ?m' = "?m\<lparr>uh_lhInfo := info, files := (files ?m)(LH_FILE_NAME := None), initialized := True\<rparr>"
  have "sbrk K code increment ?m = code (lowerHalfSbrkWrapper m) increment ?m'"
    "mmap K code' args ?m = code' (lowerHalfMmapWrapper m) args ?m'"
    using pub(2) assms(2,3) by (simp_all add: sbrk_def mmap_def init) (simp_all add: reset_wrappers_def)
  then show ?thesis by (intro exI [of _ ?m']) simp
qed

text \<open>The lower half behind the pointers: its table and its functions at the linker's addresses.\<close>

definition lower_half_code :: "kernel \<Rightarrow> va \<Rightarrow> (va \<Rightarrow> u32 \<Rightarrow> va) \<Rightarrow>
    (va \<Rightarrow> 'args \<Rightarrow> 'a process_scheme \<Rightarrow> (int \<times> 'a process_scheme) run) \<Rightarrow> bool" where
  "lower_half_code K dl dlsym code \<longleftrightarrow> dlsym dl = lhDlsym_fn K \<and>
     (\<forall>f \<in> {''MPI_Init'', ''MPI_Comm_rank'', ''MPI_Send'', ''MPI_Recv''}. code (k_sym K f) = lower_MPI)"

definition MPI_name :: "MPI_Fncs \<Rightarrow> string" where
  "MPI_name f = (case f of MPI_Fnc_Init \<Rightarrow> ''MPI_Init'' | MPI_Fnc_Comm_rank \<Rightarrow> ''MPI_Comm_rank''
     | MPI_Fnc_Send \<Rightarrow> ''MPI_Send'' | MPI_Fnc_Recv \<Rightarrow> ''MPI_Recv'' | _ \<Rightarrow> '''')"

lemma lhDlsym_table:
  "MPI_Fnc_NULL < f \<Longrightarrow> f < MPI_Fnc_Invalid \<Longrightarrow> lhDlsym_fn K (MPI_Fncs_code f) = k_sym K (MPI_name f)"
  by (cases f) (simp_all add: lhDlsym_fn_def MPI_Fnc_Ptrs_def MPI_name_def less_MPI_Fncs_def)

text \<open>
  \<open>lhDlsym\<close> is total: a code between the two sentinels gives the address of its function,
  and every other 32-bit value gives \<open>NULL\<close> without an access outside the table.
\<close>

theorem lhDlsym_total:
  "lhDlsym_fn K w =
     (if w = MPI_Fncs_code MPI_Fnc_Init then k_sym K ''MPI_Init''
      else if w = MPI_Fncs_code MPI_Fnc_Comm_rank then k_sym K ''MPI_Comm_rank''
      else if w = MPI_Fncs_code MPI_Fnc_Send then k_sym K ''MPI_Send''
      else if w = MPI_Fncs_code MPI_Fnc_Recv then k_sym K ''MPI_Recv'' else 0) \<and>
   (w > MPI_Fncs_code MPI_Fnc_Invalid \<or> unat w < length (MPI_Fnc_Ptrs K))"
proof (cases "w > 5")
  case True
  then have "w \<noteq> 1" "w \<noteq> 2" "w \<noteq> 3" "w \<noteq> 4" by (auto simp: word_less_nat_alt)
  then show ?thesis using True by (simp add: lhDlsym_fn_def)
next
  case False
  then have "unat w \<le> 5" by (simp add: word_less_nat_alt)
  then have "unat w = 0 \<or> unat w = 1 \<or> unat w = 2 \<or> unat w = 3 \<or> unat w = 4 \<or> unat w = 5" by arith
  then have "w = 0 \<or> w = 1 \<or> w = 2 \<or> w = 3 \<or> w = 4 \<or> w = 5" by (simp add: word_unat_eq_iff)
  then show ?thesis by (auto simp: lhDlsym_fn_def MPI_Fnc_Ptrs_def word_less_nat_alt)
qed

lemma MPI_wrapper_ready:
  assumes "lower_half_code K (lhDlsym (uh_lhInfo m)) dlsym code" "initialized m"
    and "MPI_Fnc_NULL < f" "f < MPI_Fnc_Invalid" "k_set_fs K (fs_base m)"
  shows "MPI_wrapper K dlsym code f args m = Inr (MPI_SUCCESS, m)"
proof -
  have "NEXT_FUNC dlsym f m' = k_sym K (MPI_name f)" if "uh_lhInfo m' = uh_lhInfo m" for m' :: "'b process_scheme"
    using assms(1) lhDlsym_table [OF assms(3,4), of K] that by (simp add: NEXT_FUNC_def lower_half_code_def)
  moreover have "code (k_sym K (MPI_name f)) = lower_MPI"
    using assms(1,3,4) by (cases f) (simp_all add: lower_half_code_def MPI_name_def less_MPI_Fncs_def)
  ultimately show ?thesis
    using assms(2,5)
    by (simp add: MPI_wrapper_def call_lower_half_def in_lower_half_def Let_def set_fs_def lower_MPI_def)
qed

lemma call_lower_half_ready:
  assumes "lower_half_code K (lhDlsym (uh_lhInfo m)) dlsym code" "initialized m"
    and "MPI_Fnc_NULL < f" "f < MPI_Fnc_Invalid" "k_set_fs K (fs_base m)"
  shows "call_lower_half K dlsym code f args m = Inr (MPI_SUCCESS, m)"
  using MPI_wrapper_ready [OF assms] assms(2) by (simp add: MPI_wrapper_def)

lemma MPI_wrapper_first:
  assumes "published K info m" "\<not> initialized m" "lower_half_code K (lhDlsym info) dlsym code"
    and "MPI_Fnc_NULL < f" "f < MPI_Fnc_Invalid" "k_set_fs K (fs_base m)"
  shows "MPI_wrapper K dlsym code f args m =
    Inr (MPI_SUCCESS, m\<lparr>uh_lhInfo := info, files := (files m)(LH_FILE_NAME := None), initialized := True\<rparr>)"
proof -
  let ?m = "m\<lparr>uh_lhInfo := info, files := (files m)(LH_FILE_NAME := None), initialized := True\<rparr>"
  have "MPI_wrapper K dlsym code f args m = MPI_wrapper K dlsym code f args ?m"
    using assms(2) by (simp add: MPI_wrapper_def initialize_published [OF assms(1,2)])
  also have "\<dots> = Inr (MPI_SUCCESS, ?m)" by (rule MPI_wrapper_ready) (use assms(3-6) in simp_all)
  finally show ?thesis .
qed

text \<open>
  Every MPI call of an initialised process reaches its function in the lower half, with the
  lower half's \<open>fs\<close> base while it runs, returns that function's result, and gives the process back
  unchanged.
\<close>

theorem MPI_wrapper_calls_lower_half:
  assumes "lower_half_code K (lhDlsym (uh_lhInfo m)) dlsym code" "initialized m"
    and "MPI_Fnc_NULL < f" "f < MPI_Fnc_Invalid" "k_set_fs K (fs_base m)"
  shows "MPI_wrapper K dlsym code f args m = Inr (MPI_SUCCESS, m)"
  by (rule MPI_wrapper_ready [OF assms])

section \<open>Runs\<close>

definition some_info :: LowerHalfInfo where
  "some_info = \<lparr>lhSbrk = 0x11000, lhMmap = 0x12000, lhDlsym = 0x13000, lhFsAddr = 0x2000, lhMmapListFptr = 0x14000\<rparr>"

definition uh_process :: upper_half where
  "uh_process = process.extend
     (ckpt_process\<lparr>files := [LH_FILE_NAME \<mapsto> lhinfo_bytes some_info], initialized := False\<rparr>)
     \<lparr>lowerHalfSbrkWrapper = -1, lowerHalfMmapWrapper = -1\<rparr>"

lemma uh_process_facts:
  "published plain_kernel some_info uh_process" "\<not> initialized uh_process" "lowerHalfSbrkWrapper uh_process = -1"
  by (simp_all add: published_def uh_process_def process.defs ckpt_process_def plain_kernel_def)

theorem sbrk_first_call_witness:
  "\<exists>m'. sbrk plain_kernel (\<lambda>a n m. Inr (a + n, m)) 0x10 uh_process = Inr (0x11010, m') \<and> initialized m'"
  by (subst sbrk_first_call [OF uh_process_facts]) (simp add: some_info_def)

theorem second_rank_exits_witness:
  "\<exists>a'. initialize_wrappers plain_kernel uh_process = Inr a' \<and>
     sbrk plain_kernel (\<lambda>a n m. Inr (a, m)) 0x10 (uh_process\<lparr>files := files a'\<rparr>) = Inl (Exit (-1))"
proof -
  obtain a' where a': "initialize_wrappers plain_kernel uh_process = Inr a'"
    using initialize_published [OF uh_process_facts(1,2)] by blast
  from second_rank_exits [OF uh_process_facts(1,2) this, of "uh_process\<lparr>files := files a'\<rparr>"
      "\<lambda>a n m. Inr (a, m)" "0x10" "\<lambda>a args m. Inr (a, m)"
      "\<lparr>arg_addr = 0, arg_length = 0x1000, arg_prot = 3, arg_flags = 0x22, arg_fd = -1, arg_offset = 0\<rparr>" "\<lambda>a w. 0" "\<lambda>a x m. Inr (0, m)" MPI_Fnc_Init "()"]
  show ?thesis using a' uh_process_facts(2) by simp
qed

theorem stale_pointers_after_restart_witness:
  "\<exists>m'. uh_lhInfo m' = some_info \<and>
     sbrk plain_kernel (\<lambda>a n m. Inr (a, m)) 0x10
       (reset_wrappers (uh_process\<lparr>lowerHalfSbrkWrapper := 0x9000, lowerHalfMmapWrapper := 0x9100\<rparr>)) = Inr (0x9000, m')"
proof -
  let ?m = "uh_process\<lparr>lowerHalfSbrkWrapper := 0x9000, lowerHalfMmapWrapper := 0x9100\<rparr>"
  have "published plain_kernel some_info ?m" using uh_process_facts(1) by (simp add: published_def)
  then show ?thesis
    using stale_pointers_after_restart [of plain_kernel some_info ?m "\<lambda>a n m. Inr (a, m)" "0x10"] by auto
qed

theorem MPI_wrapper_calls_lower_half_witness:
  "MPI_wrapper plain_kernel (\<lambda>p. lhDlsym_fn plain_kernel) (\<lambda>p. lower_MPI) MPI_Fnc_Send [1, 2, 3 :: nat]
     ckpt_process = Inr (MPI_SUCCESS, ckpt_process)"
  by (rule MPI_wrapper_calls_lower_half)
     (simp_all add: lower_half_code_def less_MPI_Fncs_def ckpt_process_def plain_kernel_def word_less_nat_alt)

end
