(* ===== verification/MemRestore.thy ===== *)
theory MemRestore
  imports MemCkpt
begin

text \<open>
  Restarting from checkpoint images (\<open>mem-restore.c\<close>), in the lower half: for every image the
  context is read, then each segment's region is mapped, filled and protected, and finally a
  thread per rank jumps into its saved context.
\<close>

section \<open>Regions\<close>

text \<open>The variable \<open>pArea\<close> has no initialiser. A hit leaves the descriptor open.\<close>

definition anyOverlappingRegion :: "kernel \<Rightarrow> Area \<Rightarrow> 'a machine_scheme \<Rightarrow> bool run" where
  "anyOverlappingRegion K area m =
     (case open_maps K m of
        None \<Rightarrow> Inr True
      | Some mapsfd \<Rightarrow>
          maps_loop (\<lambda>pArea found.
              if doAreasOverlap (a_addr pArea) (a_size pArea) (a_addr area) (a_size area)
              then Inr (True, True) else Inr (found, False))
            mapsfd (area_of_bytes (k_stale K sizeof_Area)) False)"

text \<open>\<open>bytes < area->size\<close> compares \<open>ssize_t\<close> with \<open>size_t\<close>, as unsigned numbers.\<close>

definition restoreMemoryRegion :: "kernel \<Rightarrow> Area \<Rightarrow> ofile \<Rightarrow> 'a lower_half_scheme \<Rightarrow>
    (int \<times> ofile \<times> 'a lower_half_scheme) run" where
  "restoreMemoryRegion K area ckptfd m =
     andThen (anyOverlappingRegion K area m) (\<lambda>overlap.
       if overlap then Inr (-1, ckptfd, m)
       else
         andThen (mmapWrapper K (a_addr area) (a_size area) (a_prot area OR PROT_WRITE)
                    (MAP_FIXED OR MAP_PRIVATE OR MAP_ANONYMOUS) (-1) 0 m) (\<lambda>(addr, m).
           if addr = MAP_FAILED then Inr (-1, ckptfd, m)
           else
             let (bytes, ckptfd, m) = readAll_into (unat (a_size area)) (a_addr area) ckptfd m
             in if word_of_int bytes < a_size area then Inr (-1, ckptfd, m)
                else
                  let (rc, m) = sys_mprotect K (a_addr area) (a_size area) (a_prot area) m
                  in if rc < 0 then Inr (-1, ckptfd, m) else Inr (0, ckptfd, m)))"

section \<open>The loop over the segments\<close>

lemma sys_read_fuel:
  assumes "sys_read n f = (r, f')"
  shows "fuel_of f' \<le> fuel_of f \<and> (r \<noteq> Data [] \<longrightarrow> fuel_of f' < fuel_of f)"
  using assms
  by (auto simp: sys_read.simps fuel_of_def Let_def pending_def split: list.splits answer.splits)

lemma readAll_loop_fuel:
  "readAll_loop n got f = (rc, got', f') \<Longrightarrow>
    fuel_of f' \<le> fuel_of f \<and> (rc \<noteq> int (length got) \<longrightarrow> fuel_of f' < fuel_of f)"
proof (induction n got f arbitrary: rc got' f' rule: readAll_loop.induct)
  case (1 n got f)
  obtain r g where rd: "sys_read (n - length got) f = (r, g)" by fastforce
  note unfolded = "1.prems" [unfolded readAll_loop.simps [of n got f] rd]
  show ?case
  proof (cases "length got < n")
    case False
    then show ?thesis using unfolded by auto
  next
    case True
    show ?thesis
    proof (cases r)
      case (Data d)
      then show ?thesis
        using True unfolded sys_read_fuel [OF rd] "1.IH"(1) [OF True rd [symmetric] Data, of rc got' f']
        by (cases "d = []") auto
    next
      case (ReadErr e)
      then show ?thesis
        using True unfolded sys_read_fuel [OF rd] "1.IH"(2) [OF True rd [symmetric] ReadErr, of rc got' f']
        by (cases "retry e") auto
    qed
  qed
qed

lemma readAll_fuel:
  "readAll n f = (rc, got, f') \<Longrightarrow> fuel_of f' \<le> fuel_of f \<and> (rc \<noteq> 0 \<longrightarrow> fuel_of f' < fuel_of f)"
  using readAll_loop_fuel [of n "[]" f rc got f'] by (simp add: readAll_def)

lemma restoreMemoryRegion_fuel:
  "restoreMemoryRegion K area f m = Inr (rc, f', m') \<Longrightarrow> fuel_of f' \<le> fuel_of f"
  using readAll_fuel
  by (fastforce simp: restoreMemoryRegion_def run_simps readAll_into_def Let_def
      split: if_splits prod.splits)

text \<open>
  A short header leaves the old bytes of \<open>area\<close> behind the new ones, and the \<open>-1\<close> of a failed read
  counts as true.
\<close>

function restoreMemory_loop :: "kernel \<Rightarrow> int \<Rightarrow> Area \<Rightarrow> ofile \<Rightarrow> 'a lower_half_scheme \<Rightarrow>
    (int \<times> ofile \<times> 'a lower_half_scheme) run" where
  "restoreMemory_loop K rc area ckptfd m =
     (if rc \<noteq> 0 then Inr (rc, ckptfd, m)
      else
        (case readAll sizeof_Area ckptfd of
          (n, got, ckptfd') \<Rightarrow>
            if n = 0 then Inr (rc, ckptfd', m)
            else let area' = area_of_bytes (got @ drop (length got) (area_bytes area)) in
              (case restoreMemoryRegion K area' ckptfd' m of
                 Inl h \<Rightarrow> Inl h
               | Inr (rc', ckptfd'', m') \<Rightarrow> restoreMemory_loop K rc' area' ckptfd'' m')))"
  by pat_completeness auto
termination
  by (relation "measure (\<lambda>(_, _, _, f, _). fuel_of f)")
     (auto dest!: readAll_fuel [OF sym] restoreMemoryRegion_fuel)

declare restoreMemory_loop.simps [simp del]

definition restoreMemory :: "kernel \<Rightarrow> ofile \<Rightarrow> 'a lower_half_scheme \<Rightarrow>
    (int \<times> ofile \<times> 'a lower_half_scheme) run" where
  "restoreMemory K ckptfd m =
     restoreMemory_loop K 0 (area_of_bytes (replicate sizeof_Area 0)) ckptfd m"

section \<open>Images and ranks\<close>

text \<open>
  The result with the context read from the image; \<open>None\<close> is what \<open>calloc\<close> zeroed and nobody
  filled. \<open>rc\<close> is an \<open>int\<close> compared with a \<open>size_t\<close>.
\<close>

definition restoreMemoryForImage :: "kernel \<Rightarrow> byte list \<Rightarrow> 'a lower_half_scheme \<Rightarrow>
    (int \<times> CkptRestartState option \<times> 'a lower_half_scheme) run" where
  "restoreMemoryForImage K ckptImg m =
     (case open_ro K ckptImg m of
        None \<Rightarrow> Inr (-1, None, m)
      | Some ckptfd \<Rightarrow>
          let (rc, got, ckptfd) = readAll (sizeof_st K) ckptfd
          in if rc \<noteq> int (sizeof_st K) then Inl AssertFail
             else
               let st = st_of_bytes (k_sizeof_ucontext K) got
               in andThen (restoreMemory K ckptfd m) (\<lambda>(rc, _, m).
                    if rc < 0 then Inr (-1, Some st, m) else Inr (0, Some st, m)))"

fun restoreMemoryForImages :: "kernel \<Rightarrow> byte list list \<Rightarrow> CkptRestartState list \<Rightarrow>
    'a lower_half_scheme \<Rightarrow> (int \<times> CkptRestartState list \<times> 'a lower_half_scheme) run" where
  "restoreMemoryForImages K [] ctxs m = Inr (0, ctxs, m)"
| "restoreMemoryForImages K (img # imgs) ctxs m =
     andThen (restoreMemoryForImage K img m) (\<lambda>(rc, st, m).
       if rc < 0 then Inr (-1, ctxs, m)
       else restoreMemoryForImages K imgs (ctxs @ [the st]) m)"

text \<open>
  What a new thread does: it sets its \<open>fs\<close> base (a failure prints a message) and jumps into the
  saved context, which never returns. The value is the \<open>fs\<close> base and the context it goes on with.
\<close>

definition restoreFs :: "kernel \<Rightarrow> u64 \<Rightarrow> u64 \<Rightarrow> int \<times> u64" where
  "restoreFs K fs threadFs = (if k_set_fs K fs then (0, fs) else (-1, threadFs))"

definition startRank :: "kernel \<Rightarrow> u64 \<Rightarrow> CkptRestartState \<Rightarrow> u64 \<times> byte list" where
  "startRank K threadFs st = (snd (restoreFs K (st_fsAddr st) threadFs), st_ctx st)"

text \<open>
  \<open>getNumRanks\<close> counts the pointers before the terminating \<open>NULL\<close>: the length of the list. The
  threads start with the \<open>fs\<close> bases that \<open>pthread_create\<close> gives them.
\<close>

definition getNumRanks :: "byte list list \<Rightarrow> nat" where
  "getNumRanks ckptImgs = length ckptImgs"

definition restoreCheckpoint :: "kernel \<Rightarrow> (nat \<Rightarrow> u64) \<Rightarrow> byte list list \<Rightarrow> 'a lower_half_scheme \<Rightarrow>
    (int \<times> (u64 \<times> byte list) list \<times> 'a lower_half_scheme) run" where
  "restoreCheckpoint K threadFs ckptImgs m =
     (if \<not> getNumRanks ckptImgs > 0 then Inl AssertFail
      else
        andThen (restoreMemoryForImages K ckptImgs [] m) (\<lambda>(rc, ctxs, m).
          if rc < 0 then Inr (rc, [], m)
          else Inr (rc, map (\<lambda>i. startRank K (threadFs i) (ctxs ! i)) [0..<getNumRanks ckptImgs], m)))"

section \<open>The overlap test\<close>

lemma each_area_found:
  "each_area (\<lambda>a found. if hit a then Inr (True, True) else Inr (found, False)) as False = Inr (list_ex hit as)"
  by (induction as) auto

lemma no_wrap_diff: "a \<le> b \<Longrightarrow> no_wrap a (b - a)"
  using unat_u64 [of b] by (simp add: no_wrap_def unat_sub word_le_nat_alt)

lemma in_entry_range:
  assumes "e_start e \<le> e_end e"
  shows "in_range (e_start e) (e_end e - e_start e) x \<longleftrightarrow> in_entry e x"
proof -
  have "no_wrap (e_start e) (e_end e - e_start e)" using no_wrap_diff [OF assms] .
  then show ?thesis
    using assms by (auto simp: in_range_unat in_entry_def unat_sub word_le_nat_alt word_less_nat_alt)
qed

lemma anyOverlappingRegion_exact:
  assumes "maps_ok K" "layout_ok (prot_at m)" "no_wrap (a_addr area) (a_size area)" "a_size area \<noteq> 0"
  shows "anyOverlappingRegion K area m =
    Inr (\<exists>x. in_range (a_addr area) (a_size area) x \<and> prot_at m x \<noteq> None)"
proof -
  obtain es where es: "lists K m es" "describes es (prot_at m)" by (rule maps_ok_lists [OF assms(1,2)])
  obtain g where g: "open_maps K m = Some g" "feeds g (maps_text es)" using lists_feeds [OF es(1)] by blast
  let ?stale = "area_of_bytes (k_stale K sizeof_Area)"
  let ?hit = "\<lambda>a. doAreasOverlap (a_addr a) (a_size a) (a_addr area) (a_size area)"
  have entries: "list_all entry_ok es" "\<And>e. e \<in> set es \<Longrightarrow> e_start e < e_end e"
    using es(2) by (auto simp: describes_def list_all_iff)
  have stale: "area_ok ?stale" using assms(1) by (intro area_ok_stale) (simp add: maps_ok_def)
  have loop: "anyOverlappingRegion K area m = Inr (list_ex ?hit (areas_of ?stale es))"
    by (simp add: anyOverlappingRegion_def g(1) maps_loop_areas [OF g(2) entries(1) stale] each_area_found)
  have hits: "list_ex ?hit (areas_of b es') \<longleftrightarrow>
      (\<exists>e \<in> set es'. doAreasOverlap (e_start e) (e_end e - e_start e) (a_addr area) (a_size area))" for b es'
    by (induction es' arbitrary: b) (auto simp: Let_def)
  have one: "doAreasOverlap (e_start e) (e_end e - e_start e) (a_addr area) (a_size area) \<longleftrightarrow>
      (\<exists>x. in_entry e x \<and> in_range (a_addr area) (a_size area) x)" if "e \<in> set es" for e
  proof -
    have e: "e_start e < e_end e" using entries(2) [OF that] .
    then have "no_wrap (e_start e) (e_end e - e_start e)" by (simp add: no_wrap_diff)
    then show ?thesis
      using doAreasOverlap_common [OF _ assms(3) _ assms(4)] e in_entry_range [of e] by auto
  qed
  have "list_ex ?hit (areas_of ?stale es) \<longleftrightarrow>
      (\<exists>x. in_range (a_addr area) (a_size area) x \<and> (\<exists>e \<in> set es. in_entry e x))"
    using one by (auto simp: hits)
  then show ?thesis using loop es(2) by (simp add: describes_def)
qed

text \<open>
  C13. On a system whose \<open>/proc/self/maps\<close> is truthful the overlap test is exact: it answers 1 just
  when some address of the region is mapped.
\<close>

theorem anyOverlappingRegion_iff_mapped:
  assumes "maps_ok K" "layout_ok (prot_at m)" "no_wrap (a_addr area) (a_size area)" "a_size area \<noteq> 0"
  shows "anyOverlappingRegion K area m =
    Inr (\<exists>x. in_range (a_addr area) (a_size area) x \<and> prot_at m x \<noteq> None)"
  by (rule anyOverlappingRegion_exact [OF assms])

text \<open>A page that starts outside the mapped part stays outside when the length is rounded up.\<close>

lemma rounded_range_unmapped:
  assumes "layout_ok P" "page_aligned a" "unat n + 4095 < 2 ^ 64" "no_wrap a (ROUND_UP n)"
    and "\<And>x. in_range a n x \<Longrightarrow> P x = None" "in_range a (ROUND_UP n) x"
  shows "P x = None"
proof -
  let ?y = "ROUND_DOWN x"
  have bounds: "unat a \<le> unat x" "unat x < unat a + unat (ROUND_UP n)"
    using assms(6) by (simp_all add: in_range_unat [OF assms(4)])
  have nw: "no_wrap a n"
    using assms(4) ROUND_UP_bounds(1) [OF assms(3)] by (simp add: no_wrap_def)
  obtain i where i: "unat a = 4096 * i"
    using assms(2) by (auto simp: page_aligned_iff mod_eq_0_iff_dvd dvd_def)
  obtain j where j: "unat (ROUND_UP n) = 4096 * j"
    using page_aligned_ROUND_UP [of n] by (auto simp: page_aligned_iff mod_eq_0_iff_dvd dvd_def)
  have "i \<le> unat x div 4096" using bounds(1) i by (simp add: less_eq_div_iff_mult_less_eq mult.commute)
  moreover have "unat x div 4096 < i + j" using bounds(2) i j by (simp add: div_less_iff_less_mult algebra_simps)
  moreover have "4096 * j < unat n + 4096" using ROUND_UP_bounds(2) [OF assms(3)] j by simp
  ultimately have "unat a \<le> unat ?y" "unat ?y < unat a + unat n"
    using i by (simp_all add: unat_ROUND_DOWN)
  then have "P ?y = None" by (intro assms(5)) (simp add: in_range_unat [OF nw])
  then show ?thesis using assms(1) by (simp add: layout_ok_def)
qed

section \<open>One region\<close>

lemma restore_flags: "mmapWrapper K a n p (MAP_FIXED OR MAP_PRIVATE OR MAP_ANONYMOUS) (-1) 0 = map_fixed K a n p"
  by (simp only: map_fixed_def map_fixed_flags fun_eq_iff simp_thms)

lemma restoreMemoryRegion_alt:
  assumes "anyOverlappingRegion K area m = Inr overlap" "map_fixed K (a_addr area) (a_size area) (a_prot area OR PROT_WRITE) m = Inr (addr, m1)"
  shows "restoreMemoryRegion K area f m =
    (if overlap then Inr (-1, f, m) else if addr = MAP_FAILED then Inr (-1, f, m1)
     else let (bytes, f, m) = readAll_into (unat (a_size area)) (a_addr area) f m1
          in if word_of_int bytes < a_size area then Inr (-1, f, m)
             else let (rc, m) = sys_mprotect K (a_addr area) (a_size area) (a_prot area) m
                  in if rc < 0 then Inr (-1, f, m) else Inr (0, f, m))"
  using assms(2) by (simp add: restoreMemoryRegion_def assms(1) restore_flags)

text \<open>Where a machine keeps what was mapped: all bytes and protections outside the unmapped addresses.\<close>

definition keeps_mapped :: "'a machine_scheme \<Rightarrow> 'a machine_scheme \<Rightarrow> bool" where
  "keeps_mapped m m' \<longleftrightarrow> (\<forall>x. prot_at m x \<noteq> None \<longrightarrow> mem m' x = mem m x \<and> prot_at m' x = prot_at m x)"

lemma readAll_into_frame:
  assumes "readAll_into (unat n) a f m = (rc, f', m')"
  shows "prot_at m' = prot_at m \<and> (\<forall>x. \<not> in_range a n x \<longrightarrow> mem m' x = mem m x)"
proof (cases "all_prot PROT_WRITE m a (unat n)")
  case True
  obtain rc0 got f0 where r: "readAll (unat n) f = (rc0, got, f0)" by (metis prod_cases3)
  have "length got \<le> unat n" using readAll_loop_result [of "unat n" "[]" f rc0 got f0] r by (auto simp: readAll_def)
  moreover have "m' = poke a got m" using assms True r by (simp add: readAll_into_def)
  ultimately show ?thesis
    by (auto simp: mem_poke in_range_def word_less_nat_alt)
next
  case False
  then show ?thesis using assms by (simp add: readAll_into_def)
qed

lemma restoreMemoryRegion_keeps:
  assumes "kernel_ok K" "maps_ok K" "layout_ok (prot_at m)" "no_wrap (a_addr area) (a_size area)"
    and "restoreMemoryRegion K area f m = Inr (rc, f', m')"
  shows "keeps_mapped m m'"
proof -
  obtain addr m1 where mp: "map_fixed K (a_addr area) (a_size area) (a_prot area OR PROT_WRITE) m = Inr (addr, m1)"
    using wrapper.map_returns by blast
  show ?thesis
  proof (cases "addr = MAP_FAILED")
    case True
    obtain overlap where ov: "anyOverlappingRegion K area m = Inr overlap"
      using assms(5) by (cases "anyOverlappingRegion K area m") (auto simp: restoreMemoryRegion_def)
    have "mem m1 = mem m" "prot_at m1 = prot_at m" using wrapper.map_refused [OF assms(1) mp [unfolded True]] by auto
    then show ?thesis
      using assms(5) True by (auto simp: restoreMemoryRegion_alt [OF ov mp] keeps_mapped_def split: if_splits)
  next
    case False
    let ?r = "in_range (a_addr area) (ROUND_UP (a_size area))"
    note g = wrapper.map_granted [OF assms(1) mp False]
    have ov: "anyOverlappingRegion K area m =
        Inr (\<exists>x. in_range (a_addr area) (a_size area) x \<and> prot_at m x \<noteq> None)"
      using anyOverlappingRegion_exact [OF assms(2-4)] g by blast
    show ?thesis
    proof (cases "\<exists>x. in_range (a_addr area) (a_size area) x \<and> prot_at m x \<noteq> None")
      case True
      then show ?thesis
        using assms(5) unfolding restoreMemoryRegion_alt [OF ov mp] if_P [OF True] by (simp add: keeps_mapped_def)
    next
      case free: False
      have unmapped: "prot_at m x = None" if "?r x" for x
        using rounded_range_unmapped [OF assms(3), of "a_addr area" "a_size area" x] g free that by blast
      obtain bytes f2 m2 where rd: "readAll_into (unat (a_size area)) (a_addr area) f m1 = (bytes, f2, m2)"
        by (metis prod_cases3)
      obtain rc3 m3 where mpr: "sys_mprotect K (a_addr area) (a_size area) (a_prot area) m2 = (rc3, m3)" by fastforce
      have "m' = m2 \<or> m' = m3"
        using assms(5) unfolding restoreMemoryRegion_alt [OF ov mp] if_not_P [OF free] if_not_P [OF False] rd mpr
        by (auto simp: mpr split: if_splits)
      moreover have le: "in_range (a_addr area) (a_size area) x \<Longrightarrow> ?r x" for x
        using g ROUND_UP_bounds(1) [of "a_size area"] by (auto simp: in_range_def word_less_nat_alt)
      have "mem m2 x = mem m x \<and> prot_at m2 x = prot_at m x" if "prot_at m x \<noteq> None" for x
      proof -
        have "\<not> ?r x" using unmapped [of x] that by auto
        moreover have "\<not> in_range (a_addr area) (a_size area) x" using calculation le by blast
        ultimately show ?thesis using readAll_into_frame [OF rd] g by simp
      qed
      moreover have "mem m3 x = mem m2 x \<and> prot_at m3 x = prot_at m2 x" if "prot_at m x \<noteq> None" for x
        using mpr unmapped [of x] that by (auto simp: sys_mprotect_def split: if_splits)
      ultimately show ?thesis by (auto simp: keeps_mapped_def)
    qed
  qed
qed

text \<open>
  C7. Restoring a region never touches what is already mapped: whatever the image holds and
  whichever step fails, every address that was mapped before keeps its byte and its protection.
\<close>

theorem restoreMemoryRegion_never_overwrites:
  assumes "kernel_ok K" "maps_ok K" "layout_ok (prot_at m)" "no_wrap (a_addr area) (a_size area)"
    and "restoreMemoryRegion K area f m = Inr (rc, f', m')" "prot_at m x \<noteq> None"
  shows "mem m' x = mem m x \<and> prot_at m' x = prot_at m x"
  using restoreMemoryRegion_keeps [OF assms(1-5)] assms(6) by (simp add: keeps_mapped_def)

section \<open>A restart that succeeds\<close>

text \<open>A kernel that grants what its manual pages allow it to grant.\<close>

definition grants_fixed :: "kernel \<Rightarrow> bool" where
  "grants_fixed K \<longleftrightarrow> (\<forall>P a n p. placement_ok P a n (MAP_PRIVATE OR MAP_FIXED OR MAP_ANONYMOUS) a \<longrightarrow>
     k_place K P a n p (MAP_PRIVATE OR MAP_FIXED OR MAP_ANONYMOUS) (-1) 0 = Some a)"

definition willing :: "kernel \<Rightarrow> bool" where
  "willing K \<longleftrightarrow> kernel_ok K \<and> maps_ok K \<and> grants_fixed K \<and> grants_mprotect K"

text \<open>A non-empty range of whole pages in the user half of the address space.\<close>

definition user_region :: "va \<Rightarrow> u64 \<Rightarrow> bool" where
  "user_region a n \<longleftrightarrow> page_aligned a \<and> a \<noteq> 0 \<and> page_aligned n \<and> n \<noteq> 0 \<and> unat a + unat n \<le> 2 ^ 47"

lemma user_region_facts:
  assumes "user_region a n"
  shows "ROUND_UP n = n" "no_wrap a n" "placement_ok P a n (MAP_PRIVATE OR MAP_FIXED OR MAP_ANONYMOUS) a"
    "a \<noteq> MAP_FAILED"
  using assms MAP_FAILED_unaligned
  by (auto simp: user_region_def ROUND_UP_aligned no_wrap_def placement_ok_def map_fixed_flags)

lemma map_fixed_granted:
  assumes "willing K" "user_region a n"
  obtains m1 where "map_fixed K a n p m = Inr (a, m1)"
proof -
  let ?fl = "MAP_PRIVATE OR MAP_FIXED OR MAP_ANONYMOUS"
  have "k_place K P a n p ?fl (-1) 0 = Some a" for P
    using assms user_region_facts(3) by (simp add: willing_def grants_fixed_def)
  moreover have "n \<noteq> 0" "a \<noteq> MAP_FAILED" using assms(2) user_region_facts(4) by (auto simp: user_region_def)
  moreover have "has_flag ?fl MAP_ANONYMOUS" by (simp add: map_fixed_flags)
  ultimately have "\<exists>m1. mmap_lh K a n p ?fl (-1) 0 m0 = Inr (a, m1)" for m0 :: "'a lower_half_scheme"
    by (simp add: mmap_lh_def sys_mmap_def Let_def)
  then obtain m1 where "mmap_lh K a n p ?fl (-1) 0
      (if lhFsAddr (lhInfo m) > 0 then snd (set_fs K (lhFsAddr (lhInfo m)) m) else m) = Inr (a, m1)" by blast
  then show thesis
    using that by (simp add: map_fixed_def mmapWrapper_def in_lower_half_def Let_def)
qed

text \<open>What one segment puts into the process, and the table entry it leaves.\<close>

definition filled :: "Area \<Rightarrow> byte list \<Rightarrow> 'a lower_half_scheme \<Rightarrow> 'a lower_half_scheme \<Rightarrow> bool" where
  "filled area data m m' \<longleftrightarrow>
     mem m' = (\<lambda>x. if in_range (a_addr area) (a_size area) x then data ! unat (x - a_addr area) else mem m x) \<and>
     prot_at m' = (\<lambda>x. if in_range (a_addr area) (a_size area) x then Some (a_prot area) else prot_at m x) \<and>
     same_globals (record_region (a_addr area) (a_size area) m) m'"

lemma restoreMemoryRegion_fills:
  assumes "willing K" "layout_ok (prot_at m)" "user_region (a_addr area) (a_size area)"
    and "\<And>x. in_range (a_addr area) (a_size area) x \<Longrightarrow> prot_at m x = None"
    and "calm f" "pending f = data @ rest" "length data = unat (a_size area)"
  shows "\<exists>f' m'. restoreMemoryRegion K area f m = Inr (0, f', m') \<and> pending f' = rest \<and> calm f' \<and>
    filled area data m m'"
proof -
  let ?a = "a_addr area" and ?n = "a_size area"
  note K = assms(1) [unfolded willing_def]
  note region = user_region_facts(1,2) [OF assms(3)]
  have n: "?n \<noteq> 0" "page_aligned ?a" using assms(3) by (simp_all add: user_region_def)
  have ov: "anyOverlappingRegion K area m = Inr False"
    using anyOverlappingRegion_exact [of K m area] K assms(2,4) region(2) n(1) by auto
  obtain m1 where mp: "map_fixed K ?a ?n (a_prot area OR PROT_WRITE) m = Inr (?a, m1)"
    by (rule map_fixed_granted [OF assms(1,3)])
  have g: "same_globals (record_region ?a ?n m) m1" "mem m1 = (\<lambda>x. if in_range ?a ?n x then 0 else mem m x)"
      "prot_at m1 = (\<lambda>x. if in_range ?a ?n x then Some (a_prot area OR PROT_WRITE) else prot_at m x)" "?a \<noteq> MAP_FAILED"
    using map_fixed_facts [OF _ mp] K region(1) user_region_facts(4) [OF assms(3)] by auto
  have writable: "all_prot PROT_WRITE m1 ?a (unat ?n)"
    by (rule all_prot_range [where n = ?n]) (simp_all add: g(3) has_flag_def flag_defs)
  obtain f' where rd: "readAll (unat ?n) f = (int (unat ?n), data, f')" "pending f' = rest" "calm f'"
    using readAll_calm [OF assms(5), of "unat ?n"] assms(6,7) by auto
  then have into: "readAll_into (unat ?n) ?a f m1 = (int (unat ?n), f', poke ?a data m1)"
    by (simp add: readAll_into_def writable)
  let ?m' = "(poke ?a data m1)\<lparr>prot_at := (\<lambda>x. if in_range ?a ?n x then Some (a_prot area) else prot_at m1 x)\<rparr>"
  have "k_mprotect K (prot_at m1) ?a ?n (a_prot area)"
    using K n(2) g(3) region(1) by (simp add: grants_mprotect_def)
  then have mpr: "sys_mprotect K ?a ?n (a_prot area) (poke ?a data m1) = (0, ?m')"
    by (simp add: sys_mprotect_def region(1) cong: if_cong)
  have "restoreMemoryRegion K area f m = Inr (0, f', ?m')"
    unfolding restoreMemoryRegion_alt [OF ov mp] using g(4) by (simp add: into mpr)
  moreover have "filled area data m ?m'"
  proof -
    have "same_globals (record_region ?a ?n m) ?m'"
      using g(1) by (simp add: same_globals_def poke_def)
    moreover have "mem ?m' = (\<lambda>x. if in_range ?a ?n x then data ! unat (x - ?a) else mem m x)"
      by (simp add: fun_eq_iff mem_poke unat_poke_range [OF assms(7)] g(2))
    moreover have "prot_at ?m' = (\<lambda>x. if in_range ?a ?n x then Some (a_prot area) else prot_at m x)"
      by (simp add: fun_eq_iff g(3))
    ultimately show ?thesis by (simp add: filled_def)
  qed
  ultimately show ?thesis using rd(2,3) by blast
qed

section \<open>A whole image\<close>

text \<open>The bytes of a list of segments, and the machine that restoring them leads to.\<close>

definition segment_bytes :: "(Area \<times> byte list) list \<Rightarrow> byte list" where
  "segment_bytes segs = concat (map (\<lambda>(area, data). area_bytes area @ data) segs)"

definition seg_ok :: "Area \<times> byte list \<Rightarrow> bool" where
  "seg_ok seg \<longleftrightarrow> area_ok (fst seg) \<and> user_region (a_addr (fst seg)) (a_size (fst seg)) \<and>
     length (snd seg) = unat (a_size (fst seg))"

definition in_area :: "Area \<Rightarrow> va \<Rightarrow> bool" where
  "in_area area x \<longleftrightarrow> in_range (a_addr area) (a_size area) x"

definition disjoint_areas :: "Area list \<Rightarrow> bool" where
  "disjoint_areas as \<longleftrightarrow> sorted_wrt (\<lambda>a b. \<forall>x. \<not> (in_area a x \<and> in_area b x)) as"

lemma filled_layout_ok:
  "filled area data m m' \<Longrightarrow> layout_ok (prot_at m) \<Longrightarrow> user_region (a_addr area) (a_size area) \<Longrightarrow> layout_ok (prot_at m')"
  using layout_ok_map_pages [of m "a_addr area" "a_size area" "a_prot area"] by (simp add: filled_def user_region_def)

definition restored :: "(Area \<times> byte list) list \<Rightarrow> 'a lower_half_scheme \<Rightarrow> 'a lower_half_scheme \<Rightarrow> bool" where
  "restored segs m m' \<longleftrightarrow>
     (\<forall>(area, data) \<in> set segs. \<forall>x. in_area area x \<longrightarrow>
        mem m' x = data ! unat (x - a_addr area) \<and> prot_at m' x = Some (a_prot area)) \<and>
     (\<forall>x. (\<forall>seg \<in> set segs. \<not> in_area (fst seg) x) \<longrightarrow> mem m' x = mem m x \<and> prot_at m' x = prot_at m x)"

text \<open>The restored regions are in the table of mappings, as a later checkpoint needs them.\<close>

definition tracks :: "(Area \<times> byte list) list \<Rightarrow> 'a lower_half_scheme \<Rightarrow> 'a lower_half_scheme \<Rightarrow> bool" where
  "tracks segs m m' \<longleftrightarrow>
     (table_ok m \<and> length (tracked m) + length segs < MAX_TRACK \<longrightarrow>
      table_ok m' \<and> tracked m' = tracked m @
        map (\<lambda>(area, data). \<lparr>mi_addr = a_addr area, mi_len = a_size area\<rparr>) segs)"

lemma filled_tracks:
  assumes "filled area data m m'" "table_ok m" "Suc (length (tracked m)) < MAX_TRACK"
  shows "table_ok m' \<and> tracked m' = tracked m @ [\<lparr>mi_addr = a_addr area, mi_len = a_size area\<rparr>]"
proof -
  have "length (tracked m) = numRegions m"
    using assms(2) by (simp add: tracked_def getMmappedList_def table_ok_def)
  then show ?thesis
    using tracked_record [OF assms(2), of "a_addr area" "a_size area"] assms(1,3)
      tracked_same [of "record_region (a_addr area) (a_size area) m" m']
    by (simp add: filled_def)
qed

lemma restoreMemory_loop_restores:
  assumes "willing K" "layout_ok (prot_at m)" "calm f" "pending f = segment_bytes segs"
    and "list_all seg_ok segs" "disjoint_areas (map fst segs)" "area_ok area"
    and "\<And>seg x. seg \<in> set segs \<Longrightarrow> in_area (fst seg) x \<Longrightarrow> prot_at m x = None"
  shows "\<exists>f' m'. restoreMemory_loop K 0 area f m = Inr (0, f', m') \<and> restored segs m m' \<and> tracks segs m m'"
  using assms(2-8)
proof (induction segs arbitrary: area f m)
  case Nil
  then obtain f' where "readAll sizeof_Area f = (0, [], f')"
    using readAll_calm [of f sizeof_Area] by (auto simp: segment_bytes_def)
  then show ?case
    by (simp add: restoreMemory_loop.simps [of K 0] restored_def tracks_def)
next
  case (Cons seg segs)
  obtain a data where seg: "seg = (a, data)" by fastforce
  have ok: "area_ok a" "user_region (a_addr a) (a_size a)" "length data = unat (a_size a)"
    using Cons.prems(4) by (simp_all add: seg seg_ok_def)
  have pend: "pending f = area_bytes a @ data @ segment_bytes segs"
    using Cons.prems(3) by (simp add: segment_bytes_def seg)
  obtain f1 where f1: "readAll sizeof_Area f = (int sizeof_Area, area_bytes a, f1)"
    "area_of_bytes (area_bytes a) = a" "pending f1 = data @ segment_bytes segs" "calm f1"
    by (rule area_codec.readAll_enc [OF ok(1) Cons.prems(2) pend])
  have area': "area_of_bytes (area_bytes a @ drop (length (area_bytes a)) (area_bytes area)) = a"
    using area_codec.length_enc [OF ok(1)] area_codec.length_enc [OF Cons.prems(6)] f1(2) by simp
  have free: "prot_at m x = None" if "in_range (a_addr a) (a_size a) x" for x
    using Cons.prems(7) [of seg x] that by (simp add: seg in_area_def)
  obtain f2 m2 where f2: "restoreMemoryRegion K a f1 m = Inr (0, f2, m2)" "pending f2 = segment_bytes segs"
    "calm f2" "filled a data m m2"
    using restoreMemoryRegion_fills [OF assms(1) Cons.prems(1) ok(2) free f1(4,3) ok(3)] by blast
  have apart: "\<not> (in_area a x \<and> in_area (fst s) x)" if "s \<in> set segs" for s x
    using Cons.prems(5) that by (auto simp: disjoint_areas_def seg)
  have m2: "mem m2 x = (if in_area a x then data ! unat (x - a_addr a) else mem m x)"
    "prot_at m2 x = (if in_area a x then Some (a_prot a) else prot_at m x)" for x
    using f2(4) by (simp_all add: filled_def in_area_def)
  obtain f3 m3 where f3: "restoreMemory_loop K 0 a f2 m2 = Inr (0, f3, m3)" "restored segs m2 m3" "tracks segs m2 m3"
  proof -
    have "\<And>s x. s \<in> set segs \<Longrightarrow> in_area (fst s) x \<Longrightarrow> prot_at m2 x = None"
      using apart Cons.prems(7) m2(2) by fastforce
    then have "\<exists>f' m'. restoreMemory_loop K 0 a f2 m2 = Inr (0, f', m') \<and> restored segs m2 m' \<and> tracks segs m2 m'"
      using Cons.IH [OF filled_layout_ok [OF f2(4) Cons.prems(1) ok(2)] f2(3,2)] Cons.prems(4,5) ok(1)
      by (simp add: disjoint_areas_def)
    then show thesis using that by blast
  qed
  have "restoreMemory_loop K 0 area f m = Inr (0, f3, m3)"
    by (simp add: restoreMemory_loop.simps [of K 0 area] f1(1) area' f2(1) f3(1) sizeof_Area_def [symmetric])
       (simp add: sizeof_Area_def)
  moreover have "restored (seg # segs) m m3"
  proof -
    have first: "mem m3 x = data ! unat (x - a_addr a) \<and> prot_at m3 x = Some (a_prot a)" if "in_area a x" for x
    proof -
      have "\<forall>s \<in> set segs. \<not> in_area (fst s) x" using apart that by blast
      then have "mem m3 x = mem m2 x \<and> prot_at m3 x = prot_at m2 x" using f3(2) by (simp add: restored_def)
      then show ?thesis using m2 that by simp
    qed
    have others: "mem m3 x = mem m x \<and> prot_at m3 x = prot_at m x"
      if "\<not> in_area a x" "\<forall>s \<in> set segs. \<not> in_area (fst s) x" for x
      using f3(2) m2 that by (simp add: restored_def)
    show ?thesis
      using f3(2) first others by (simp add: restored_def seg)
  qed
  moreover have "tracks (seg # segs) m m3"
    using f3(3) filled_tracks [OF f2(4)] by (auto simp: tracks_def seg)
  ultimately show ?case by blast
qed

lemma restoreMemory_segments:
  assumes "willing K" "layout_ok (prot_at m)" "calm f" "pending f = segment_bytes segs"
    and "list_all seg_ok segs" "disjoint_areas (map fst segs)"
    and "\<forall>seg \<in> set segs. \<forall>x. in_area (fst seg) x \<longrightarrow> prot_at m x = None"
  shows "\<exists>f' m'. restoreMemory K f m = Inr (0, f', m') \<and> restored segs m m' \<and> tracks segs m m'"
proof -
  have "area_ok (area_of_bytes (replicate sizeof_Area 0))"
    by (simp add: area_ok_def area_of_bytes_def FILENAMESIZE_def sizeof_Area_def)
  then show ?thesis
    using restoreMemory_loop_restores [OF assms(1-6)] assms(7) by (simp add: restoreMemory_def)
qed

text \<open>
  C8. Restoring an image body into a process where none of its regions is mapped: every region
  comes back with its bytes and its protection, nothing else of the process changes, and the
  regions are entered into the table of mappings, so that the process can be checkpointed again.
\<close>

theorem restoreMemory_restores:
  assumes "willing K" "layout_ok (prot_at m)" "calm f" "pending f = segment_bytes segs"
    and "list_all seg_ok segs" "disjoint_areas (map fst segs)"
    and "\<forall>seg \<in> set segs. \<forall>x. in_area (fst seg) x \<longrightarrow> prot_at m x = None"
  shows "\<exists>f' m'. restoreMemory K f m = Inr (0, f', m') \<and> restored segs m m' \<and> tracks segs m m'"
  by (rule restoreMemory_segments [OF assms])

text \<open>
  A failed read of a region goes unnoticed: \<open>readAll\<close> answers \<open>-1\<close>, which the comparison with
  the unsigned size takes for a huge number, and the region is reported restored while its
  pages are zero.
\<close>

theorem restore_read_error_ignored:
  assumes "willing K" "layout_ok (prot_at m)" "user_region (a_addr area) (a_size area)"
    and "\<forall>x. in_range (a_addr area) (a_size area) x \<longrightarrow> prot_at m x = None"
    and "answers f = Fail EIO # as"
  shows "\<exists>f' m'. restoreMemoryRegion K area f m = Inr (0, f', m') \<and>
    (\<forall>x. in_range (a_addr area) (a_size area) x \<longrightarrow> mem m' x = 0 \<and> prot_at m' x = Some (a_prot area))"
proof -
  let ?a = "a_addr area" and ?n = "a_size area"
  note K = assms(1) [unfolded willing_def]
  note region = user_region_facts(1,2) [OF assms(3)]
  have n: "?n \<noteq> 0" "page_aligned ?a" using assms(3) by (simp_all add: user_region_def)
  have ov: "anyOverlappingRegion K area m = Inr False"
    using anyOverlappingRegion_exact [of K m area] K assms(2,4) region(2) n(1) by auto
  obtain m1 where mp: "map_fixed K ?a ?n (a_prot area OR PROT_WRITE) m = Inr (?a, m1)"
    by (rule map_fixed_granted [OF assms(1,3)])
  have g: "mem m1 = (\<lambda>x. if in_range ?a ?n x then 0 else mem m x)"
      "prot_at m1 = (\<lambda>x. if in_range ?a ?n x then Some (a_prot area OR PROT_WRITE) else prot_at m x)" "?a \<noteq> MAP_FAILED"
    using map_fixed_facts [OF _ mp] K region(1) user_region_facts(4) [OF assms(3)] by auto
  have writable: "all_prot PROT_WRITE m1 ?a (unat ?n)"
    by (rule all_prot_range [where n = ?n]) (simp_all add: g(2) has_flag_def flag_defs)
  have "readAll (unat ?n) f = (-1, [], f\<lparr>answers := as\<rparr>)"
    using n(1) by (simp add: readAll_def readAll_loop.simps [of "unat ?n"] sys_read.simps assms(5) retry_def unat_gt_0)
  then have into: "readAll_into (unat ?n) ?a f m1 = (-1, f\<lparr>answers := as\<rparr>, m1)"
    by (simp add: readAll_into_def writable poke_def)
  let ?m' = "m1\<lparr>prot_at := (\<lambda>x. if in_range ?a ?n x then Some (a_prot area) else prot_at m1 x)\<rparr>"
  have "k_mprotect K (prot_at m1) ?a ?n (a_prot area)"
    using K n(2) g(2) region(1) by (simp add: grants_mprotect_def)
  then have mpr: "sys_mprotect K ?a ?n (a_prot area) m1 = (0, ?m')"
    by (simp add: sys_mprotect_def region(1))
  have "restoreMemoryRegion K area f m = Inr (0, f\<lparr>answers := as\<rparr>, ?m')"
    unfolding restoreMemoryRegion_alt [OF ov mp] using g(3)
    by (simp add: into mpr word_order.extremum_strict)
  then show ?thesis by (simp add: g(1))
qed

section \<open>What a restart leaves alone\<close>

text \<open>
  Restoring changes memory, protections and the table of mappings, and sets the \<open>fs\<close> base and sets it back: without
  these the process is the same.
\<close>

definition less_memory :: "'a lower_half_scheme \<Rightarrow> 'a lower_half_scheme" where
  "less_memory m = m\<lparr>mem := (\<lambda>x. 0), prot_at := (\<lambda>x. None), fs_base := 0, numRegions := 0, mmaps := []\<rparr>"

lemma less_memory_simps [simp]:
  "less_memory (m\<lparr>mem := f\<rparr>) = less_memory m" "less_memory (m\<lparr>prot_at := p\<rparr>) = less_memory m"
  "less_memory (m\<lparr>fs_base := a\<rparr>) = less_memory m" "less_memory (m\<lparr>numRegions := n\<rparr>) = less_memory m"
  "less_memory (m\<lparr>mmaps := t\<rparr>) = less_memory m"
  by (simp_all add: less_memory_def)

lemma less_memory_ops [simp]:
  "less_memory (poke a bs m) = less_memory m" "less_memory (snd (set_fs K fs m)) = less_memory m"
  "less_memory (map_pages b n q g m) = less_memory m" "less_memory (snd (sys_mprotect K a' k q' m)) = less_memory m"
  "less_memory (snd (sys_mmap K ad len pr fl fd off m)) = less_memory m"
  by (simp_all add: poke_def set_fs_def map_pages_def sys_mprotect_def sys_mmap_def split: option.splits)

lemma mmapWrapper_anonymous_less:
  assumes "mmapWrapper K addr len prot flags (-1) off m = Inr (r, m')"
  shows "less_memory m' = less_memory m"
proof -
  have sm: "less_memory m2 = less_memory m1" if "sys_mmap K ad n q fl fd o' m1 = (x, m2)" for ad n q fl fd o' x and m1 m2 :: "'a lower_half_scheme"
    using that less_memory_ops(5) [of K ad n q fl fd o' m1] by simp
  have lh: "less_memory m1 = less_memory m0" if "mmap_lh K addr len prot flags (-1) off m0 = Inr (r', m1)" for r' and m0 m1 :: "'a lower_half_scheme"
    using that by (auto simp: mmap_lh_def Let_def split: if_splits prod.splits dest: sm)
  obtain m1 where m1: "mmap_lh K addr len prot flags (-1) off
      (if lhFsAddr (lhInfo m) > 0 then snd (set_fs K (lhFsAddr (lhInfo m)) m) else m) = Inr (r, m1)"
    "m' = snd (set_fs K (fs_base m) m1)"
    using assms by (auto simp: mmapWrapper_def in_lower_half_def Let_def run_simps)
  show ?thesis using lh [OF m1(1)] by (simp add: m1(2))
qed

lemma readAll_into_less: "readAll_into n a f m = (rc, f', m') \<Longrightarrow> less_memory m' = less_memory m"
  by (auto simp: readAll_into_def Let_def split: if_splits prod.splits)

lemma restoreMemoryRegion_less:
  assumes "restoreMemoryRegion K area f m = Inr (rc, f', m')"
  shows "less_memory m' = less_memory m"
proof -
  have mp: "less_memory m2 = less_memory m1" if "sys_mprotect K a n q m1 = (rc', m2)" for a n q rc' and m1 m2 :: "'a lower_half_scheme"
    using that less_memory_ops(4) [of K a n q m1] by simp
  obtain overlap where o: "anyOverlappingRegion K area m = Inr overlap"
    using assms by (auto simp: restoreMemoryRegion_def run_simps)
  show ?thesis
  proof (cases overlap)
    case True
    then show ?thesis using assms by (simp add: restoreMemoryRegion_def o)
  next
    case False
    obtain addr m1 where w: "mmapWrapper K (a_addr area) (a_size area) (a_prot area OR PROT_WRITE)
        (MAP_FIXED OR MAP_PRIVATE OR MAP_ANONYMOUS) (-1) 0 m = Inr (addr, m1)"
      using assms False by (auto simp: restoreMemoryRegion_def o run_simps)
    obtain bytes f2 m2 where r: "readAll_into (unat (a_size area)) (a_addr area) f m1 = (bytes, f2, m2)" by (metis prod_cases3)
    obtain rc' m3 where p: "sys_mprotect K (a_addr area) (a_size area) (a_prot area) m2 = (rc', m3)" by fastforce
    have "m' = m1 \<or> m' = m2 \<or> m' = m3"
      using assms False by (simp add: restoreMemoryRegion_def o w r p split: if_splits)
    then show ?thesis using mmapWrapper_anonymous_less [OF w] readAll_into_less [OF r] mp [OF p] by auto
  qed
qed

lemma restoreMemory_loop_less:
  "restoreMemory_loop K rc area f m = Inr (rc', f', m') \<Longrightarrow> less_memory m' = less_memory m"
proof (induction K rc area f m arbitrary: rc' f' m' rule: restoreMemory_loop.induct)
  case (1 K rc area f m)
  note unf = "1.prems" [unfolded restoreMemory_loop.simps [of K rc area f m]]
  show ?case
  proof (cases "rc = 0")
    case False
    then show ?thesis using unf by simp
  next
    case True
    obtain n got f1 where rd: "readAll sizeof_Area f = (n, got, f1)" by (cases "readAll sizeof_Area f") auto
    show ?thesis
    proof (cases "n = 0")
      case True
      then show ?thesis using unf \<open>rc = 0\<close> rd by simp
    next
      case False
      let ?a = "area_of_bytes (got @ drop (length got) (area_bytes area))"
      obtain rc2 f2 m2 where r: "restoreMemoryRegion K ?a f1 m = Inr (rc2, f2, m2)"
        "restoreMemory_loop K rc2 ?a f2 m2 = Inr (rc', f', m')"
        using unf \<open>rc = 0\<close> rd False by (auto simp: Let_def split: sum.splits)
      have "less_memory m' = less_memory m2"
        by (rule "1.IH" [of n "(got, f1)" got f1 ?a "(rc2, f2, m2)" rc2 "(f2, m2)" f2 m2]) (use r rd True False in simp_all)
      then show ?thesis using restoreMemoryRegion_less [OF r(1)] by simp
    qed
  qed
qed

lemma restoreMemoryForImage_less:
  "restoreMemoryForImage K img m = Inr (rc, st, m') \<Longrightarrow> less_memory m' = less_memory m"
  by (auto simp: restoreMemoryForImage_def restoreMemory_def run_simps Let_def split: option.splits prod.splits if_splits
      dest!: restoreMemory_loop_less)

section \<open>All images or none\<close>

text \<open>Segments that can be restored: no two of them overlap, and none overlaps anything mapped.\<close>

definition fits :: "(Area \<times> byte list) list \<Rightarrow> layout \<Rightarrow> bool" where
  "fits segs P \<longleftrightarrow> disjoint_areas (map fst segs) \<and>
     (\<forall>seg \<in> set segs. \<forall>x. in_area (fst seg) x \<longrightarrow> P x = None)"

lemma fits_append:
  assumes "\<And>x. (\<exists>seg \<in> set segs. in_area (fst seg) x) \<Longrightarrow> Q x \<noteq> None"
    and "\<And>x. (\<forall>seg \<in> set segs. \<not> in_area (fst seg) x) \<Longrightarrow> Q x = P x"
  shows "fits (segs @ segs') P \<longleftrightarrow> fits segs P \<and> fits segs' Q"
proof -
  have apart: "(\<forall>b \<in> set segs'. \<forall>x. in_area (fst b) x \<longrightarrow> Q x = None) \<longleftrightarrow>
      (\<forall>a \<in> set segs. \<forall>b \<in> set segs'. \<forall>x. \<not> (in_area (fst a) x \<and> in_area (fst b) x)) \<and>
      (\<forall>b \<in> set segs'. \<forall>x. in_area (fst b) x \<longrightarrow> P x = None)" (is "?l \<longleftrightarrow> ?r1 \<and> ?r2")
  proof
    assume l: ?l
    have r1: ?r1 using l assms(1) by blast
    have "P x = None" if "b \<in> set segs'" "in_area (fst b) x" for b x
      using l r1 that assms(2) [of x] by metis
    then show "?r1 \<and> ?r2" using r1 by blast
  next
    assume r: "?r1 \<and> ?r2"
    then show ?l using assms(2) by metis
  qed
  show ?thesis unfolding fits_def disjoint_areas_def using apart by (auto simp: sorted_wrt_append)
qed

text \<open>The loop over the segments of an image restores them all or answers \<open>-1\<close> at the first that does not fit.\<close>

lemma restoreMemoryRegion_refused:
  assumes "willing K" "layout_ok (prot_at m)" "user_region (a_addr area) (a_size area)"
    and "in_area area x" "prot_at m x \<noteq> None"
  shows "restoreMemoryRegion K area f m = Inr (-1, f, m)"
proof -
  have "no_wrap (a_addr area) (a_size area)" "a_size area \<noteq> 0"
    using user_region_facts(2) [OF assms(3)] assms(3) by (simp_all add: user_region_def)
  then have "anyOverlappingRegion K area m = Inr True"
    using anyOverlappingRegion_exact [of K m area] assms by (auto simp: willing_def in_area_def)
  then show ?thesis by (simp add: restoreMemoryRegion_def)
qed

lemma restoreMemory_loop_decides:
  assumes "willing K" "layout_ok (prot_at m)" "calm f" "pending f = segment_bytes segs"
    and "list_all seg_ok segs" "area_ok area" "\<not> fits segs (prot_at m)"
  shows "\<exists>f' m'. restoreMemory_loop K 0 area f m = Inr (-1, f', m')"
  using assms(2-7)
proof (induction segs arbitrary: area f m)
  case Nil
  then show ?case by (simp add: fits_def disjoint_areas_def)
next
  case (Cons seg segs)
  obtain a data where seg: "seg = (a, data)" by fastforce
  have ok: "area_ok a" "user_region (a_addr a) (a_size a)" "length data = unat (a_size a)"
    using Cons.prems(4) by (simp_all add: seg seg_ok_def)
  have pend: "pending f = area_bytes a @ data @ segment_bytes segs"
    using Cons.prems(3) by (simp add: segment_bytes_def seg)
  obtain f1 where f1: "readAll sizeof_Area f = (int sizeof_Area, area_bytes a, f1)"
    "area_of_bytes (area_bytes a) = a" "pending f1 = data @ segment_bytes segs" "calm f1"
    by (rule area_codec.readAll_enc [OF ok(1) Cons.prems(2) pend])
  have area': "area_of_bytes (area_bytes a @ drop (length (area_bytes a)) (area_bytes area)) = a"
    using area_codec.length_enc [OF ok(1)] area_codec.length_enc [OF Cons.prems(5)] f1(2) by simp
  have step: "restoreMemory_loop K 0 area f m = (case restoreMemoryRegion K a f1 m of
      Inl h \<Rightarrow> Inl h | Inr (rc', f2, m2) \<Rightarrow> restoreMemory_loop K rc' a f2 m2)"
    by (simp add: restoreMemory_loop.simps [of K 0 area] f1(1) area') (simp add: sizeof_Area_def)
  show ?case
  proof (cases "\<exists>x. in_area a x \<and> prot_at m x \<noteq> None")
    case True
    then obtain x where "in_area a x" "prot_at m x \<noteq> None" by blast
    then have "restoreMemoryRegion K a f1 m = Inr (-1, f1, m)"
      by (rule restoreMemoryRegion_refused [OF assms(1) Cons.prems(1) ok(2)])
    then show ?thesis by (simp add: step restoreMemory_loop.simps [of K "-1"])
  next
    case False
    then have free: "prot_at m x = None" if "in_range (a_addr a) (a_size a) x" for x using that by (auto simp: in_area_def)
    obtain f2 m2 where f2: "restoreMemoryRegion K a f1 m = Inr (0, f2, m2)" "pending f2 = segment_bytes segs"
      "calm f2" "filled a data m m2"
      using restoreMemoryRegion_fills [OF assms(1) Cons.prems(1) ok(2) free f1(4,3) ok(3)] by blast
    have m2: "prot_at m2 x = (if in_area a x then Some (a_prot a) else prot_at m x)" for x
      using f2(4) by (simp add: filled_def in_area_def)
    have "fits (seg # segs) (prot_at m) \<longleftrightarrow> fits [seg] (prot_at m) \<and> fits segs (prot_at m2)"
      using fits_append [of "[seg]" "prot_at m2" "prot_at m" segs] m2 by (simp add: seg)
    moreover have "fits [seg] (prot_at m)" using False by (auto simp: fits_def disjoint_areas_def seg)
    ultimately have "\<not> fits segs (prot_at m2)" using Cons.prems(6) by blast
    then have "\<exists>f' m'. restoreMemory_loop K 0 a f2 m2 = Inr (-1, f', m')"
      using Cons.IH [OF filled_layout_ok [OF f2(4) Cons.prems(1) ok(2)] f2(3,2) _ ok(1)] Cons.prems(4) by simp
    then show ?thesis by (simp add: step f2(1))
  qed
qed

text \<open>
  An image, as its path and what is there: nothing, or the file of a context and segments, read without
  hard errors.
\<close>

type_synonym image = "byte list \<times> (CkptRestartState \<times> (Area \<times> byte list) list) option"

fun image_on_disk :: "kernel \<Rightarrow> 'a machine_scheme \<Rightarrow> image \<Rightarrow> bool" where
  "image_on_disk K m (path, None) \<longleftrightarrow> files m path = None"
| "image_on_disk K m (path, Some (st, segs)) \<longleftrightarrow> files m path = Some (st_bytes st @ segment_bytes segs) \<and>
     length (st_ctx st) = k_sizeof_ucontext K \<and> list_all seg_ok segs \<and> list_all calm_answer (k_answers K path)"

definition image_segs :: "image \<Rightarrow> (Area \<times> byte list) list" where
  "image_segs img = (case snd img of None \<Rightarrow> [] | Some (st, segs) \<Rightarrow> segs)"

definition image_state :: "image \<Rightarrow> CkptRestartState" where
  "image_state img = fst (the (snd img))"

lemma restored_layout:
  assumes "restored segs m m'" "layout_ok (prot_at m)" "list_all seg_ok segs"
  shows "layout_ok (prot_at m')"
proof -
  have page: "in_area (fst seg) (ROUND_DOWN x) \<longleftrightarrow> in_area (fst seg) x" "in_area (fst seg) x \<Longrightarrow> unat x < 2 ^ 47"
    if "seg \<in> set segs" for seg x
  proof -
    let ?a = "a_addr (fst seg)" and ?n = "a_size (fst seg)"
    have u: "user_region ?a ?n" using assms(3) that by (auto simp: list_all_iff seg_ok_def)
    then have "layout_ok (\<lambda>x. if in_range ?a ?n x then Some 0 else None)"
      using layout_ok_map_pages [of "m\<lparr>prot_at := \<lambda>x. None\<rparr>" ?a ?n 0]
      by (simp add: user_region_def cong: if_cong) (simp add: layout_ok_def)
    then have l: "\<forall>x. (if in_range ?a ?n x then Some 0 else None) = (if in_range ?a ?n (ROUND_DOWN x) then Some (0 :: u32) else None)"
      "\<forall>x. (if in_range ?a ?n x then Some (0 :: u32) else None) \<noteq> None \<longrightarrow> unat x < 2 ^ 47"
      by (simp_all add: layout_ok_def)
    show "in_area (fst seg) (ROUND_DOWN x) \<longleftrightarrow> in_area (fst seg) x"
      using l(1) [rule_format, of x] by (auto simp: in_area_def split: if_splits)
    show "in_area (fst seg) x \<Longrightarrow> unat x < 2 ^ 47" using l(2) [rule_format, of x] by (simp add: in_area_def)
  qed
  have in_seg: "prot_at m' x = Some (a_prot (fst seg))" if "seg \<in> set segs" "in_area (fst seg) x" for seg x
    using assms(1) that by (fastforce simp: restored_def)
  have out: "prot_at m' x = prot_at m x" if "\<forall>seg \<in> set segs. \<not> in_area (fst seg) x" for x
    using assms(1) that by (simp add: restored_def)
  have "prot_at m' x = prot_at m' (ROUND_DOWN x)" for x
  proof (cases "\<exists>seg \<in> set segs. in_area (fst seg) x")
    case True
    then show ?thesis using in_seg page(1) by metis
  next
    case False
    then show ?thesis using out [of x] out [of "ROUND_DOWN x"] page(1) assms(2) by (metis layout_ok_def)
  qed
  moreover have "unat x < 2 ^ 47" if "prot_at m' x \<noteq> None" for x
    using that out [of x] page(2) assms(2) by (metis layout_ok_def)
  ultimately show ?thesis by (simp add: layout_ok_def)
qed

lemma restored_append:
  assumes "restored segs m m1" "restored segs' m1 m2" "fits segs' (prot_at m1)"
  shows "restored (segs @ segs') m m2"
proof -
  have "\<not> in_area (fst s) x" if "seg \<in> set segs" "in_area (fst seg) x" "s \<in> set segs'" for seg s x
  proof
    assume "in_area (fst s) x"
    then have "prot_at m1 x = None" using assms(3) that(3) by (auto simp: fits_def)
    then show False using assms(1) that(1,2) by (fastforce simp: restored_def)
  qed
  then have "mem m2 x = mem m1 x \<and> prot_at m2 x = prot_at m1 x" if "seg \<in> set segs" "in_area (fst seg) x" for seg x
    using assms(2) that by (simp add: restored_def)
  then show ?thesis using assms(1,2) unfolding restored_def by fastforce
qed

lemma restoreMemoryForImage_decides:
  assumes "willing K" "layout_ok (prot_at m)" "image_on_disk K m img"
  shows "if snd img \<noteq> None \<and> fits (image_segs img) (prot_at m)
    then \<exists>m'. restoreMemoryForImage K (fst img) m = Inr (0, Some (image_state img), m') \<and> restored (image_segs img) m m'
    else \<exists>st m'. restoreMemoryForImage K (fst img) m = Inr (-1, st, m')"
proof (cases "snd img")
  case None
  then have "files m (fst img) = None" using assms(3) by (cases img) simp
  then show ?thesis using None by (simp add: restoreMemoryForImage_def open_ro_def)
next
  case (Some c)
  obtain path st segs where img: "img = (path, Some (st, segs))" using Some by (cases img; cases c) simp
  have d: "files m path = Some (st_bytes st @ segment_bytes segs)" "length (st_ctx st) = k_sizeof_ucontext K"
    "list_all seg_ok segs" "list_all calm_answer (k_answers K path)" using assms(3) by (simp_all add: img)
  let ?f = "\<lparr>content = st_bytes st @ segment_bytes segs, pos = 0, answers = k_answers K path\<rparr>"
  have f: "open_ro K path m = Some ?f" by (simp add: open_ro_def d(1))
  have "calm ?f" "pending ?f = st_bytes st @ segment_bytes segs" using d(4) by (simp_all add: calm_def pending_def)
  then obtain f1 where f1: "readAll (sizeof_st K) ?f = (int (sizeof_st K), st_bytes st, f1)"
    "pending f1 = segment_bytes segs" "calm f1"
    using readAll_calm [of ?f "sizeof_st K"] st_codec(1) [OF d(2)] by auto
  have run: "restoreMemoryForImage K path m = andThen (restoreMemory K f1 m) (\<lambda>(rc, _, m).
      if rc < 0 then Inr (-1, Some st, m) else Inr (0, Some st, m))"
    by (simp add: restoreMemoryForImage_def f f1(1) st_codec(2) [OF d(2)])
  have zero: "area_ok (area_of_bytes (replicate sizeof_Area 0))"
    by (simp add: area_ok_def area_of_bytes_def FILENAMESIZE_def sizeof_Area_def)
  show ?thesis
  proof (cases "fits segs (prot_at m)")
    case True
    then obtain f' m' where "restoreMemory K f1 m = Inr (0, f', m')" "restored segs m m'"
      using restoreMemory_segments [OF assms(1,2) f1(3,2) d(3)] by (auto simp: fits_def)
    then show ?thesis using True by (simp add: img run image_segs_def image_state_def)
  next
    case False
    then obtain f' m' where "restoreMemory K f1 m = Inr (-1, f', m')"
      using restoreMemory_loop_decides [OF assms(1,2) f1(3,2) d(3) zero] by (auto simp: restoreMemory_def)
    then show ?thesis using False by (simp add: img run image_segs_def)
  qed
qed

definition all_segs :: "image list \<Rightarrow> (Area \<times> byte list) list" where
  "all_segs imgs = concat (map image_segs imgs)"

lemma restoreMemoryForImages_decides:
  assumes "willing K" "layout_ok (prot_at m)" "list_all (image_on_disk K m) imgs"
  shows "if list_all (\<lambda>img. snd img \<noteq> None) imgs \<and> fits (all_segs imgs) (prot_at m)
    then \<exists>m'. restoreMemoryForImages K (map fst imgs) ctxs m = Inr (0, ctxs @ map image_state imgs, m') \<and>
      restored (all_segs imgs) m m'
    else \<exists>ctxs' m'. restoreMemoryForImages K (map fst imgs) ctxs m = Inr (-1, ctxs', m')"
  using assms(2,3)
proof (induction imgs arbitrary: ctxs m)
  case Nil
  then show ?case by (simp add: all_segs_def fits_def disjoint_areas_def restored_def)
next
  case (Cons img imgs)
  have disk: "image_on_disk K m img" using Cons.prems(2) by simp
  note one = restoreMemoryForImage_decides [OF assms(1) Cons.prems(1) disk]
  show ?case
  proof (cases "snd img \<noteq> None \<and> fits (image_segs img) (prot_at m)")
    case False
    have "fits (image_segs img @ all_segs imgs) (prot_at m) \<Longrightarrow> fits (image_segs img) (prot_at m)"
      by (auto simp: fits_def disjoint_areas_def sorted_wrt_append)
    then have "\<not> (list_all (\<lambda>img. snd img \<noteq> None) (img # imgs) \<and> fits (all_segs (img # imgs)) (prot_at m))"
      using False by (auto simp: all_segs_def)
    moreover obtain st m1 where "restoreMemoryForImage K (fst img) m = Inr (-1, st, m1)" using one False by metis
    then have "restoreMemoryForImages K (map fst (img # imgs)) ctxs m = Inr (-1, ctxs, m1)" by simp
    ultimately show ?thesis by (simp only: if_False) blast
  next
    case True
    then obtain m1 where m1: "restoreMemoryForImage K (fst img) m = Inr (0, Some (image_state img), m1)"
      "restored (image_segs img) m m1" using one by (metis (no_types, lifting))
    have segs: "list_all seg_ok (image_segs img)"
      using disk by (cases "(K, m, img)" rule: image_on_disk.cases) (auto simp: image_segs_def)
    have lay: "layout_ok (prot_at m1)" by (rule restored_layout [OF m1(2) Cons.prems(1) segs])
    have "files m1 = files (less_memory m1)" by (simp add: less_memory_def)
    also have "\<dots> = files (less_memory m)" by (simp only: restoreMemoryForImage_less [OF m1(1)])
    also have "\<dots> = files m" by (simp add: less_memory_def)
    finally have "files m1 = files m" .
    then have "image_on_disk K m1 i = image_on_disk K m i" for i
      by (cases "(K, m, i)" rule: image_on_disk.cases) simp_all
    then have disks: "list_all (image_on_disk K m1) imgs" using Cons.prems(2) by (simp add: list_all_iff)
    have fit: "fits (all_segs (img # imgs)) (prot_at m) \<longleftrightarrow> fits (all_segs imgs) (prot_at m1)"
      using fits_append [of "image_segs img" "prot_at m1" "prot_at m" "all_segs imgs"] m1(2) True
      by (fastforce simp: all_segs_def restored_def)
    have step: "restoreMemoryForImages K (map fst (img # imgs)) ctxs m =
        restoreMemoryForImages K (map fst imgs) (ctxs @ [image_state img]) m1" by (simp add: m1(1))
    note IH = Cons.IH [OF lay disks, of "ctxs @ [image_state img]"]
    show ?thesis
    proof (cases "list_all (\<lambda>img. snd img \<noteq> None) imgs \<and> fits (all_segs imgs) (prot_at m1)")
      case ok: True
      then obtain m2 where m2: "restoreMemoryForImages K (map fst imgs) (ctxs @ [image_state img]) m1 =
          Inr (0, (ctxs @ [image_state img]) @ map image_state imgs, m2)" "restored (all_segs imgs) m1 m2"
        using IH by metis
      have "restored (image_segs img @ all_segs imgs) m m2"
        by (rule restored_append [OF m1(2) m2(2)]) (use ok in blast)
      then show ?thesis using ok True m2(1) step fit by (simp add: all_segs_def)
    next
      case bad: False
      then have "\<exists>ctxs' m'. restoreMemoryForImages K (map fst imgs) (ctxs @ [image_state img]) m1 = Inr (-1, ctxs', m')"
        using IH by metis
      then show ?thesis using bad step fit by auto
    qed
  qed
qed

text \<open>
  C27. A restart starts all ranks or none. When every image is there and no region of any of them overlaps
  another or anything mapped, all regions come back and there is one thread per image, in order,
  going on in the saved context with the saved \<open>fs\<close> base (if the kernel accepts it). When an image is
  missing, or any two regions conflict, the answer is \<open>-1\<close> and no thread is started.
\<close>

theorem restoreCheckpoint_all_or_none:
  assumes "willing K" "layout_ok (prot_at m)" "list_all (image_on_disk K m) imgs" "imgs \<noteq> []"
  shows "if list_all (\<lambda>img. snd img \<noteq> None) imgs \<and> fits (concat (map image_segs imgs)) (prot_at m)
    then \<exists>m'. restoreCheckpoint K threadFs (map fst imgs) m =
        Inr (0, map (\<lambda>i. (if k_set_fs K (st_fsAddr (image_state (imgs ! i))) then st_fsAddr (image_state (imgs ! i)) else threadFs i,
          st_ctx (image_state (imgs ! i)))) [0..<length imgs], m') \<and>
      restored (concat (map image_segs imgs)) m m'
    else \<exists>m'. restoreCheckpoint K threadFs (map fst imgs) m = Inr (-1, [], m')"
proof -
  note images = restoreMemoryForImages_decides [OF assms(1-3), of "[]"]
  have start: "startRank K (threadFs i) (map image_state imgs ! i) =
      (if k_set_fs K (st_fsAddr (image_state (imgs ! i))) then st_fsAddr (image_state (imgs ! i)) else threadFs i,
       st_ctx (image_state (imgs ! i)))" if "i < length imgs" for i
    using that by (simp add: startRank_def restoreFs_def)
  show ?thesis
  proof (cases "list_all (\<lambda>img. snd img \<noteq> None) imgs \<and> fits (all_segs imgs) (prot_at m)")
    case True
    then obtain m' where m': "restoreMemoryForImages K (map fst imgs) [] m = Inr (0, map image_state imgs, m')"
      "restored (all_segs imgs) m m'" using images by (metis append_Nil)
    have "restoreCheckpoint K threadFs (map fst imgs) m =
        Inr (0, map (\<lambda>i. startRank K (threadFs i) (map image_state imgs ! i)) [0..<length imgs], m')"
      using assms(4) by (simp add: restoreCheckpoint_def getNumRanks_def m'(1) del: nth_map)
    moreover have "map (\<lambda>i. startRank K (threadFs i) (map image_state imgs ! i)) [0..<length imgs] =
        map (\<lambda>i. (if k_set_fs K (st_fsAddr (image_state (imgs ! i))) then st_fsAddr (image_state (imgs ! i)) else threadFs i,
          st_ctx (image_state (imgs ! i)))) [0..<length imgs]"
      by (rule map_cong) (use start in simp_all)
    ultimately show ?thesis using True m'(2) by (simp add: all_segs_def)
  next
    case False
    then obtain ctxs' m' where "restoreMemoryForImages K (map fst imgs) [] m = Inr (-1, ctxs', m')" using images by metis
    then have "restoreCheckpoint K threadFs (map fst imgs) m = Inr (-1, [], m')"
      using assms(4) by (simp add: restoreCheckpoint_def getNumRanks_def)
    then show ?thesis using False by (simp only: all_segs_def if_False) blast
  qed
qed

section \<open>Runs\<close>

lemma ckpt_kernel_willing: "willing ckpt_kernel"
proof -
  have "kernel_ok ckpt_kernel" using truthful_kernel_ok by (simp add: kernel_ok_def ckpt_kernel_def)
  moreover have "maps_ok ckpt_kernel"
    using truthful_maps_ok by (simp add: maps_ok_def ckpt_kernel_def stale_ok_def)
  ultimately show ?thesis
    by (simp add: willing_def grants_fixed_def grants_mprotect_def)
       (simp add: ckpt_kernel_def truthful_kernel_def plain_kernel_def)
qed

definition blank_process :: process where
  "blank_process = ckpt_process\<lparr>prot_at := (\<lambda>x. None)\<rparr>"

lemma layouts: "layout_ok (prot_at blank_process)" "layout_ok (prot_at ckpt_process)"
  by (auto simp: layout_ok_def blank_process_def ckpt_process_def one_page_def in_range_unat no_wrap_def
      unat_ROUND_DOWN)

lemma page_area_user: "user_region (a_addr page_area) (a_size page_area)"
  by (simp add: page_area_fields user_region_def page_aligned_iff)

lemma page_area_ok: "area_ok page_area"
  unfolding page_area_def
  by (rule entry_area_ok)
     (simp_all add: entry_ok_def page_entry_def Let_def FILENAMESIZE_def area_ok_def area_of_bytes_def sizeof_Area_def)

theorem anyOverlappingRegion_iff_mapped_witness:
  "anyOverlappingRegion ckpt_kernel page_area ckpt_process = Inr True"
proof -
  have K: "maps_ok ckpt_kernel" using ckpt_kernel_willing by (simp add: willing_def)
  have "in_range 0x600000 0x1000 0x600000 \<and> prot_at ckpt_process 0x600000 \<noteq> None"
    by (simp add: in_range_def ckpt_process_def one_page_def)
  then show ?thesis
    using anyOverlappingRegion_iff_mapped [OF K layouts(2), of page_area]
    by (auto simp: page_area_fields no_wrap_def)
qed

text \<open>A page next to a mapped one.\<close>

theorem restoreMemoryRegion_never_overwrites_witness:
  "\<exists>f' m'. restoreMemoryRegion ckpt_kernel (page_area\<lparr>a_addr := 0x601000\<rparr>)
       \<lparr>content = replicate 4096 9, pos = 0, answers = []\<rparr> ckpt_process = Inr (0, f', m') \<and>
     mem m' 0x600fff = mem ckpt_process 0x600fff \<and> prot_at m' 0x600fff = prot_at ckpt_process 0x600fff"
proof -
  let ?area = "page_area\<lparr>a_addr := 0x601000\<rparr>"
  let ?f = "\<lparr>content = replicate 4096 9, pos = 0, answers = []\<rparr>"
  have K: "kernel_ok ckpt_kernel" "maps_ok ckpt_kernel" using ckpt_kernel_willing by (simp_all add: willing_def)
  have user: "user_region (a_addr ?area) (a_size ?area)"
    by (simp add: page_area_fields user_region_def page_aligned_iff)
  have free: "prot_at ckpt_process x = None" if "in_range (a_addr ?area) (a_size ?area) x" for x
    using that by (simp add: ckpt_process_def one_page_def page_area_fields in_range_unat no_wrap_def)
  obtain f' m' where run: "restoreMemoryRegion ckpt_kernel ?area ?f ckpt_process = Inr (0, f', m')"
    using restoreMemoryRegion_fills [OF ckpt_kernel_willing layouts(2) user free, of ?f "replicate 4096 9" "[]"]
    by (auto simp: calm_def pending_def page_area_fields)
  have "no_wrap (a_addr ?area) (a_size ?area)" by (rule user_region_facts(2) [OF user])
  moreover have "prot_at ckpt_process 0x600fff \<noteq> None"
    by (simp add: ckpt_process_def one_page_def in_range_def)
  ultimately show ?thesis
    using restoreMemoryRegion_never_overwrites [OF K layouts(2) _ run] run by blast
qed

theorem restoreMemory_restores_witness:
  "\<exists>f' m'. restoreMemory ckpt_kernel \<lparr>content = area_bytes page_area @ replicate 4096 9, pos = 0, answers = [Fail EINTR]\<rparr>
       blank_process = Inr (0, f', m') \<and> mem m' 0x600123 = 9 \<and> prot_at m' 0x600123 = Some (PROT_READ OR PROT_WRITE)"
proof -
  let ?f = "\<lparr>content = area_bytes page_area @ replicate 4096 9, pos = 0, answers = [Fail EINTR]\<rparr>"
  let ?segs = "[(page_area, replicate 4096 (9 :: byte))]"
  have "calm ?f" "pending ?f = segment_bytes ?segs"
    by (simp_all add: calm_def calm_answer_def retry_def pending_def segment_bytes_def)
  moreover have "list_all seg_ok ?segs" "disjoint_areas (map fst ?segs)"
    using page_area_user page_area_ok by (simp_all add: seg_ok_def page_area_fields disjoint_areas_def)
  moreover have "\<forall>seg \<in> set ?segs. \<forall>x. in_area (fst seg) x \<longrightarrow> prot_at blank_process x = None"
    by (simp add: blank_process_def)
  ultimately obtain f' m' where run: "restoreMemory ckpt_kernel ?f blank_process = Inr (0, f', m')"
    "restored ?segs blank_process m'"
    using restoreMemory_restores [OF ckpt_kernel_willing layouts(1)] by blast
  have "in_area page_area 0x600123" by (simp add: in_area_def in_range_def page_area_fields)
  then show ?thesis using run by (simp add: restored_def page_area_fields)
qed

theorem restore_read_error_ignored_witness:
  "\<exists>f' m'. restoreMemoryRegion ckpt_kernel page_area \<lparr>content = replicate 4096 9, pos = 0, answers = [Fail EIO]\<rparr>
       blank_process = Inr (0, f', m') \<and> mem m' 0x600123 = 0"
proof -
  have "in_range (a_addr page_area) (a_size page_area) 0x600123" by (simp add: in_range_def page_area_fields)
  moreover have "\<forall>x. in_range (a_addr page_area) (a_size page_area) x \<longrightarrow> prot_at blank_process x = None"
    by (simp add: blank_process_def)
  ultimately show ?thesis
    using restore_read_error_ignored [OF ckpt_kernel_willing layouts(1) page_area_user,
        of "\<lparr>content = replicate 4096 9, pos = 0, answers = [Fail EIO]\<rparr>" "[]"]
    by fastforce
qed

text \<open>Two ranks with a page each, in two images, and a third image of the same page as the first.\<close>

definition rank_state :: "byte \<Rightarrow> u64 \<Rightarrow> CkptRestartState" where
  "rank_state c fs = \<lparr>st_ctx = replicate 968 c, st_sp = 0x7000, st_fsAddr = fs\<rparr>"

definition rank_image :: "char \<Rightarrow> byte \<Rightarrow> u64 \<Rightarrow> image" where
  "rank_image name c a = ([of_char name],
     Some (rank_state c a, [(page_area\<lparr>a_addr := a\<rparr>, replicate 4096 c)]))"

definition two_ranks :: process where
  "two_ranks = blank_process\<lparr>files := [
     [of_char CHR ''0''] \<mapsto> st_bytes (rank_state 1 0x600000) @ segment_bytes [(page_area\<lparr>a_addr := 0x600000\<rparr>, replicate 4096 1)],
     [of_char CHR ''1''] \<mapsto> st_bytes (rank_state 2 0x700000) @ segment_bytes [(page_area\<lparr>a_addr := 0x700000\<rparr>, replicate 4096 2)],
     [of_char CHR ''2''] \<mapsto> st_bytes (rank_state 3 0x600000) @ segment_bytes [(page_area\<lparr>a_addr := 0x600000\<rparr>, replicate 4096 3)]]\<rparr>"

lemma rank_images:
  "list_all (image_on_disk ckpt_kernel two_ranks)
     [rank_image CHR ''0'' 1 0x600000, rank_image CHR ''1'' 2 0x700000, rank_image CHR ''2'' 3 0x600000]"
proof -
  have "seg_ok (page_area\<lparr>a_addr := a\<rparr>, replicate 4096 c)" if "a = 0x600000 \<or> a = 0x700000" for a and c :: byte
    using page_area_ok that by (auto simp: seg_ok_def area_ok_def page_area_fields user_region_def page_aligned_iff)
  moreover have "k_sizeof_ucontext ckpt_kernel = 968" "\<And>p. k_answers ckpt_kernel p = []"
    by (simp_all add: ckpt_kernel_def truthful_kernel_def plain_kernel_def)
  ultimately show ?thesis by (simp add: rank_image_def two_ranks_def rank_state_def)
qed

theorem restoreCheckpoint_all_or_none_witness:
  "(\<exists>m'. restoreCheckpoint ckpt_kernel (\<lambda>i. 0) [[of_char CHR ''0''], [of_char CHR ''1'']] two_ranks =
      Inr (0, [(0x600000, replicate 968 1), (0x700000, replicate 968 2)], m') \<and> mem m' 0x600123 = 1 \<and> mem m' 0x700123 = 2) \<and>
   (\<exists>m'. restoreCheckpoint ckpt_kernel (\<lambda>i. 0) [[of_char CHR ''0''], [of_char CHR ''2'']] two_ranks = Inr (-1, [], m'))"
proof -
  let ?i0 = "rank_image CHR ''0'' 1 0x600000" and ?i1 = "rank_image CHR ''1'' 2 0x700000" and ?i2 = "rank_image CHR ''2'' 3 0x600000"
  have disks: "list_all (image_on_disk ckpt_kernel two_ranks) [?i0, ?i1]" "list_all (image_on_disk ckpt_kernel two_ranks) [?i0, ?i2]"
    using rank_images by simp_all
  have lay: "layout_ok (prot_at two_ranks)" using layouts(1) by (simp add: two_ranks_def)
  have segs: "image_segs (rank_image name c a) = [(page_area\<lparr>a_addr := a\<rparr>, replicate 4096 c)]"
    "image_state (rank_image name c a) = rank_state c a" "snd (rank_image name c a) \<noteq> None" "fst (rank_image name c a) = [of_char name]" for name c a
    by (simp_all add: image_segs_def image_state_def rank_image_def)
  have in_page: "in_area (page_area\<lparr>a_addr := a\<rparr>) x \<longleftrightarrow> in_range a 0x1000 x" for a x
    by (simp add: in_area_def page_area_fields)
  have fit: "fits (concat (map image_segs [?i0, ?i1])) (prot_at two_ranks)"
    by (auto simp: segs fits_def disjoint_areas_def in_page in_range_unat no_wrap_def two_ranks_def blank_process_def)
  have "in_range 0x600000 0x1000 0x600000" by (simp add: in_range_def)
  then have no_fit: "\<not> fits (concat (map image_segs [?i0, ?i2])) (prot_at two_ranks)"
    by (auto simp: segs fits_def disjoint_areas_def in_page)
  have fs: "k_set_fs ckpt_kernel 0x600000" "k_set_fs ckpt_kernel 0x700000"
    by (simp_all add: ckpt_kernel_def truthful_kernel_def plain_kernel_def)
  have two: "[0..<length [?i0, ?i1]] = [0, 1]" by (simp add: upt_rec)
  have there: "list_all (\<lambda>img. snd img \<noteq> None) [?i0, ?i1]" by (simp add: rank_image_def)
  obtain m' where m': "restoreCheckpoint ckpt_kernel (\<lambda>i. 0) (map fst [?i0, ?i1]) two_ranks =
      Inr (0, [(0x600000, replicate 968 1), (0x700000, replicate 968 2)], m')"
    "restored (concat (map image_segs [?i0, ?i1])) two_ranks m'"
    using restoreCheckpoint_all_or_none [OF ckpt_kernel_willing lay disks(1), of "\<lambda>i. 0",
        unfolded if_P [OF conjI [OF there fit]] two] fs
    by (auto simp: segs(2) rank_state_def)
  moreover have "in_range 0x600000 0x1000 0x600123" "in_range 0x700000 0x1000 0x700123" by (simp_all add: in_range_def)
  then have "mem m' 0x600123 = 1" "mem m' 0x700123 = 2"
    using m'(2) by (auto simp: restored_def segs in_page)
  moreover obtain m2 where "restoreCheckpoint ckpt_kernel (\<lambda>i. 0) (map fst [?i0, ?i2]) two_ranks = Inr (-1, [], m2)"
    using restoreCheckpoint_all_or_none [OF ckpt_kernel_willing lay disks(2), of "\<lambda>i. 0"] no_fit by auto
  ultimately show ?thesis by (auto simp: segs)
qed

end
