(* ===== verification/KernelLoader.thy ===== *)
theory KernelLoader
  imports StackCopy AddrSpace SbrkWrapper UpperHalf MemRestore
begin

text \<open>
  The kernel loader (\<open>kernel-loader.c\<close>): \<open>runRtld\<close> confines the address space, loads the runtime
  loader, gives it a stack and a heap, redirects its \<open>mmap\<close> and \<open>sbrk\<close>, publishes the addresses of the
  wrappers and jumps to its entry; with \<open>--restore\<close> the same program restarts from checkpoint images.
  The address searches and the confinement are in \<open>AddrSpace\<close>, the copy of the stack in \<open>StackCopy\<close>.
\<close>

section \<open>/proc/self/stat\<close>

text \<open>The enumeration \<open>Procstat_t\<close>.\<close>

definition PID :: nat where "PID = 1"
definition COMM :: nat where "COMM = PID + 1"
definition STATE :: nat where "STATE = COMM + 1"
definition PPID :: nat where "PPID = STATE + 1"
definition NUM_THREADS :: nat where "NUM_THREADS = 19"
definition STARTSTACK :: nat where "STARTSTACK = 27"

definition proc_stat :: "byte list" where "proc_stat = bytes_of ''/proc/self/stat''"

fun stat_loop :: "nat \<Rightarrow> nat \<Rightarrow> byte list list \<Rightarrow> byte list option" where
  "stat_loop field_counter type [] = None"
| "stat_loop field_counter type (field_str # rest) =
     (if field_counter \<noteq> type then stat_loop (field_counter + 1) type rest else Some field_str)"

text \<open>
  One \<open>read\<close> of at most 1023 bytes; the array \<open>out\<close> stays as it is when anything fails.
\<close>

definition getProcStatField :: "kernel \<Rightarrow> nat \<Rightarrow> byte list \<Rightarrow> 'a machine_scheme \<Rightarrow> byte list" where
  "getProcStatField K type out m =
     (case open_ro K proc_stat m of
        None \<Rightarrow> out
      | Some fd \<Rightarrow>
          (case fst (sys_read (1024 - 1) fd) of
             ReadErr e \<Rightarrow> out
           | Data sbuf \<Rightarrow>
               if sbuf = [] then out
               else case stat_loop 0 type (tokens (cstr (sbuf @ [0]))) of
                      None \<Rightarrow> out
                    | Some field_str \<Rightarrow> strncpy field_str (length out)))"

section \<open>The stack and the heap of the runtime loader\<close>

text \<open>
  \<open>sp\<close> is the address of a local variable, with which \<open>getStackRegion\<close> compares; the variable \<open>stack\<close>
  has no initialiser.
\<close>

definition createNewStackForRtld :: "kernel \<Rightarrow> va \<Rightarrow> va \<Rightarrow> DynObjInfo \<Rightarrow> 'a lower_half_scheme \<Rightarrow>
    (va \<times> 'a lower_half_scheme) run" where
  "createNewStackForRtld K environ sp info m =
     andThen (getStackRegion K sp (area_of_bytes (k_stale K sizeof_Area)) m) (\<lambda>stack.
     andThen (mmapWrapper K 0 (a_size stack) (PROT_READ OR PROT_WRITE)
                (MAP_GROWSDOWN OR MAP_PRIVATE OR MAP_ANONYMOUS) (-1) 0 m) (\<lambda>(newStack, m).
       if newStack = MAP_FAILED then Inr (0, m)
       else
         let stackEndStr = getProcStatField K STARTSTACK (replicate 20 0) m;
             origStackEnd = atol (cstr (stackEndStr @ k_stale K 20)) - 8;
             newStackOffset = origStackEnd - a_addr stack;
             newStackEnd = newStack + newStackOffset
         in deepCopyStack environ newStack (a_addr stack) (a_size stack) newStackEnd origStackEnd info m))"

definition createNewHeapForRtld :: "kernel \<Rightarrow> 'a lower_half_scheme \<Rightarrow> (va \<times> 'a lower_half_scheme) run" where
  "createNewHeapForRtld K m =
     andThen (mmapWrapper K 0 (100 * PAGE_SIZE) (PROT_READ OR PROT_WRITE)
                (MAP_PRIVATE OR MAP_ANONYMOUS) (-1) 0 m) (\<lambda>(addr, m).
       if addr = MAP_FAILED then Inr (0, m)
       else
         let (_, m) = sys_mprotect K addr PAGE_SIZE PROT_NONE m;
             m = setEndOfHeap (addr + 100 * PAGE_SIZE) m;
             m = setUhBrk (addr + PAGE_SIZE) m
         in Inr (addr, m))"

definition getEntryPoint :: "DynObjInfo \<Rightarrow> va" where "getEntryPoint info = entryPoint info"

section \<open>The address file\<close>

text \<open>\<open>open\<close> creates the file or keeps what it holds; the record is written with one \<open>write\<close>.\<close>

definition writeLhInfoToFile :: "kernel \<Rightarrow> 'a lower_half_scheme \<Rightarrow> int \<times> 'a lower_half_scheme" where
  "writeLhInfoToFile K m =
     (if \<not> k_creat K LH_FILE_NAME then (-1, m)
      else
        let fd = \<lparr>content = (case files m LH_FILE_NAME of None \<Rightarrow> [] | Some c \<Rightarrow> c), pos = 0,
                  answers = k_answers K LH_FILE_NAME\<rparr>;
            (ret, fd) = sys_write (lhinfo_bytes (lhInfo m)) fd;
            rc = (case ret of Wrote n \<Rightarrow> int n | WriteErr e \<Rightarrow> -1);
            rc = (if (word_of_int rc :: u64) < 40 then -1 else rc)
        in (rc, m\<lparr>files := (files m)(LH_FILE_NAME \<mapsto> content fd)\<rparr>))"

text \<open>\<open>ARCH_GET_FS\<close> into a variable of the program does not fail.\<close>

definition setupLowerHalfInfo :: "kernel \<Rightarrow> 'a lower_half_scheme \<Rightarrow> int \<times> 'a lower_half_scheme" where
  "setupLowerHalfInfo K m =
     (let m = m\<lparr>lhInfo := \<lparr>lhSbrk = k_sym K ''sbrkWrapper'', lhMmap = k_sym K ''mmapWrapper'',
                lhDlsym = k_sym K ''lhDlsym'', lhFsAddr = fs_base m, lhMmapListFptr = k_sym K ''getMmappedList''\<rparr>\<rparr>;
          (rc, m) = writeLhInfoToFile K m
      in if rc < 0 then (-1, m) else (0, m))"

section \<open>runRtld and main\<close>

text \<open>
  How the program goes on: it returns a status, it jumps to an address with a new stack pointer, or it has
  started a thread per restored rank.
\<close>

datatype outcome = Returned int | Jump va va | Restarted int "(u64 \<times> byte list) list"

definition runRtld :: "kernel \<Rightarrow> va \<Rightarrow> va \<Rightarrow> va \<Rightarrow> 'a lower_half_scheme \<Rightarrow>
    (outcome \<times> 'a lower_half_scheme) run" where
  "runRtld K environ brk sp m =
     andThen (getenv m environ (bytes_of ''TARGET_LD'')) (\<lambda>ldname.
     andThen (getenv m environ (bytes_of ''UH_PRELOAD'')) (\<lambda>uhpreload.
     andThen (rank_id environ m) (\<lambda>rank_ID.
     andThen (confine_addr_space K brk sp rank_ID m) (\<lambda>m.
       if ldname = 0 \<or> uhpreload = 0 then Inr (Returned (-1), m)
       else
         andThen (cstr_at m ldname) (\<lambda>name.
         andThen (safeLoadLib K environ name ld_init m) (\<lambda>(ldso, st, m).
           if baseAddr ldso = 0 \<or> entryPoint ldso = 0 then Inr (Returned (-1), m)
           else
             let ldso_entrypoint = getEntryPoint ldso in
             andThen (createNewStackForRtld K environ sp ldso m) (\<lambda>(newStack, m).
               if newStack = 0 then Inr (Returned (-1), m)
               else
                 andThen (createNewHeapForRtld K m) (\<lambda>(newHeap, m).
                   if newHeap = 0 then Inr (Returned (-1), m)
                   else
                     andThen (insertTrampoline K (mmapAddr ldso) (k_sym K ''mmapWrapper'') m) (\<lambda>(rc, m).
                       if rc < 0 then Inr (Returned (-1), m)
                       else
                         andThen (insertTrampoline K (sbrkAddr ldso) (k_sym K ''sbrkWrapper'') m) (\<lambda>(rc, m).
                           if rc < 0 then Inr (Returned (-1), m)
                           else
                             let (rc, m) = setupLowerHalfInfo K m
                             in if rc < 0 then Inr (Returned (-1), m)
                                else Inr (Jump newStack ldso_entrypoint, m)))))))))))"

text \<open>\<open>main\<close>, with \<open>argv\<close> as a list of \<open>argc\<close> strings.\<close>

definition loader_main :: "kernel \<Rightarrow> va \<Rightarrow> va \<Rightarrow> va \<Rightarrow> (nat \<Rightarrow> u64) \<Rightarrow> byte list list \<Rightarrow>
    'a lower_half_scheme \<Rightarrow> (outcome \<times> 'a lower_half_scheme) run" where
  "loader_main K environ brk sp threadFs argv m =
     (if length argv < 2 then Inr (Returned (-1), m)
      else if strstr (argv ! 1) (bytes_of ''--restore'') then
        (if length argv < 3 then Inr (Returned (-1), m)
         else
           let (rc, m) = setupLowerHalfInfo K m
           in if rc < 0 then Inl (Exit (-1))
              else andThen (restoreCheckpoint K threadFs (drop 2 argv) m)
                     (\<lambda>(rc, ths, m). Inr (Restarted rc ths, m)))
      else runRtld K environ brk sp m)"

text \<open>
  Without \<open>RANK_ID\<close> in the environment, as in the targets of the makefile that start one process, the program
  reads through a null pointer before it has looked at its other variables.
\<close>

theorem runRtld_without_rank_faults:
  assumes "getenv m environ (bytes_of ''TARGET_LD'') = Inr q" "getenv m environ (bytes_of ''UH_PRELOAD'') = Inr u"
    and "getenv m environ (bytes_of ''RANK_ID'') = Inr 0"
  shows "runRtld K environ brk sp m = Inl Segv"
  using assms by (simp add: runRtld_def rank_id_def)

theorem runRtld_without_rank_faults_witness: "runRtld plain_kernel 0x7000 0 0 (poke 0x7000 (le_bytes 8 (0 :: u64))
    (fresh_lower_half\<lparr>prot_at := (\<lambda>x. Some PROT_READ)\<rparr>)) = Inl Segv"
  (is "runRtld _ _ _ _ ?m = _")
proof -
  have "peek ?m 0x7000 8 = le_bytes 8 (0 :: u64)" using peek_poke [of "le_bytes 8 (0 :: u64)" "0x7000"] by simp
  then have "load64 ?m 0x7000 = Inr 0" by (simp add: load64_def all_prot_iff has_flag_def flag_defs codec_simps)
  then have none: "getenv ?m 0x7000 name = Inr 0" for name by (simp add: getenv_def getenv_loop.simps)
  show ?thesis by (rule runRtld_without_rank_faults [OF none none none])
qed

section \<open>The fields of /proc/self/stat\<close>

text \<open>Fields separated by one space; the last one may hold the end of the line.\<close>

fun join_fields :: "byte list list \<Rightarrow> byte list" where
  "join_fields [] = []"
| "join_fields [f] = f"
| "join_fields (f # g # fs) = f @ 32 # join_fields (g # fs)"

definition field_ok :: "byte list \<Rightarrow> bool" where
  "field_ok f \<longleftrightarrow> f \<noteq> [] \<and> 32 \<notin> set f \<and> 0 \<notin> set f"

lemma tokens_field:
  assumes "field_ok f"
  shows "tokens f = [f]" "tokens (f @ 32 # s) = f # tokens s"
proof -
  obtain c r where f: "f = c # r" "c \<noteq> 32" using assms by (cases f) (auto simp: field_ok_def)
  have notin: "\<forall>x \<in> set f. x \<noteq> 32" using assms by (auto simp: field_ok_def)
  then have tw: "takeWhile (\<lambda>c. c \<noteq> 32) f = f" "dropWhile (\<lambda>c. c \<noteq> 32) f = []"
    by (simp_all add: takeWhile_eq_all_conv)
  have tw': "takeWhile (\<lambda>c. c \<noteq> 32) (f @ 32 # s) = f" "dropWhile (\<lambda>c. c \<noteq> 32) (f @ 32 # s) = 32 # s"
    using notin by (simp_all add: takeWhile_append2 dropWhile_append2)
  have sp: "dropWhile (\<lambda>c. c = 32) (f @ t) = f @ t" for t using f by simp
  have "tokens (32 # s) = tokens s" by (subst (1 2) tokens.simps) simp
  then show "tokens (f @ 32 # s) = f # tokens s"
    using sp [of "32 # s"] tw' f(1) by (subst tokens.simps) simp
  show "tokens f = [f]"
    using sp [of "[]"] tw f(1) tokens.simps [of "[]"] by (subst tokens.simps) simp
qed

lemma tokens_join: "list_all field_ok fs \<Longrightarrow> tokens (join_fields fs) = fs"
  by (induction fs rule: join_fields.induct) (simp_all add: tokens_field tokens.simps [of "[]"])

lemma stat_loop_nth: "stat_loop c t fs = (if c \<le> t \<and> t - c < length fs then Some (fs ! (t - c)) else None)"
  by (induction fs arbitrary: c) (auto simp: nth_Cons' Suc_diff_le)

text \<open>The process has a status line that one \<open>read\<close> delivers whole.\<close>

definition stat_line :: "kernel \<Rightarrow> 'a machine_scheme \<Rightarrow> byte list \<Rightarrow> bool" where
  "stat_line K m l \<longleftrightarrow> files m proc_stat = Some l \<and> k_answers K proc_stat = [] \<and>
     l \<noteq> [] \<and> 0 \<notin> set l \<and> length l \<le> 1023"

lemma getProcStatField_tokens:
  assumes "stat_line K m l" "t < length (tokens l)"
  shows "getProcStatField K t out m = strncpy (tokens l ! t) (length out)"
proof -
  have "cstr (l @ [0]) = l" using assms(1) by (simp add: stat_line_def cstr_append_nul)
  then show ?thesis
    using assms
    by (simp add: getProcStatField_def stat_line_def open_ro_def sys_read.simps pending_def stat_loop_nth)
qed

text \<open>
  \<open>getProcStatField\<close> delivers the field of the given number, counted from 0 (the enumeration calls
  the first one 1), cut to the buffer and filled with zeros, when every field is one word.
\<close>

theorem getProcStatField_field:
  assumes "stat_line K m (join_fields fs)" "list_all field_ok fs" "t < length fs"
  shows "getProcStatField K t out m = strncpy (fs ! t) (length out)"
  using getProcStatField_tokens [OF assms(1)] assms(2,3) by (simp add: tokens_join)

text \<open>
  The first four enumerators are numbered from 1, as in proc(5), and deliver the field after the one they are named for; the
  last two are numbered from 0 and deliver their own.
\<close>

lemma getProcStatField_enumerators:
  assumes "stat_line K m (join_fields (pid # comm # st # ppid # pgrp # fs))"
    and "list_all field_ok (pid # comm # st # ppid # pgrp # fs)" "23 \<le> length fs"
  shows "getProcStatField K PID out m = strncpy comm (length out)" "getProcStatField K COMM out m = strncpy st (length out)"
    "getProcStatField K STATE out m = strncpy ppid (length out)" "getProcStatField K PPID out m = strncpy pgrp (length out)"
    "getProcStatField K NUM_THREADS out m = strncpy (fs ! (20 - 1 - 5)) (length out)"
    "getProcStatField K STARTSTACK out m = strncpy (fs ! (28 - 1 - 5)) (length out)"
  using assms(3) getProcStatField_field [OF assms(1,2)]
  by (simp_all add: PID_def COMM_def STATE_def PPID_def NUM_THREADS_def STARTSTACK_def numeral_eq_Suc)

text \<open>
  C38. A program whose name contains a space shifts the fields: \<open>STARTSTACK\<close> then delivers the field
  before the start of the stack, so the new stack would be built from a wrong address.
\<close>

theorem getProcStatField_name_with_space:
  assumes "stat_line K m (join_fields (pid # (a @ 32 # b) # fs))"
    and "field_ok pid" "field_ok a" "field_ok b" "list_all field_ok fs" "26 \<le> length fs"
  shows "getProcStatField K STARTSTACK out m =
      strncpy ((pid # (a @ 32 # b) # fs) ! (STARTSTACK - 1)) (length out)"
proof -
  have "join_fields (pid # (a @ 32 # b) # fs) = join_fields (pid # a # b # fs)"
    by (cases fs) simp_all
  then show ?thesis
    using getProcStatField_field [of K m "pid # a # b # fs" STARTSTACK out] assms
    by (simp add: STARTSTACK_def)
qed

text \<open>A process with such a line, its field 27 the decimal number of a stack address.\<close>

definition stat_fields :: "byte list list" where
  "stat_fields = (replicate 28 (bytes_of ''7'')) [1 := bytes_of ''(kernel-loader)'', 27 := bytes_of ''1879048216'']"

definition stat_process :: machine where
  "stat_process = empty_machine\<lparr>files := [proc_stat \<mapsto> join_fields stat_fields]\<rparr>"

lemma stat_process_line: "stat_line plain_kernel stat_process (join_fields stat_fields)" "list_all field_ok stat_fields"
proof -
  have "length (join_fields stat_fields) = 78 \<and> 0 \<notin> set (join_fields stat_fields)" by code_simp
  then show "stat_line plain_kernel stat_process (join_fields stat_fields)"
    by (auto simp: stat_line_def stat_process_def plain_kernel_def)
  show "list_all field_ok stat_fields" by code_simp
qed

theorem getProcStatField_field_witness:
  "getProcStatField plain_kernel STARTSTACK (replicate 20 0) stat_process =
     bytes_of ''1879048216'' @ replicate 10 0"
proof -
  have "getProcStatField plain_kernel STARTSTACK (replicate 20 0) stat_process =
      strncpy (stat_fields ! STARTSTACK) (length (replicate 20 (0 :: byte)))"
    by (rule getProcStatField_field [OF stat_process_line]) (simp add: stat_fields_def STARTSTACK_def)
  also have "\<dots> = bytes_of ''1879048216'' @ replicate 10 0" by code_simp
  finally show ?thesis .
qed

text \<open>The same with a program called \<open>my app\<close>; the last number is that of the start of the stack.\<close>

definition spaced_fields :: "byte list list" where
  "spaced_fields = (replicate 25 (bytes_of ''7'')) [24 := bytes_of ''99''] @ [bytes_of ''1879048216'']"

definition spaced_line :: "byte list" where
  "spaced_line = join_fields (bytes_of ''7'' # (bytes_of ''(my'' @ 32 # bytes_of ''app)'') # spaced_fields)"

lemma spaced_ok:
  "field_ok (bytes_of ''7'')" "field_ok (bytes_of ''(my'')" "field_ok (bytes_of ''app)'')" "list_all field_ok spaced_fields"
  "26 \<le> length spaced_fields"
  by code_simp+

lemma spaced_stat: "stat_line plain_kernel (empty_machine\<lparr>files := [proc_stat \<mapsto> spaced_line]\<rparr>) spaced_line"
proof -
  have "spaced_line \<noteq> [] \<and> 0 \<notin> set spaced_line \<and> length spaced_line \<le> 1023" by code_simp
  then show ?thesis by (simp add: stat_line_def plain_kernel_def)
qed

theorem getProcStatField_name_with_space_witness:
  "getProcStatField plain_kernel STARTSTACK (replicate 20 0) (empty_machine\<lparr>files := [proc_stat \<mapsto> spaced_line]\<rparr>) =
     bytes_of ''99'' @ replicate 18 0"
proof -
  have "getProcStatField plain_kernel STARTSTACK (replicate 20 0) (empty_machine\<lparr>files := [proc_stat \<mapsto> spaced_line]\<rparr>) =
      strncpy ((bytes_of ''7'' # (bytes_of ''(my'' @ 32 # bytes_of ''app)'') # spaced_fields) ! (STARTSTACK - 1))
        (length (replicate 20 (0 :: byte)))"
    by (rule getProcStatField_name_with_space [OF _ spaced_ok])
       (subst spaced_line_def [symmetric], rule spaced_stat)
  also have "\<dots> = bytes_of ''99'' @ replicate 18 0" by code_simp
  finally show ?thesis .
qed

section \<open>The heap\<close>

lemma anonymous_quiet: "quiet_fd (-1) m"
  by (simp add: quiet_fd_def)

text \<open>The steps of a call that returns a heap.\<close>

lemma createNewHeap_steps:
  assumes "kernel_ok K" "createNewHeapForRtld K m = Inr (addr, m')" "addr \<noteq> 0"
  obtains m1 rc m2 where "placement_ok (prot_at m) 0 0x64000 (MAP_PRIVATE OR MAP_ANONYMOUS) addr"
    "mapped addr 0x64000 (PROT_READ OR PROT_WRITE) (MAP_PRIVATE OR MAP_ANONYMOUS) (-1) 0 m m1"
    "sys_mprotect K addr 0x1000 PROT_NONE m1 = (rc, m2)"
    "m' = setUhBrk (addr + 0x1000) (setEndOfHeap (addr + 0x64000) m2)"
proof -
  let ?fl = "MAP_PRIVATE OR MAP_ANONYMOUS"
  obtain r m1 where w: "mmapWrapper K 0 (100 * PAGE_SIZE) (PROT_READ OR PROT_WRITE) ?fl (-1) 0 m = Inr (r, m1)"
    using assms(2) by (auto simp: createNewHeapForRtld_def run_simps)
  have len: "100 * PAGE_SIZE = 0x64000" "PAGE_SIZE = 0x1000" by (simp_all add: PAGE_SIZE_def)
  from w assms(1) anonymous_quiet have r: "addr = r \<and> r \<noteq> MAP_FAILED \<and> placement_ok (prot_at m) 0 0x64000 ?fl r \<and>
      mapped r 0x64000 (PROT_READ OR PROT_WRITE) ?fl (-1) 0 m m1"
  proof (cases rule: mmapWrapper_quiet_cases)
    case refused
    then show ?thesis using assms(2,3) w by (simp add: createNewHeapForRtld_def)
  next
    case granted
    then show ?thesis using assms(2) w
      by (auto simp: createNewHeapForRtld_def len Let_def split: prod.splits)
  qed
  obtain rc m2 where mp: "sys_mprotect K r 0x1000 PROT_NONE m1 = (rc, m2)" by fastforce
  have "m' = setUhBrk (r + 0x1000) (setEndOfHeap (r + 0x64000) m2)"
    using assms(2) w r mp by (auto simp: createNewHeapForRtld_def len)
  then show thesis using that r mp by blast
qed

lemma heap_pages: "ROUND_UP (0x64000 :: u64) = 0x64000" "ROUND_UP (0x1000 :: u64) = 0x1000"
  by (simp_all add: ROUND_UP_def PAGE_SIZE_def)

lemma createNewHeap_frame:
  assumes "kernel_ok K" "createNewHeapForRtld K m = Inr (addr, m')" "addr \<noteq> 0"
  shows "\<not> in_range addr 0x64000 x \<Longrightarrow> mem m' x = mem m x \<and> prot_at m' x = prot_at m x"
    and "in_range addr 0x64000 x \<Longrightarrow> prot_at m x = None"
    and "files m' = files m" "no_wrap addr 0x64000"
proof -
  obtain m1 rc m2 where s: "placement_ok (prot_at m) 0 0x64000 (MAP_PRIVATE OR MAP_ANONYMOUS) addr"
    "mapped addr 0x64000 (PROT_READ OR PROT_WRITE) (MAP_PRIVATE OR MAP_ANONYMOUS) (-1) 0 m m1"
    "sys_mprotect K addr 0x1000 PROT_NONE m1 = (rc, m2)"
    "m' = setUhBrk (addr + 0x1000) (setEndOfHeap (addr + 0x64000) m2)"
    by (rule createNewHeap_steps [OF assms])
  show "in_range addr 0x64000 x \<Longrightarrow> prot_at m x = None" "no_wrap addr 0x64000"
    using s(1) heap_pages by (auto simp: placement_ok_def has_flag_def flag_defs)
  show "mem m' x = mem m x \<and> prot_at m' x = prot_at m x" if x: "\<not> in_range addr 0x64000 x"
  proof -
    have "\<not> in_range addr 0x1000 x" using x by (auto simp: in_range_def word_less_nat_alt)
    then show ?thesis
      using x s(2,3) heap_pages
      by (auto simp: s(4) setUhBrk_def setEndOfHeap_def mapped_def sys_mprotect_def split: if_splits)
  qed
  show "files m' = files m"
    using s(2,3) by (auto simp: s(4) setUhBrk_def setEndOfHeap_def mapped_def same_globals_def sys_mprotect_def split: if_splits)
qed

lemma createNewHeap_heap:
  assumes "kernel_ok K" "createNewHeapForRtld K m = Inr (addr, m')" "addr \<noteq> 0"
  shows "heap_ok (addr + 0x1000) m'" "curbrk m' = addr + 0x1000" "endOfHeap m' = addr + 0x64000"
    and "addr + 0x1000 \<le> x \<Longrightarrow> x < addr + 0x64000 \<Longrightarrow> mem m' x = 0"
proof -
  let ?fl = "MAP_PRIVATE OR MAP_ANONYMOUS"
  define r where "r = addr"
  obtain m1 rc m2 where pl: "placement_ok (prot_at m) 0 0x64000 ?fl r"
    and mpd: "mapped r 0x64000 (PROT_READ OR PROT_WRITE) ?fl (-1) 0 m m1"
    and mp: "sys_mprotect K r 0x1000 PROT_NONE m1 = (rc, m2)"
    and m': "m' = setUhBrk (r + 0x1000) (setEndOfHeap (r + 0x64000) m2)"
    unfolding r_def by (rule createNewHeap_steps [OF assms])
  note len = heap_pages
  have r: "addr = r" "r \<noteq> MAP_FAILED" "page_aligned r" "no_wrap r 0x64000" "r \<noteq> 0"
    and mapped: "\<And>x. in_range r 0x64000 x \<Longrightarrow> mem m1 x = 0 \<and> prot_at m1 x = Some (PROT_READ OR PROT_WRITE)"
    using pl mpd MAP_FAILED_unaligned
    by (auto simp: r_def placement_ok_def mapped_def len mapped_byte_def has_flag_def flag_defs)
  have m2: "mem m2 = mem m1" "\<And>x. r + 0x1000 \<le> x \<Longrightarrow> in_range r 0x64000 x \<Longrightarrow> prot_at m2 x = prot_at m1 x"
  proof -
    show "mem m2 = mem m1" using mp by (auto simp: sys_mprotect_def split: if_splits)
    fix x assume x: "r + 0x1000 \<le> x" "in_range r 0x64000 x"
    have "no_wrap r 0x1000" using r(4) by (simp add: no_wrap_def)
    from unat_end [OF this] in_range_unat [OF this] have "\<not> in_range r 0x1000 x" using x(1) by (simp add: word_le_nat_alt)
    then show "prot_at m2 x = prot_at m1 x" using mp len(2) by (auto simp: sys_mprotect_def split: if_splits)
  qed
  have "no_wrap r 0x1000" using r(4) by (simp add: no_wrap_def)
  then have u: "unat (r + 0x1000) = unat r + 0x1000" "unat (r + 0x64000) = unat r + 0x64000"
    using unat_end r(4) by fastforce+
  have al: "page_aligned (r + 0x64000)"
  proof -
    have "unat (r + 0x64000) mod 4096 = (unat r + 100 * 4096) mod 4096" using u(2) by simp
    then show ?thesis using r(3) by (simp only: page_aligned_iff mod_mult_self1)
  qed
  have in_r: "in_range r 0x64000 x" if "r + 0x1000 \<le> x" "x < r + 0x64000" for x
    using that unfolding in_range_unat [OF r(4)] word_le_nat_alt word_less_nat_alt u by simp
  show brk: "curbrk m' = addr + 0x1000" and end_: "endOfHeap m' = addr + 0x64000"
    using r(1) ROUND_UP_aligned [OF al] by (simp_all add: m' setUhBrk_def setEndOfHeap_def)
  show "mem m' x = 0" if "addr + 0x1000 \<le> x" "x < addr + 0x64000"
    using that mapped in_r m2(1) r(1) by (simp add: m' setUhBrk_def setEndOfHeap_def)
  have "prot_at m' x = Some (PROT_READ OR PROT_WRITE)" if "addr + 0x1000 \<le> x" "x < addr + 0x64000" for x
    using that mapped in_r m2(2) r(1) by (simp add: m' setUhBrk_def setEndOfHeap_def)
  moreover have "addr + 0x1000 \<noteq> 0" "addr + 0x1000 \<le> addr + 0x64000"
    using u unfolding r(1) by (auto simp: word_le_nat_alt word_unat_eq_iff)
  ultimately show "heap_ok (addr + 0x1000) m'"
    using al r(1) unfolding heap_ok_def heap_mapped_def brk end_ by simp
qed

text \<open>
  C36. The heap of the runtime loader is ready for \<open>sbrk\<close>: after a successful \<open>createNewHeapForRtld\<close> the
  break lies one page behind the start of a zeroed heap of 99 pages, and along every run of \<open>sbrk\<close> calls,
  negative increments included, the heap stays mapped from that address to its end and the break is that address plus the
  increments granted; the heap is well formed whenever the break is not below its base.
\<close>

theorem createNewHeap_then_sbrk:
  assumes "kernel_ok K" "createNewHeapForRtld K m = Inr (addr, m1)" "addr \<noteq> 0"
    and "sbrk_run K m1 tr m2"
  shows "curbrk m1 = addr + 0x1000 \<and> endOfHeap m1 = addr + 0x64000 \<and>
    (\<forall>x. addr + 0x1000 \<le> x \<longrightarrow> x < addr + 0x64000 \<longrightarrow> mem m1 x = 0) \<and>
    heap_mapped (addr + 0x1000) m2 \<and> uint (curbrk m2) = uint (addr + 0x1000) + granted tr \<and>
    (0 \<le> granted tr \<longrightarrow> heap_ok (addr + 0x1000) m2)"
proof -
  note heap = createNewHeap_heap [OF assms(1-3)]
  have run: "heap_mapped (addr + 0x1000) m2" "uint (curbrk m2) = uint (addr + 0x1000) + granted tr"
    using sbrk_run_invariant [OF assms(4,1) heap_ok_mapped [OF heap(1)]] heap(2) by simp_all
  have "addr + 0x1000 \<noteq> 0" using heap(1) by (simp add: heap_ok_def)
  then have "0 \<le> granted tr \<Longrightarrow> heap_ok (addr + 0x1000) m2" using run by (simp add: heap_ok_def word_le_def)
  then show ?thesis using heap run by simp
qed

section \<open>The address file\<close>

definition wrapper_info :: "kernel \<Rightarrow> u64 \<Rightarrow> LowerHalfInfo" where
  "wrapper_info K fs = \<lparr>lhSbrk = k_sym K ''sbrkWrapper'', lhMmap = k_sym K ''mmapWrapper'',
     lhDlsym = k_sym K ''lhDlsym'', lhFsAddr = fs, lhMmapListFptr = k_sym K ''getMmappedList''\<rparr>"

lemma setup_published:
  assumes "k_creat K LH_FILE_NAME" "k_answers K LH_FILE_NAME = []"
  shows "\<exists>old. setupLowerHalfInfo K m = (0, m\<lparr>lhInfo := wrapper_info K (fs_base m),
      files := (files m)(LH_FILE_NAME \<mapsto> lhinfo_bytes (wrapper_info K (fs_base m)) @ old)\<rparr>)"
proof -
  let ?c = "case files m LH_FILE_NAME of None \<Rightarrow> [] | Some c \<Rightarrow> c"
  have len: "length (lhinfo_bytes i) = 40" for i using lhinfo_codec.length_enc by simp
  then have ne: "lhinfo_bytes i \<noteq> []" for i by (metis list.size(3) zero_neq_numeral)
  have "setupLowerHalfInfo K m = (0, m\<lparr>lhInfo := wrapper_info K (fs_base m),
      files := (files m)(LH_FILE_NAME \<mapsto> lhinfo_bytes (wrapper_info K (fs_base m)) @ drop 40 ?c)\<rparr>)"
    using assms len ne
    by (simp add: setupLowerHalfInfo_def writeLhInfoToFile_def sys_write.simps put_def store_at_def
        wrapper_info_def Let_def)
  then show ?thesis by blast
qed

text \<open>
  C37. The hand-over between the halves: what \<open>setupLowerHalfInfo\<close> writes is what \<open>readLhInfoAddr\<close> of the upper
  half reads, the addresses of the four functions and the \<open>fs\<close> base of the lower half, whatever an
  older file held; afterwards the file is gone and nothing else has changed.
\<close>

theorem lhinfo_handover:
  fixes m :: "'a process_scheme"
  assumes "k_creat K LH_FILE_NAME" "k_answers K LH_FILE_NAME = []"
  shows "\<exists>m1. setupLowerHalfInfo K m = (0, m1) \<and> lhInfo m1 = wrapper_info K (fs_base m) \<and>
    readLhInfoAddr K m1 = Inr (m\<lparr>lhInfo := wrapper_info K (fs_base m),
      uh_lhInfo := wrapper_info K (fs_base m), files := (files m)(LH_FILE_NAME := None)\<rparr>)"
proof -
  obtain old where s: "setupLowerHalfInfo K m = (0, m\<lparr>lhInfo := wrapper_info K (fs_base m),
      files := (files m)(LH_FILE_NAME \<mapsto> lhinfo_bytes (wrapper_info K (fs_base m)) @ old)\<rparr>)"
    using setup_published [OF assms] by blast
  let ?m1 = "snd (setupLowerHalfInfo K m)"
  have "readLhInfoAddr K ?m1 = Inr (?m1\<lparr>uh_lhInfo := wrapper_info K (fs_base m), files := (files ?m1)(LH_FILE_NAME := None)\<rparr>)"
    by (rule readLhInfoAddr_prefix [OF _ assms(2), where old = old]) (simp add: s)
  then show ?thesis using s by simp
qed

section \<open>The stack\<close>

lemma stack_image_cong:
  assumes "\<forall>k l. k + l \<le> n \<longrightarrow> peek m' (S + of_nat k) l = peek m (S + of_nat k) l" "stack_image m S n tk args env aux"
  shows "stack_image m' S n tk args env aux"
proof -
  have "tk + 8 + 4 \<le> n" using assms(2) by (auto simp: stack_image_def length_vectors)
  then have "peek m' (S + of_nat (tk + 8)) 4 = peek m (S + of_nat (tk + 8)) 4" using assms(1) by blast
  then show ?thesis
    using assms(2) words_copy [OF assms(1)] str_at_copy [OF assms(1)] unfolding stack_image_def by metis
qed

text \<open>The stack region of the process, whole pages below the end of the address space.\<close>

definition stack_region :: "'a machine_scheme \<Rightarrow> maps_entry \<Rightarrow> va \<Rightarrow> nat \<Rightarrow> bool" where
  "stack_region m st S n \<longleftrightarrow> e_start st = S \<and> unat (e_end st - e_start st) = n \<and> e_start st \<le> e_end st \<and> S \<noteq> 0 \<and>
     n < 2 ^ 62 \<and> all_prot PROT_READ m S n"

definition stack_start :: "kernel \<Rightarrow> 'a machine_scheme \<Rightarrow> va \<Rightarrow> bool" where
  "stack_start K m p \<longleftrightarrow> (\<exists>fs. stat_line K m (join_fields fs) \<and> list_all field_ok fs \<and> STARTSTACK < length fs \<and>
     length (fs ! STARTSTACK) < 20 \<and> atol (fs ! STARTSTACK) = p)"

lemma stack_start_reads:
  assumes "stack_start K m p"
  shows "atol (cstr (getProcStatField K STARTSTACK (replicate 20 0) m @ r)) = p"
proof -
  obtain fs where fs: "stat_line K m (join_fields fs)" "list_all field_ok fs" "STARTSTACK < length fs"
    "length (fs ! STARTSTACK) < 20" "atol (fs ! STARTSTACK) = p"
    using assms by (auto simp: stack_start_def)
  let ?f = "fs ! STARTSTACK"
  have "getProcStatField K STARTSTACK (replicate 20 0) m = strncpy ?f 20"
    using getProcStatField_tokens [OF fs(1), of STARTSTACK "replicate 20 0"] fs(2,3) by (simp add: tokens_join)
  also have "\<dots> = ?f @ 0 # replicate (19 - length ?f) 0"
    using fs(4) by (simp add: strncpy_def min_def flip: replicate_Suc)
  finally have "getProcStatField K STARTSTACK (replicate 20 0) m @ r = ?f @ 0 # (replicate (19 - length ?f) 0 @ r)" by simp
  moreover have "0 \<notin> set ?f" using fs(2,3) by (auto simp: list_all_length field_ok_def)
  ultimately show ?thesis using fs(5) by (simp add: cstr_append_nul)
qed

definition stack_request :: "kernel \<Rightarrow> layout \<Rightarrow> u64 \<Rightarrow> va option" where
  "stack_request K P len = k_place K P 0 len (PROT_READ OR PROT_WRITE)
     (MAP_GROWSDOWN OR MAP_PRIVATE OR MAP_ANONYMOUS) (-1) 0"

lemma new_region_ok:
  assumes "kernel_ok K" "stack_request K (prot_at m) len = Some N" "unat len = n" "stack_region m st S n"
    and "mapped N len (PROT_READ OR PROT_WRITE) (MAP_GROWSDOWN OR MAP_PRIVATE OR MAP_ANONYMOUS) (-1) 0 m m1"
  shows "stacks_ok m1 S N n" "N \<noteq> 0" "N \<noteq> MAP_FAILED"
    and "\<forall>k l. k + l \<le> n \<longrightarrow> peek m1 (S + of_nat k) l = peek m (S + of_nat k) l"
proof -
  let ?fl = "MAP_GROWSDOWN OR MAP_PRIVATE OR MAP_ANONYMOUS"
  have pl: "placement_ok (prot_at m) 0 len ?fl N"
    using kernel_ok_place [OF assms(1)] assms(2) by (simp add: stack_request_def)
  then show "N \<noteq> 0" and "N \<noteq> MAP_FAILED" using MAP_FAILED_unaligned by (auto simp: placement_ok_def)
  have free: "\<And>x. in_range N (ROUND_UP len) x \<Longrightarrow> prot_at m x = None" and nw: "no_wrap N (ROUND_UP len)"
    and small: "unat len + 4095 < 2 ^ 64"
    using pl by (auto simp: placement_ok_def has_flag_def flag_defs)
  have n: "n \<le> unat (ROUND_UP len)" using ROUND_UP_bounds(1) [OF small] assms(3) by simp
  have S: "n < 2 ^ 62" "all_prot PROT_READ m S n" "unat S + n < 2 ^ 64"
  proof -
    have "unat S + n = unat (e_end st)" using assms(4) by (auto simp: stack_region_def unat_sub word_le_nat_alt)
    then show "unat S + n < 2 ^ 64" using unat_u64 [of "e_end st"] by simp
  qed (use assms(4) in \<open>simp_all add: stack_region_def\<close>)
  have out: "\<not> in_range N (ROUND_UP len) (S + of_nat i)" if "i < n" for i
    using free S(2) that unfolding all_prot_iff by fastforce
  have eq: "mem m1 (S + of_nat i) = mem m (S + of_nat i) \<and> prot_at m1 (S + of_nat i) = prot_at m (S + of_nat i)"
    if "i < n" for i using assms(5) out [OF that] by (simp add: mapped_def)
  have rS: "all_prot PROT_READ m1 S n" using S(2) eq by (simp add: all_prot_iff)
  have rwN: "all_prot q m1 N n" if "has_flag (PROT_READ OR PROT_WRITE) q" for q
    using assms(5) that n by (intro all_prot_range [where n = "ROUND_UP len"]) (auto simp: mapped_def)
  have "apart S N n"
    unfolding apart_def
  proof (intro allI impI notI)
    fix i j assume ij: "i < n" "j < n" "S + of_nat i = N + of_nat j"
    have "in_range N (ROUND_UP len) (N + of_nat j)" using in_range_of_nat ij(2) n by simp
    then show False using out [OF ij(1)] ij(3) by simp
  qed
  moreover have "unat N + n < 2 ^ 64" using nw n by (simp add: no_wrap_def)
  ultimately show "stacks_ok m1 S N n"
    using S rS rwN by (simp add: stacks_ok_def region_ok_def has_flag_def flag_defs)
  show "\<forall>k l. k + l \<le> n \<longrightarrow> peek m1 (S + of_nat k) l = peek m (S + of_nat k) l"
  proof (intro allI impI peek_eqI)
    fix k l i assume "k + l \<le> n" "i < l"
    then have "mem m1 (S + of_nat (k + i)) = mem m (S + of_nat (k + i))" using eq [of "k + i"] by linarith
    then show "mem m1 (S + of_nat k + of_nat i) = mem m (S + of_nat k + of_nat i)" by (simp only: off_add)
  qed
qed

text \<open>What the call needs of the process, and what it promises.\<close>

definition stack_given :: "kernel \<Rightarrow> 'a machine_scheme \<Rightarrow> va \<Rightarrow> maps_entry \<Rightarrow> va \<Rightarrow> nat \<Rightarrow> nat \<Rightarrow> (nat \<times> byte list) list \<Rightarrow>
    (nat \<times> byte list) list \<Rightarrow> (u64 \<times> u64) list \<Rightarrow> bool" where
  "stack_given K m environ st S n tk args env aux \<longleftrightarrow> stack_region m st S n \<and>
     stack_start K m (S + of_nat (tk + 8)) \<and> stack_image m S n tk args env aux \<and>
     strings_apart (args @ env) \<and> args \<noteq> [] \<and> env_entry ''TARGET_LD'' env \<noteq> None \<and>
     env_entry ''UH_PRELOAD'' env \<noteq> None \<and> environ = S + of_nat (tk + 24 + 8 * length args)"

definition stack_made :: "DynObjInfo \<Rightarrow> va \<Rightarrow> u64 \<Rightarrow> nat \<Rightarrow> (nat \<times> byte list) list \<Rightarrow> (nat \<times> byte list) list \<Rightarrow>
    (u64 \<times> u64) list \<Rightarrow> 'a lower_half_scheme \<Rightarrow> 'a lower_half_scheme \<Rightarrow> bool" where
  "stack_made info N len tk args env aux m m' \<longleftrightarrow>
     stack_image m' N (unat len) tk (ld_arg env # tl args) (rename_first env)
       (map (patch_entry (phnum info) (phdr info) (entryPoint info)) aux) \<and>
     (\<forall>i < tk. mem m' (N + of_nat i) = 0) \<and>
     (\<forall>x. \<not> in_range N (ROUND_UP len) x \<longrightarrow> mem m' x = mem m x) \<and>
     prot_at m' = (\<lambda>x. if in_range N (ROUND_UP len) x then Some (PROT_READ OR PROT_WRITE) else prot_at m x) \<and>
     same_globals (record_region N len m) m'"

lemma createNewStack_made:
  assumes K: "kernel_ok K" "stack_listed K sp m st" "stack_request K (prot_at m) (e_end st - e_start st) = Some N"
    and g: "stack_given K m environ st S n tk args env aux"
  shows "\<exists>m'. createNewStackForRtld K environ sp info m = Inr (N + of_nat (tk + 8), m') \<and>
    stack_made info N (e_end st - e_start st) tk args env aux m m'"
proof -
  let ?len = "e_end st - e_start st" and ?fl = "MAP_GROWSDOWN OR MAP_PRIVATE OR MAP_ANONYMOUS"
  note gd = g [unfolded stack_given_def]
  have reg: "stack_region m st S n" "unat ?len = n" "e_start st = S" "S \<noteq> 0"
    using gd by (auto simp: stack_region_def)
  have n: "tk + 8 + 4 \<le> n" using gd by (auto simp: stack_image_def length_vectors)
  have "?len \<noteq> 0" using n reg(2) by (metis add_is_0 le_zero_eq unat_0 zero_neq_numeral)
  moreover have "N \<noteq> MAP_FAILED"
    using kernel_ok_place [OF K(1)] K(3) MAP_FAILED_unaligned by (auto simp: stack_request_def placement_ok_def)
  ultimately obtain m1 where w: "mmapWrapper K 0 ?len (PROT_READ OR PROT_WRITE) ?fl (-1) 0 m = Inr (N, m1)"
    and mp: "mapped N ?len (PROT_READ OR PROT_WRITE) ?fl (-1) 0 m m1"
    using mmapWrapper_granted [OF anonymous_quiet [of m], of 0 ?len ?fl K 0 "PROT_READ OR PROT_WRITE" N] K(3)
    by (auto simp: stack_request_def map_fixed_flags)
  note new = new_region_ok [OF K(1,3) reg(2,1) mp]
  have im: "stack_image m1 S n tk args env aux" using stack_image_cong [OF new(4)] gd by blast
  obtain a where a: "getStackRegion K sp (area_of_bytes (k_stale K sizeof_Area)) m = Inr a" "a_addr a = S" "a_size a = ?len"
    using stack_found [OF K(2)] reg(3) by blast
  have files: "files m1 = files m" using mp by (simp add: mapped_def same_globals_def)
  then have "stack_start K m1 (S + of_nat (tk + 8))" using gd by (simp add: stack_start_def stat_line_def)
  note start = stack_start_reads [OF this, of "k_stale K 20"]
  have ends: "S + of_nat (tk + 8) - 8 = S + of_nat tk" "N + (S + of_nat tk - S) = N + of_nat tk" by simp_all
  obtain m' where m': "deepCopyStack environ N S ?len (N + of_nat tk) (S + of_nat tk) info m1 = Inr (N + of_nat (tk + 8), m')"
    "changes N n UNIV m1 m'"
    "stack_image m' N n tk (ld_arg env # tl args) (rename_first env)
      (map (patch_entry (phnum info) (phdr info) (entryPoint info)) aux)" "\<forall>i < tk. mem m' (N + of_nat i) = 0"
    using deepCopyStack_image [OF new(1) reg(2) im, of environ info] gd new(2) reg(4) by blast
  have run: "createNewStackForRtld K environ sp info m = Inr (N + of_nat (tk + 8), m')"
    using m'(1) new(3) unfolding createNewStackForRtld_def
    by (simp only: a w start ends andThen.simps split_conv Let_def if_False)
  have small: "unat ?len + 4095 < 2 ^ 64"
    using kernel_ok_place [OF K(1)] K(3) by (auto simp: stack_request_def placement_ok_def)
  have same: "m' = m1\<lparr>mem := mem m'\<rparr>" using m'(2) by (simp add: changes_def)
  have "mem m' x = mem m1 x" if "\<not> in_range N (ROUND_UP ?len) x" for x
  proof (rule ccontr)
    assume "mem m' x \<noteq> mem m1 x"
    then obtain k where "k < n" "x = N + of_nat k" using m'(2) by (auto simp: changes_def)
    then show False using that in_range_of_nat [of k "ROUND_UP ?len" N] ROUND_UP_bounds(1) [OF small] reg(2) by simp
  qed
  then have "stack_made info N ?len tk args env aux m m'"
    using m'(3,4) mp reg(2) changes_prot [OF m'(2)] same_globals_trans [of "record_region N ?len m" m1 m']
      same_globals_machine(1) [of m1 "mem m'"] same
    by (simp add: stack_made_def mapped_def)
  then show ?thesis using run by blast
qed

text \<open>
  C5. The stack of the runtime loader: \<open>createNewStackForRtld\<close> finds the stack of the process in
  \<open>/proc/self/maps\<close> and its start in \<open>/proc/self/stat\<close>, and returns the address of \<open>argc\<close> of a
  well-formed initial stack in fresh pages, a copy in which the pointers are moved along, \<open>argv[0]\<close> is the runtime loader,
  \<open>UH_PRELOAD\<close> is renamed and the auxiliary vector describes the runtime loader. The new
  region is readable and writable and recorded in the table; nothing else changes.
\<close>

theorem createNewStackForRtld_stack:
  assumes "kernel_ok K" "stack_listed K sp m st" "stack_request K (prot_at m) (e_end st - e_start st) = Some N"
    and "stack_given K m environ st S n tk args env aux"
  shows "\<exists>m'. createNewStackForRtld K environ sp info m = Inr (N + of_nat (tk + 8), m') \<and>
    stack_made info N (e_end st - e_start st) tk args env aux m m'"
  by (rule createNewStack_made [OF assms])

section \<open>A process about to run\<close>

text \<open>A kernel that places a mapping at the lowest address where its manual page allows it.\<close>

definition first_fit :: "layout \<Rightarrow> va \<Rightarrow> u64 \<Rightarrow> u32 \<Rightarrow> va option" where
  "first_fit P addr len flags = find (placement_ok P addr len flags) (map (\<lambda>i. of_nat (4096 * i)) [0..<2 ^ 52])"

definition loader_kernel :: kernel where
  "loader_kernel = rank_kernel\<lparr>k_place := (\<lambda>P addr len prot flags fd off.
     if has_flag flags MAP_FIXED then if placement_ok P addr len flags addr then Some addr else None
     else first_fit P addr len flags)\<rparr>"

text \<open>A kernel that refuses a mapping without a fixed address only when there is no room for it.\<close>

definition grants_free :: "kernel \<Rightarrow> bool" where
  "grants_free K \<longleftrightarrow> (\<forall>P len p fl r. len \<noteq> 0 \<longrightarrow> \<not> has_flag fl MAP_FIXED \<longrightarrow> placement_ok P 0 len fl r \<longrightarrow>
     (\<exists>r'. k_place K P 0 len p fl (-1) 0 = Some r'))"

lemma first_fit_sound: "first_fit P addr len flags = Some r \<Longrightarrow> placement_ok P addr len flags r"
  by (auto simp: first_fit_def dest: find_SomeD)

lemma first_fit_complete:
  assumes "placement_ok P addr len flags r" shows "\<exists>r'. first_fit P addr len flags = Some r'"
proof -
  obtain i where i: "unat r = 4096 * i" using assms by (auto simp: placement_ok_def page_aligned_iff mod_eq_0_iff_dvd)
  then have "i < 2 ^ 52" using unat_u64 [of r] by simp
  moreover have "of_nat (unat r) = r" by simp
  then have "r = of_nat (4096 * i)" by (simp only: i)
  ultimately have "r \<in> set (map (\<lambda>i. of_nat (4096 * i)) [0..<2 ^ 52])" by auto
  then have "find (placement_ok P addr len flags) (map (\<lambda>i. of_nat (4096 * i)) [0..<2 ^ 52]) \<noteq> None"
    using assms unfolding find_None_iff by blast
  then show ?thesis by (auto simp: first_fit_def)
qed

lemma loader_kernel_places:
  "k_place loader_kernel = (\<lambda>P addr len prot flags fd off.
     if has_flag flags MAP_FIXED then if placement_ok P addr len flags addr then Some addr else None
     else first_fit P addr len flags)"
  "k_mprotect loader_kernel = k_mprotect plain_kernel" "k_brk_fails loader_kernel = k_brk_fails plain_kernel"
  by (simp_all add: loader_kernel_def rank_kernel_def)

lemma loader_kernel_ok:
  "kernel_ok loader_kernel" "grants_at loader_kernel" "grants_free loader_kernel" "grants_mprotect loader_kernel"
  "\<not> k_brk_fails loader_kernel"
proof -
  have "placement_ok P addr len flags r"
    if "k_place loader_kernel P addr len prot flags fd off = Some r" for P addr len prot flags fd off r
    using that first_fit_sound unfolding loader_kernel_places by (simp split: if_splits)
  then show "kernel_ok loader_kernel"
    using plain_kernel_ok unfolding kernel_ok_def loader_kernel_places(2) by blast
  show "grants_at loader_kernel" by (simp add: grants_at_def loader_kernel_places)
  show "grants_free loader_kernel"
    unfolding grants_free_def loader_kernel_places using first_fit_complete by simp
  show "grants_mprotect loader_kernel"
    using plain_grants_mprotect unfolding grants_mprotect_def loader_kernel_places(2) .
  show "\<not> k_brk_fails loader_kernel" unfolding loader_kernel_places(3) by (simp add: plain_kernel_def)
qed

lemma loader_kernel_regions: "knows_regions loader_kernel 0x7ffff8001000 vvar_entry vdso_entry stack_entry"
  using rank_kernel_regions by (simp add: knows_regions_def stale_ok_def loader_kernel_def)

lemma loader_kernel_maps_ok: "maps_ok loader_kernel"
  using rank_kernel_maps_ok by (simp add: maps_ok_def stale_ok_def loader_kernel_def)

text \<open>
  The process as the kernel starts it: an initial stack at \<open>0x7ffff8001008\<close> with two arguments, the three
  variables and three entries of the auxiliary vector, its status line, and the runtime loader on disk.
\<close>

definition start_args :: "(nat \<times> byte list) list" where
  "start_args = [(4224, bytes_of ''k''), (4226, bytes_of ''t'')]"

definition start_env :: "(nat \<times> byte list) list" where
  "start_env = [(4228, bytes_of ''TARGET_LD='' @ ld_name), (4256, bytes_of ''UH_PRELOAD=/u.so''), (4273, bytes_of ''RANK_ID=1'')]"

definition start_aux :: "(u64 \<times> u64) list" where
  "start_aux = [(3, 64), (5, 9), (9, 0x400)]"

definition start_strings :: "byte list" where
  "start_strings = concat (map (\<lambda>e. snd e @ [0]) (start_args @ start_env))"

definition start_bytes :: "byte list" where
  "start_bytes = le_bytes 8 (2 :: u64) @
     concat (map (le_bytes 8) (vectors 0x7ffff8000000 start_args start_env start_aux)) @ start_strings"

definition start_line :: "byte list list" where
  "start_line = stat_fields [27 := bytes_of ''140737354141704'']"

definition start_process :: process where
  "start_process = poke (0x7ffff8000000 + of_nat 4104) start_bytes
     \<lparr>mem = (\<lambda>x. 0), prot_at = (\<lambda>x. if in_range 0x7ffff8000000 0x2000 x then Some 3
        else if in_range 0x7ffff0000000 0x3000 x then Some 1 else if in_range 0x7ffff0003000 0x2000 x then Some 5 else None),
      fs_base = 0x1000, files = [ld_name \<mapsto> ld_file, proc_stat \<mapsto> join_fields start_line],
      fds = (\<lambda>fd. if 0 \<le> fd \<and> fd < 3 then Some [] else None),
      numRegions = 0, mmaps = replicate MAX_TRACK \<lparr>mi_addr = 0, mi_len = 0\<rparr>, curbrk = 0, endOfHeap = 0,
      lhInfo = \<lparr>lhSbrk = 0, lhMmap = 0, lhDlsym = 0, lhFsAddr = 0, lhMmapListFptr = 0\<rparr>,
      uh_lhInfo = \<lparr>lhSbrk = 0, lhMmap = 0, lhDlsym = 0, lhFsAddr = 0, lhMmapListFptr = 0\<rparr>,
      initialized = False, ckpt_img = []\<rparr>"

lemma start_regions: "regions_mapped vvar_entry vdso_entry stack_entry (prot_at start_process)"
  by (simp add: regions_mapped_def in_special)
     (auto simp: start_process_def entry_prot_def region_entries in_range_unat no_wrap_def flag_defs)

lemma start_parts:
  "length (concat (map (le_bytes 8) (vectors 0x7ffff8000000 start_args start_env start_aux))) = 112"
  "length start_strings = 59" "length start_bytes = 179"
  "take 112 (drop 8 start_bytes) = concat (map (le_bytes 8) (vectors 0x7ffff8000000 start_args start_env start_aux))"
  "drop (120 + j) start_bytes = drop j start_strings" "take 8 start_bytes = le_bytes 8 (2 :: u64)"
proof -
  have "length (concat (map (le_bytes 8) ws)) = 8 * length ws" for ws :: "u64 list"
    by (induction ws) simp_all
  then show v: "length (concat (map (le_bytes 8) (vectors 0x7ffff8000000 start_args start_env start_aux))) = 112"
    by (simp add: length_vectors start_args_def start_env_def start_aux_def)
  show s: "length start_strings = 59"
    by (simp add: start_strings_def start_args_def start_env_def ld_name_def)
  show "length start_bytes = 179" "drop (120 + j) start_bytes = drop j start_strings"
    "take 112 (drop 8 start_bytes) = concat (map (le_bytes 8) (vectors 0x7ffff8000000 start_args start_env start_aux))"
    "take 8 start_bytes = le_bytes 8 (2 :: u64)"
    using s by (simp_all add: start_bytes_def v)
qed

lemma start_peek:
  assumes "4104 \<le> i" "i + l \<le> 4283"
  shows "peek start_process (0x7ffff8000000 + of_nat i) l = take l (drop (i - 4104) start_bytes)"
  unfolding start_process_def
  by (rule peek_poke_same) (use assms in \<open>simp_all add: start_parts(3)\<close>)

lemma start_fields: "stack_start loader_kernel start_process 0x7ffff8001008"
  unfolding stack_start_def
proof (intro exI [of _ start_line] conjI)
  have "start_line \<noteq> [] \<and> length (join_fields start_line) = 83 \<and> 0 \<notin> set (join_fields start_line)" by code_simp
  moreover have "proc_stat \<noteq> ld_name" by code_simp
  ultimately show "stat_line loader_kernel start_process (join_fields start_line)"
    by (auto simp: stat_line_def start_process_def loader_kernel_def rank_kernel_def plain_kernel_def)
  show "list_all field_ok start_line" "STARTSTACK < length start_line" "length (start_line ! STARTSTACK) < 20"
    "atol (start_line ! STARTSTACK) = 0x7ffff8001008"
    by code_simp+
qed

lemma start_region: "stack_region start_process stack_entry 0x7ffff8000000 8192"
proof -
  have "all_prot PROT_READ start_process 0x7ffff8000000 8192"
    by (intro all_prot_range [where n = "0x2000"]) (simp_all add: start_process_def has_flag_def PROT_READ_def)
  then show ?thesis by (simp add: stack_region_def region_entries word_le_nat_alt)
qed

lemma start_image: "stack_image start_process 0x7ffff8000000 8192 4096 start_args start_env start_aux"
proof -
  let ?v = "vectors 0x7ffff8000000 start_args start_env start_aux"
  let ?ok = "\<lambda>e. take (Suc (length (snd e))) (drop (fst e - 4224) start_strings) = snd e @ [0] \<and> 4224 \<le> fst e \<and>
      fst e + length (snd e) < 4283 \<and> 0 \<notin> set (snd e)"
  have v: "length ?v = 14" by (simp add: length_vectors start_args_def start_env_def start_aux_def)
  have "peek start_process (0x7ffff8000000 + of_nat 4104) 4 = take 4 (drop (4104 - 4104) start_bytes)"
    by (rule start_peek) simp_all
  moreover have "take 4 (take 8 start_bytes) = take 4 (le_bytes 8 (2 :: u64))" by (simp only: start_parts(6))
  then have "take 4 (drop (4104 - 4104) start_bytes) = take 4 (le_bytes 8 (2 :: u64))" by simp
  moreover have "le_word (take 4 (le_bytes 8 (2 :: u64))) = (2 :: u32)" by code_simp
  ultimately have argc: "le_word (peek start_process (0x7ffff8000000 + of_nat 4104) 4) = (2 :: u32)" by metis
  have "peek start_process (0x7ffff8000000 + of_nat 4112) 112 = take 112 (drop (4112 - 4104) start_bytes)"
    by (rule start_peek) simp_all
  moreover have "take 112 (drop (4112 - 4104) start_bytes) = concat (map (le_bytes 8) ?v)" using start_parts(4) by simp
  ultimately have words: "words start_process 0x7ffff8000000 4112 ?v" by (intro words_bytes) (simp add: v)
  have "str_at start_process 0x7ffff8000000 8192 e" if "?ok e" for e
  proof -
    have "fst e - 4104 = 120 + (fst e - 4224)" using that by simp
    then have "drop (fst e - 4104) start_bytes = drop (fst e - 4224) start_strings" by (simp only: start_parts(5))
    then show ?thesis using that start_peek [of "fst e" "Suc (length (snd e))"] by (cases e) simp
  qed
  moreover have "list_all ?ok (start_args @ start_env)"
    by (simp add: start_strings_def start_args_def start_env_def bytes_of_def ld_name_def)
  ultimately have "\<forall>e \<in> set (start_args @ start_env). str_at start_process 0x7ffff8000000 8192 e \<and> 4224 \<le> fst e"
    unfolding list_all_iff by blast
  then show ?thesis
    using argc words by (simp add: stack_image_def v) (simp add: start_args_def start_aux_def)
qed

lemma start_given:
  "stack_given loader_kernel start_process 0x7ffff8001028 stack_entry 0x7ffff8000000 8192 4096 start_args start_env start_aux"
proof -
  have "strings_apart (start_args @ start_env)"
    by (auto simp: strings_apart_def extent_def start_args_def start_env_def bytes_of_def ld_name_def)
  moreover have "env_entry ''TARGET_LD'' start_env \<noteq> None" "env_entry ''UH_PRELOAD'' start_env \<noteq> None"
    by code_simp+
  ultimately show ?thesis
    using start_region start_fields start_image by (simp add: stack_given_def) (simp add: start_args_def)
qed

lemma room:
  assumes "grants_free K" "kernel_ok K" "len \<noteq> 0" "\<not> has_flag fl MAP_FIXED" "page_aligned r" "r \<noteq> 0"
    "unat r + unat (ROUND_UP len) < 2 ^ 64" "unat len + 4095 < 2 ^ 64"
    "\<And>x. in_range r (ROUND_UP len) x \<Longrightarrow> P x = None"
  obtains r' where "k_place K P 0 len p fl (-1) 0 = Some r'" "placement_ok P 0 len fl r'"
proof -
  have "placement_ok P 0 len fl r" using assms(4-9) by (simp add: placement_ok_def no_wrap_def)
  then obtain r' where "k_place K P 0 len p fl (-1) 0 = Some r'" using assms(1,3,4) unfolding grants_free_def by blast
  then show thesis using that kernel_ok_place [OF assms(2)] by blast
qed

lemma heap_flags: "\<not> has_flag (MAP_PRIVATE OR MAP_ANONYMOUS) MAP_FIXED" "has_flag (MAP_PRIVATE OR MAP_ANONYMOUS) MAP_ANONYMOUS"
  "\<not> has_flag (MAP_GROWSDOWN OR MAP_PRIVATE OR MAP_ANONYMOUS) MAP_FIXED"
  by (simp_all add: has_flag_def flag_defs)

lemma createNewHeap_returns:
  assumes "kernel_ok K"
    and "k_place K (prot_at m) 0 0x64000 (PROT_READ OR PROT_WRITE) (MAP_PRIVATE OR MAP_ANONYMOUS) (-1) 0 = Some r"
  shows "\<exists>m'. createNewHeapForRtld K m = Inr (r, m')" "r \<noteq> 0"
proof -
  have len: "100 * PAGE_SIZE = 0x64000" by (simp add: PAGE_SIZE_def)
  have "r \<noteq> MAP_FAILED"
    using kernel_ok_place [OF assms] MAP_FAILED_unaligned by (auto simp: placement_ok_def)
  then obtain m' where "mmapWrapper K 0 0x64000 (PROT_READ OR PROT_WRITE) (MAP_PRIVATE OR MAP_ANONYMOUS) (-1) 0 m = Inr (r, m')"
    using mmapWrapper_granted [OF anonymous_quiet _ _ _ assms(2)] heap_flags by auto
  then show "\<exists>m'. createNewHeapForRtld K m = Inr (r, m')"
    using \<open>r \<noteq> MAP_FAILED\<close> by (simp add: createNewHeapForRtld_def len split: prod.split)
  show "r \<noteq> 0" using kernel_ok_place [OF assms] by (simp add: placement_ok_def)
qed

lemma start_room:
  assumes "len \<noteq> 0" "unat (ROUND_UP len) \<le> 0x10000000" "unat len + 4095 < 2 ^ 64" "\<not> has_flag fl MAP_FIXED"
  obtains r where "k_place loader_kernel (prot_at start_process) 0 len p fl (-1) 0 = Some r"
    "placement_ok (prot_at start_process) 0 len fl r"
proof (rule room [OF loader_kernel_ok(3,1) assms(1,4), of "0x10000000"])
  show "prot_at start_process x = None" if "in_range 0x10000000 (ROUND_UP len) x" for x
    using that assms(2)
    by (simp add: start_process_def in_range_unat no_wrap_def word_le_nat_alt)
qed (use assms in \<open>simp_all add: page_aligned_iff\<close>)

theorem createNewStackForRtld_stack_witness:
  "\<exists>N m'. createNewStackForRtld loader_kernel 0x7ffff8001028 0x7ffff8001000
      \<lparr>baseAddr = 0x2c0000000, entryPoint = 0x2c0000100, phnum = 3, phdr = 0x2c0000195, mmapAddr = 0, sbrkAddr = 0\<rparr>
      start_process = Inr (N + of_nat (4096 + 8), m') \<and>
    stack_made \<lparr>baseAddr = 0x2c0000000, entryPoint = 0x2c0000100, phnum = 3, phdr = 0x2c0000195, mmapAddr = 0, sbrkAddr = 0\<rparr>
      N (e_end stack_entry - e_start stack_entry) 4096 start_args start_env start_aux start_process m'"
proof -
  have len: "e_end stack_entry - e_start stack_entry = 0x2000" by (simp add: region_entries)
  have "ROUND_UP (0x2000 :: u64) = 0x2000" by (rule ROUND_UP_aligned) (simp add: page_aligned_iff)
  then obtain N where "stack_request loader_kernel (prot_at start_process) (e_end stack_entry - e_start stack_entry) = Some N"
    using start_room [of "0x2000" "MAP_GROWSDOWN OR MAP_PRIVATE OR MAP_ANONYMOUS" "PROT_READ OR PROT_WRITE"] heap_flags(3)
    unfolding stack_request_def len by auto
  from createNewStackForRtld_stack [OF loader_kernel_ok(1)
      knows_stack_listed [OF loader_kernel_regions start_regions] this start_given] show ?thesis by blast
qed

theorem createNewHeap_then_sbrk_witness:
  "\<exists>addr m1 m2. createNewHeapForRtld loader_kernel start_process = Inr (addr, m1) \<and>
     sbrk_run loader_kernel m1 [(0x300, addr + 0x1000)] m2 \<and>
     heap_ok (addr + 0x1000) m2 \<and> uint (curbrk m2) = uint (addr + 0x1000) + 0x300"
proof -
  have "ROUND_UP (0x64000 :: u64) = 0x64000" by (rule ROUND_UP_aligned) (simp add: page_aligned_iff)
  note up = this
  obtain r where r0: "k_place loader_kernel (prot_at start_process) 0 0x64000 (PROT_READ OR PROT_WRITE)
      (MAP_PRIVATE OR MAP_ANONYMOUS) (-1) 0 = Some r"
    and pl: "placement_ok (prot_at start_process) 0 0x64000 (MAP_PRIVATE OR MAP_ANONYMOUS) r"
    by (rule start_room [of "0x64000" "MAP_PRIVATE OR MAP_ANONYMOUS" "PROT_READ OR PROT_WRITE"])
       (simp_all add: up heap_flags(1) del: has_flag_OR)
  have r: "no_wrap r 0x64000" using pl up by (simp add: placement_ok_def)
  obtain m1 where m1: "createNewHeapForRtld loader_kernel start_process = Inr (r, m1)" and nz: "r \<noteq> 0"
    using createNewHeap_returns [OF loader_kernel_ok(1) r0] by blast
  note heap = createNewHeap_heap [OF loader_kernel_ok(1) m1 nz]
  have u: "unat (r + k) = unat r + unat k" if "unat k \<le> 0x64000" for k
    using that r by (intro unat_end) (simp add: no_wrap_def)
  have "r + 0x1000 \<noteq> 0" "\<not> r + 0x64000 < r + 0x1300" "\<not> r + 0x1300 < r + 0x1000"
    using u [of "0x1000"] u [of "0x1300"] u [of "0x64000"] by (auto simp: word_unat_eq_iff word_le_nat_alt word_less_nat_alt)
  moreover have "0 <s (0x300 :: u64)" by (simp add: word_sless_alt sint_u64)
  ultimately have grow: "\<exists>m2. sbrk_lh loader_kernel 0x300 m = Inr (r + 0x1000, m2)"
    if "curbrk m = r + 0x1000" "endOfHeap m = r + 0x64000" for m :: process
    using that by (subst sbrk_lh_alt) (simp_all add: add.assoc)
  let ?m0 = "if lhFsAddr (lhInfo m1) > 0 then snd (set_fs loader_kernel (lhFsAddr (lhInfo m1)) m1) else m1"
  have "curbrk ?m0 = r + 0x1000" "endOfHeap ?m0 = r + 0x64000" using heap(2,3) by (simp_all add: set_fs_def)
  then obtain m0 where "sbrk_lh loader_kernel 0x300 ?m0 = Inr (r + 0x1000, m0)" using grow by blast
  then obtain m2 where m2: "sbrkWrapper loader_kernel 0x300 m1 = Inr (r + 0x1000, m2)"
    by (simp add: sbrkWrapper_def in_lower_half_def Let_def)
  have "sbrk_run loader_kernel m1 ([] @ [(0x300, r + 0x1000)]) m2"
    by (rule sbrk_run.call [OF sbrk_run.start m2])
  then have run: "sbrk_run loader_kernel m1 [(0x300, r + 0x1000)] m2" by simp
  moreover have "granted [(0x300, r + 0x1000)] = 0x300"
    using heap_mapped_break [OF heap_ok_mapped [OF heap(1)]] by (simp add: granted_def heap(2) sint_u64)
  ultimately show ?thesis
    using createNewHeap_then_sbrk [OF loader_kernel_ok(1) m1 nz run] m1 by auto
qed

theorem lhinfo_handover_witness:
  "\<exists>m1 m2. setupLowerHalfInfo loader_kernel start_process = (0, m1) \<and> readLhInfoAddr loader_kernel m1 = Inr m2 \<and>
     uh_lhInfo m2 = wrapper_info loader_kernel 0x1000"
proof -
  have "k_creat loader_kernel LH_FILE_NAME" "k_answers loader_kernel LH_FILE_NAME = []"
    by (simp_all add: loader_kernel_def rank_kernel_def plain_kernel_def)
  from lhinfo_handover [OF this, of start_process] show ?thesis by (auto simp: start_process_def)
qed

end
