(* ===== verification/LoaderRun.thy ===== *)
theory LoaderRun
  imports KernelLoader
begin

text \<open>
  The whole way of \<open>runRtld\<close> (\<open>kernel-loader.c\<close>), from the state in which the kernel starts the program to
  the jump into the runtime loader: the results about the confinement, the loader, the stack, the heap, the
  trampolines and the address file are composed, and it is shown that no later step disturbs what an
  earlier one has built.
\<close>

section \<open>What has to be given\<close>

text \<open>A kernel that refuses nothing it can grant.\<close>

definition kernel_willing :: "kernel \<Rightarrow> bool" where
  "kernel_willing K \<longleftrightarrow> kernel_ok K \<and> grants_at K \<and> grants_free K \<and> grants_mprotect K \<and> \<not> k_brk_fails K \<and>
     k_creat K LH_FILE_NAME \<and> k_answers K LH_FILE_NAME = [] \<and> k_sym K ''mmapWrapper'' \<noteq> 0 \<and> k_sym K ''sbrkWrapper'' \<noteq> 0"

text \<open>
  The layout: the break below the range of the rank, the special regions mapped above it in their order, all page
  aligned, and nothing mapped in the range.
\<close>

definition rank_layout :: "layout \<Rightarrow> va \<Rightarrow> maps_entry \<Rightarrow> maps_entry \<Rightarrow> maps_entry \<Rightarrow> u32 \<Rightarrow> bool" where
  "rank_layout P brk vv vd st rk \<longleftrightarrow> unat rk < 2 ^ 14 \<and> page_aligned brk \<and> brk \<noteq> 0 \<and>
     unat brk + 4096 \<le> 2 ^ 32 * (unat rk + 1) \<and> 2 ^ 32 * (unat rk + 2) < unat (e_start vv) \<and>
     page_aligned (e_start vv) \<and> page_aligned (e_end vv) \<and> e_start vv \<le> e_end vv \<and> e_end vv \<le> e_start vd \<and>
     page_aligned (e_start vd) \<and> page_aligned (e_end vd) \<and> e_start vd \<le> e_end vd \<and> e_end vd < e_start st \<and>
     page_aligned (e_start st) \<and> unat (e_start st) < 2 ^ 48 \<and>
     regions_mapped vv vd st P \<and> (\<forall>x. rank_range rk x \<longrightarrow> P x = None)"

text \<open>The twelve bytes of a jump, and their pages, lie in the loaded image.\<close>

definition patch_in_image :: "va \<Rightarrow> Phdr list \<Rightarrow> u64 \<Rightarrow> bool" where
  "patch_in_image b phs off \<longleftrightarrow> off \<noteq> -1 \<and> b + off \<noteq> 0 \<and>
     (\<forall>x. in_range (ROUND_DOWN (b + off)) (patch_pages (b + off)) x \<longrightarrow> (\<exists>ph \<in> set phs. in_seg b ph x))"

definition loader_given :: "kernel \<Rightarrow> 'a machine_scheme \<Rightarrow> byte list \<Rightarrow> byte list \<Rightarrow> byte list list \<Rightarrow> u64 \<Rightarrow> u64 \<Rightarrow> u32 \<Rightarrow> bool" where
  "loader_given K m name c hs mo so rk \<longleftrightarrow> lib_on_disk K name c m \<and> loadable c hs \<and>
     get_symbol_offset K m name (bytes_of ''mmap'') = Inr mo \<and> get_symbol_offset K m name (bytes_of ''sbrk'') = Inr so \<and>
     patch_in_image (rank_base rk) (loads_of hs) mo \<and> patch_in_image (rank_base rk) (loads_of hs) so \<and>
     (\<forall>x. in_range (rank_base rk + so) 12 x \<longrightarrow> \<not> in_range (rank_base rk + mo) 12 x) \<and>
     rank_base rk + e_entry (ehdr_of_bytes (take 64 c)) \<noteq> 0"

text \<open>The environment names the loader and the rank.\<close>

definition env_given :: "(nat \<times> byte list) list \<Rightarrow> byte list \<Rightarrow> u32 \<Rightarrow> bool" where
  "env_given env name rk \<longleftrightarrow>
     (\<exists>e. env_entry ''TARGET_LD'' env = Some e \<and> drop 10 (snd e) = name) \<and>
     (\<exists>e. env_entry ''RANK_ID'' env = Some e \<and> atoi (drop 8 (snd e)) = rk)"

lemma rank_layout_above: "rank_layout P brk vv vd st rk \<Longrightarrow> regions_above rk vv vd st"
  by (auto simp: rank_layout_def regions_above_def)

section \<open>The environment on the stack\<close>

definition on_stack :: "'a machine_scheme \<Rightarrow> va \<Rightarrow> nat \<Rightarrow> 'a machine_scheme \<Rightarrow> bool" where
  "on_stack m S n m' \<longleftrightarrow> (\<forall>i < n. mem m' (S + of_nat i) = mem m (S + of_nat i) \<and> prot_at m' (S + of_nat i) = prot_at m (S + of_nat i)) \<and>
     files m' = files m"

lemma on_stack_given:
  assumes "on_stack m S n m'" "stack_given K m environ st S n tk args env aux"
  shows "stack_given K m' environ st S n tk args env aux"
proof -
  have pk: "\<forall>k l. k + l \<le> n \<longrightarrow> peek m' (S + of_nat k) l = peek m (S + of_nat k) l"
  proof (intro allI impI peek_eqI)
    fix k l i assume "k + l \<le> n" "i < l"
    then have "mem m' (S + of_nat (k + i)) = mem m (S + of_nat (k + i))"
      using assms(1) unfolding on_stack_def by (metis add_less_cancel_left order_less_le_trans)
    then show "mem m' (S + of_nat k + of_nat i) = mem m (S + of_nat k + of_nat i)" by (simp only: off_add)
  qed
  have "all_prot PROT_READ m' S n = all_prot PROT_READ m S n"
    using assms(1) by (auto simp: all_prot_iff on_stack_def)
  moreover have "stack_start K m' = stack_start K m"
    using assms(1) by (simp add: fun_eq_iff stack_start_def stat_line_def on_stack_def)
  ultimately show ?thesis
    using assms(2) stack_image_cong [OF pk] by (auto simp: stack_given_def stack_region_def)
qed

lemma given_region:
  assumes "stack_given K m environ st S n tk args env aux"
  shows "region_ok m S n" "\<forall>e \<in> set env. str_at m S n e" "words m S (tk + 24 + 8 * length args) (map (ptr S) env @ [0])"
    "tk + 24 + 8 * length args + 8 * length env + 8 \<le> n" "environ = S + of_nat (tk + 24 + 8 * length args)"
proof -
  have r: "stack_region m st S n" and im: "stack_image m S n tk args env aux"
    using assms by (simp_all add: stack_given_def)
  have "unat S + n = unat (e_end st)" using r by (auto simp: stack_region_def unat_sub word_le_nat_alt)
  then show "region_ok m S n" using r unat_u64 [of "e_end st"] by (simp add: region_ok_def stack_region_def)
  show "\<forall>e \<in> set env. str_at m S n e" using im by (simp add: stack_image_def)
  show "words m S (tk + 24 + 8 * length args) (map (ptr S) env @ [0])"
    using im by (simp add: stack_image_def vectors_def algebra_simps)
  show "tk + 24 + 8 * length args + 8 * length env + 8 \<le> n"
    using im by (simp add: stack_image_def length_vectors algebra_simps)
  show "environ = S + of_nat (tk + 24 + 8 * length args)" using assms by (simp add: stack_given_def)
qed

text \<open>A variable of the environment, as \<open>getenv\<close> finds it.\<close>

lemma given_getenv:
  assumes "stack_given K m environ st S n tk args env aux" "env_entry name env = Some e"
  obtains q where "getenv m environ (bytes_of name) = Inr q" "q \<noteq> 0" "cstr_at m q = Inr (drop (length name + 1) (snd e))"
    "q = S + of_nat (fst e + length name + 1)"
proof -
  note g = given_region [OF assms(1)]
  note e = env_entryD [OF assms(2) g(1,2)]
  let ?q = "S + of_nat (fst e + length name + 1)"
  have "str_at m S n (fst e, snd e)" using g(2) e(1) by (simp del: str_at.simps)
  then have "str_at m S n (fst e + (length name + 1), drop (length name + 1) (snd e))"
    by (rule str_at_drop) (use e(2) in simp)
  from cstr_at_holds [OF str_at_holds(1) [OF g(1) this]]
  have c: "cstr_at m ?q = Inr (drop (length name + 1) (snd e))" by (simp only: ptr_def fst_conv snd_conv add.assoc)
  have v: "getenv m environ (bytes_of name) = Inr ?q"
    using getenv_entry [OF assms(2) g(1,2,3,4)] by (simp only: g(5))
  show thesis by (rule that [OF v e(4) c refl])
qed

lemma given_rank_id:
  assumes "stack_given K m environ st S n tk args env aux" "env_given env name rk"
  shows "rank_id environ m = Inr rk"
proof -
  obtain e where e: "env_entry ''RANK_ID'' env = Some e" "atoi (drop 8 (snd e)) = rk"
    using assms(2) by (auto simp: env_given_def)
  obtain q where "getenv m environ (bytes_of ''RANK_ID'') = Inr q" "q \<noteq> 0"
    "cstr_at m q = Inr (drop (length ''RANK_ID'' + 1) (snd e))"
    by (rule given_getenv [OF assms(1) e(1)])
  note q = this
  have "length ''RANK_ID'' + 1 = 8" by simp
  then have "cstr_at m q = Inr (drop 8 (snd e))" using q(3) by (simp only:)
  then show ?thesis using q(1,2) e(2) by (simp add: rank_id_def)
qed

section \<open>The steps\<close>

lemma in_stack_region:
  assumes "region_ok m S n" "i < n" shows "S \<le> S + of_nat i"
proof -
  have "unat (S + of_nat i) = unat S + i" using assms by (intro unat_slot) (simp add: slot_ok_def region_ok_def)
  then show ?thesis by (simp add: word_le_nat_alt)
qed

lemma confine_step:
  assumes "kernel_willing K" "knows_regions K sp vv vd st" "rank_layout (prot_at m) brk vv vd st rk"
    and "stack_given K m environ st S n tk args env aux"
  obtains f p where "confine_addr_space K brk sp rk m = Inr (m\<lparr>mem := f, prot_at := p\<rparr>)"
    "on_stack m S n (m\<lparr>mem := f, prot_at := p\<rparr>)" "\<And>x. rank_range rk x \<Longrightarrow> p x = None" "regions_mapped vv vd st p"
proof -
  note l = assms(3) [unfolded rank_layout_def]
  have K: "kernel_ok K" "grants_at K" "\<not> k_brk_fails K" using assms(1) by (simp_all add: kernel_willing_def)
  have ord: "unat brk < 2 ^ 32 * (unat rk + 1)" using l by auto
  have above: "regions_above rk vv vd st" by (rule rank_layout_above [OF assms(3)])
  have mapped: "regions_mapped vv vd st (prot_at m)" using l by blast
  obtain m1 where m1: "confine_addr_space K brk sp rk m = Inr m1"
    using confine_succeeds [OF K(2) assms(2) K(3,1) above mapped] l ord by blast
  have frame: "e_start st \<le> x \<Longrightarrow> mem m1 x = mem m x \<and> prot_at m1 x = prot_at m x" for x
    by (rule confine_frame(1) [OF K(1) assms(2) above mapped m1])
  have "\<exists>f p. m1 = m\<lparr>mem := f, prot_at := p\<rparr>"
    by (rule confine_frame(2) [OF K(1) assms(2) above mapped m1])
  then obtain f p where fp: "m1 = m\<lparr>mem := f, prot_at := p\<rparr>" by blast
  have ends: "2 ^ 32 * (unat rk + 2) \<le> unat (e_end vv)" "2 ^ 32 * (unat rk + 2) \<le> unat (e_end vd)"
    using l unfolding word_le_nat_alt by linarith+
  have "p x = None" if "rank_range rk x" for x
  proof -
    have "prot_at m1 x = prot_at m x"
      by (rule confine_layout(2) [OF K(1) assms(2) above mapped m1 _ ends that]) (use l in auto)
    then show ?thesis using l that by (simp add: fp)
  qed
  moreover have "on_stack m S n m1"
  proof -
    have "region_ok m S n" "e_start st = S"
      using given_region(1) [OF assms(4)] assms(4) by (auto simp: stack_given_def stack_region_def)
    then show ?thesis using frame in_stack_region [of m S n] by (simp add: on_stack_def fp)
  qed
  moreover have "regions_mapped vv vd st p"
    using confine_frame(3) [OF K(1) assms(2) above mapped m1] by (simp add: fp)
  ultimately show thesis using that m1 by (simp add: fp)
qed

lemma load_step:
  assumes "kernel_willing K" "loader_given K m name c hs mo so rk" "stack_given K m environ st S n tk args env aux"
    and "env_given env name rk" "unat rk < 2 ^ 14" "2 ^ 32 * (unat rk + 2) \<le> unat S"
  obtains st' m2 where "safeLoadLib K environ name ld_init m = Inr (lib_info c (rank_base rk) mo so, st', m2)"
    "image_loaded c (rank_base rk) (loads_of hs) m m2" "on_stack m S n m2"
    "\<And>ph x. ph \<in> set (loads_of hs) \<Longrightarrow> in_seg (rank_base rk) ph x \<Longrightarrow> rank_range rk x \<and> rank_base rk \<le> x"
proof -
  note l = assms(2) [unfolded loader_given_def]
  have K: "grants_at K" using assms(1) by (simp add: kernel_willing_def)
  obtain st' m2 where m2: "safeLoadLib K environ name ld_init m = Inr (lib_info c (rank_base rk) mo so, st', m2)"
    and img: "image_loaded c (rank_base rk) (loads_of hs) m m2"
    using safeLoadLib_image [OF K _ _ given_rank_id [OF assms(3,4)] assms(5)] l by blast
  have seg: "rank_range rk x \<and> rank_base rk \<le> x" if "ph \<in> set (loads_of hs)" "in_seg (rank_base rk) ph x" for ph x
  proof -
    have ok: "phdr_ok ph" using l that(1) by (auto simp: loadable_def list_all_iff)
    have d: "unat (x - rank_base rk) < 0x40000000" using that(2) seg_order(5) [OF ok] by (simp add: in_seg_def)
    have "x = rank_base rk + (x - rank_base rk)" by simp
    then have "unat x = unat (rank_base rk) + unat (x - rank_base rk)"
      using unat_base_offset [OF rank_base_ok [OF assms(5)], of "x - rank_base rk"] d by simp
    then show ?thesis using in_seg_rank_range [OF ok assms(5) that(2)] by (simp add: word_le_nat_alt)
  qed
  have "mem m2 (S + of_nat i) = mem m (S + of_nat i) \<and> prot_at m2 (S + of_nat i) = prot_at m (S + of_nat i)"
    if "i < n" for i
  proof -
    have "S \<le> S + of_nat i" by (rule in_stack_region [OF given_region(1) [OF assms(3)] that])
    then have "\<not> rank_range rk (S + of_nat i)"
      using assms(6) unfolding rank_range_def word_le_nat_alt by linarith
    then show ?thesis using img seg unfolding image_loaded_def by blast
  qed
  then have "on_stack m S n m2" using img by (simp add: on_stack_def image_loaded_def same_but_table_def)
  then show thesis using that [OF m2 img] seg by blast
qed

text \<open>Room in the range of the rank: the first 3 GB of it, below the loaded image.\<close>

lemma range_room:
  assumes "kernel_willing K" "unat rk < 2 ^ 14" "len \<noteq> 0" "unat (ROUND_UP len) \<le> 2 ^ 30 + 4096" "unat len + 4095 < 2 ^ 64"
    and "\<not> has_flag fl MAP_FIXED" "k \<le> 2 ^ 31" "k mod 4096 = 0"
    and "\<And>x. 2 ^ 32 * (unat rk + 1) + k \<le> unat x \<Longrightarrow> unat x < 2 ^ 32 * (unat rk + 1) + k + unat (ROUND_UP len) \<Longrightarrow> P x = None"
  obtains r where "k_place K P 0 len p fl (-1) 0 = Some r" "placement_ok P 0 len fl r"
proof -
  let ?r = "of_nat (2 ^ 32 * (unat rk + 1) + k) :: va"
  have K: "grants_free K" "kernel_ok K" using assms(1) by (simp_all add: kernel_willing_def)
  have "2 ^ 32 * (unat rk + 1) + k < 2 ^ LENGTH(64)" using assms(2,7) by simp
  then have u: "unat ?r = 2 ^ 32 * (unat rk + 1) + k" by (simp only: unat_of_nat mod_less)
  obtain j where "k = 4096 * j" using assms(8) by (auto simp: mod_eq_0_iff_dvd)
  then have "unat ?r = 4096 * (2 ^ 20 * (unat rk + 1) + j)" using u by simp
  then have al: "page_aligned ?r" unfolding page_aligned_iff by (simp only: mod_mult_self1_is_0)
  have nw: "unat ?r + unat (ROUND_UP len) < 2 ^ 64" using u assms(2,4,7) by simp
  have nz: "?r \<noteq> 0" using u by (metis add_gr_0 less_numeral_extra(3) mult_pos_pos unat_0 zero_less_Suc zero_less_numeral zero_less_power Suc_eq_plus1)
  show thesis
  proof (rule room [OF K assms(3,6) al nz nw assms(5)])
    show "P x = None" if "in_range ?r (ROUND_UP len) x" for x
      using that nw u by (intro assms(9)) (simp_all add: in_range_unat no_wrap_def)
  qed (rule that)
qed

text \<open>The stack and the heap, in a state in which the image is loaded and the range otherwise free.\<close>

definition image_at :: "va \<Rightarrow> Phdr list \<Rightarrow> va \<Rightarrow> bool" where
  "image_at b phs x \<longleftrightarrow> (\<exists>ph \<in> set phs. in_seg b ph x)"

lemma stack_step:
  assumes "kernel_willing K" "stack_listed K sp m st" "stack_given K m environ st S n tk args env aux"
    and "unat rk < 2 ^ 14" "n \<le> 2 ^ 30" "\<And>x. rank_range rk x \<Longrightarrow> x < rank_base rk \<Longrightarrow> prot_at m x = None"
  obtains N m' where "createNewStackForRtld K environ sp info m = Inr (N + of_nat (tk + 8), m')"
    "stack_made info N (e_end st - e_start st) tk args env aux m m'" "N + of_nat (tk + 8) \<noteq> 0"
    "no_wrap N (ROUND_UP (e_end st - e_start st))" "n \<le> unat (ROUND_UP (e_end st - e_start st))"
    "unat (ROUND_UP (e_end st - e_start st)) \<le> 2 ^ 30 + 4096"
    "\<And>x. in_range N (ROUND_UP (e_end st - e_start st)) x \<Longrightarrow> prot_at m x = None"
proof -
  let ?len = "e_end st - e_start st" and ?fl = "MAP_GROWSDOWN OR MAP_PRIVATE OR MAP_ANONYMOUS"
  have len: "unat ?len = n" using assms(3) by (auto simp: stack_given_def stack_region_def)
  have tk: "tk + 8 + 4 \<le> n" using assms(3) by (auto simp: stack_given_def stack_image_def length_vectors)
  have small: "unat ?len + 4095 < 2 ^ 64" using len assms(5) by simp
  note up = ROUND_UP_bounds [OF small, unfolded len]
  have nz: "?len \<noteq> 0" using tk len by (metis add_is_0 le_zero_eq unat_0 zero_neq_numeral)
  obtain N where N: "k_place K (prot_at m) 0 ?len (PROT_READ OR PROT_WRITE) ?fl (-1) 0 = Some N" "placement_ok (prot_at m) 0 ?len ?fl N"
  proof (rule range_room [OF assms(1,4) nz _ small heap_flags(3), of 0])
    show "unat (ROUND_UP ?len) \<le> 2 ^ 30 + 4096" using up(2) assms(5) by simp
    show "prot_at m x = None"
      if "2 ^ 32 * (unat rk + 1) + 0 \<le> unat x" "unat x < 2 ^ 32 * (unat rk + 1) + 0 + unat (ROUND_UP ?len)" for x
      using that up(2) assms(4,5)
      by (intro assms(6)) (simp_all add: rank_range_def word_less_nat_alt unat_rank_base)
  qed simp_all
  have req: "stack_request K (prot_at m) ?len = Some N" using N(1) by (simp add: stack_request_def)
  have K: "kernel_ok K" using assms(1) by (simp add: kernel_willing_def)
  obtain m' where m': "createNewStackForRtld K environ sp info m = Inr (N + of_nat (tk + 8), m')"
    "stack_made info N ?len tk args env aux m m'"
    using createNewStack_made [OF K assms(2) req assms(3)] by blast
  have fresh: "no_wrap N (ROUND_UP ?len)" "\<And>x. in_range N (ROUND_UP ?len) x \<Longrightarrow> prot_at m x = None"
    using N(2) heap_flags(3) by (simp_all add: placement_ok_def del: has_flag_OR)
  have "unat (N + of_nat (tk + 8)) = unat N + (tk + 8)"
    using fresh(1) up(1) tk by (intro unat_slot) (simp add: slot_ok_def no_wrap_def)
  then have "N + of_nat (tk + 8) \<noteq> 0" by (metis add_is_0 unat_0 zero_neq_numeral)
  then show thesis using that m' fresh up assms(5) by simp
qed

lemma heap_step:
  assumes "kernel_willing K" "unat rk < 2 ^ 14" "no_wrap N l" "unat l \<le> 2 ^ 30 + 4096"
    and "\<And>x. rank_range rk x \<Longrightarrow> x < rank_base rk \<Longrightarrow> \<not> in_range N l x \<Longrightarrow> prot_at m x = None"
  obtains r m' where "createNewHeapForRtld K m = Inr (r, m')" "r \<noteq> 0"
proof -
  let ?fl = "MAP_PRIVATE OR MAP_ANONYMOUS" and ?B = "2 ^ 32 * (unat rk + 1)"
  have K: "kernel_ok K" using assms(1) by (simp add: kernel_willing_def)
  have free: "prot_at m x = None"
    if "?B + k \<le> unat x" "unat x < ?B + k + 0x64000" "k \<le> 2 ^ 31" "\<not> in_range N l x" for x k
    using that assms(2) by (intro assms(5)) (simp_all add: rank_range_def word_less_nat_alt unat_rank_base)
  obtain k where k: "k \<le> 2 ^ 31" "k mod 4096 = 0"
    "\<And>x. ?B + k \<le> unat x \<Longrightarrow> unat x < ?B + k + 0x64000 \<Longrightarrow> prot_at m x = None"
  proof (cases "unat N + unat l \<le> ?B + 2 ^ 31")
    case True
    then have "\<not> in_range N l x" if "?B + 2 ^ 31 \<le> unat x" for x
      using that by (simp add: in_range_unat [OF assms(3)])
    then show thesis using that [of "2 ^ 31"] free [of "2 ^ 31"] by simp
  next
    case False
    then have "\<not> in_range N l x" if "unat x < ?B + 0 + 0x64000" for x
      using that assms(4) by (simp add: in_range_unat [OF assms(3)])
    then show thesis using that [of 0] free [of 0] by simp
  qed
  obtain r where "k_place K (prot_at m) 0 0x64000 (PROT_READ OR PROT_WRITE) ?fl (-1) 0 = Some r"
    by (rule range_room [OF assms(1,2) _ _ _ heap_flags(1) k(1,2), of "0x64000" "prot_at m"])
       (simp_all add: heap_pages k(3))
  from createNewHeap_returns [OF K this] show thesis using that by blast
qed


section \<open>The state at the jump\<close>

text \<open>
  The image of the runtime loader with its two functions redirected, the stack it starts on, a heap for its
  \<open>sbrk\<close>, and the addresses of the wrappers in the address file.
\<close>

definition image_patched :: "kernel \<Rightarrow> byte list \<Rightarrow> va \<Rightarrow> Phdr list \<Rightarrow> u64 \<Rightarrow> u64 \<Rightarrow> 'a machine_scheme \<Rightarrow> bool" where
  "image_patched K c b phs mo so m \<longleftrightarrow>
     jump_target (peek m (b + mo) 12) = Some (k_sym K ''mmapWrapper'') \<and>
     jump_target (peek m (b + so) 12) = Some (k_sym K ''sbrkWrapper'') \<and>
     (\<forall>ph \<in> set phs. \<forall>x. in_seg b ph x \<longrightarrow> \<not> in_range (b + mo) 12 x \<longrightarrow> \<not> in_range (b + so) 12 x \<longrightarrow>
        mem m x = seg_byte c ph (unat (x - b)))"

definition addresses_published :: "kernel \<Rightarrow> 'a lower_half_scheme \<Rightarrow> bool" where
  "addresses_published K m \<longleftrightarrow> lhInfo m = wrapper_info K (fs_base m) \<and>
     (\<exists>old. files m LH_FILE_NAME = Some (lhinfo_bytes (lhInfo m) @ old))"

definition patch_region :: "va \<Rightarrow> u64 \<Rightarrow> u64 \<Rightarrow> va \<Rightarrow> bool" where
  "patch_region b mo so x \<longleftrightarrow> in_range (ROUND_DOWN (b + mo)) (patch_pages (b + mo)) x \<or>
     in_range (ROUND_DOWN (b + so)) (patch_pages (b + so)) x"

lemma patch_region_image:
  "patch_in_image b phs mo \<Longrightarrow> patch_in_image b phs so \<Longrightarrow> patch_region b mo so x \<Longrightarrow> image_at b phs x"
  by (auto simp: patch_region_def patch_in_image_def image_at_def)

lemma both_patched:
  assumes "\<forall>x. in_range (b + so) 12 x \<longrightarrow> \<not> in_range (b + mo) 12 x"
    and m'_def: "m' = patched (b + so) t (patched (b + mo) s m)"
  shows "jump_target (peek m' (b + mo) 12) = Some s" "jump_target (peek m' (b + so) 12) = Some t"
    "\<not> in_range (b + mo) 12 x \<Longrightarrow> \<not> in_range (b + so) 12 x \<Longrightarrow> mem m' x = mem m x"
    "\<not> patch_region b mo so x \<Longrightarrow> mem m' x = mem m x \<and> prot_at m' x = prot_at m x"
proof -
  have "peek m' (b + mo) 12 = peek (patched (b + mo) s m) (b + mo) 12"
    unfolding m'_def by (rule peek_patched_other) (use assms(1) in blast)
  then show "jump_target (peek m' (b + mo) 12) = Some s" by (simp add: jump_target_patched)
  show "jump_target (peek m' (b + so) 12) = Some t" by (simp add: m'_def jump_target_patched)
  show "\<not> in_range (b + mo) 12 x \<Longrightarrow> \<not> in_range (b + so) 12 x \<Longrightarrow> mem m' x = mem m x"
    by (simp add: m'_def mem_patched)
  assume x: "\<not> patch_region b mo so x"
  then have "\<not> in_range (b + mo) 12 x" "\<not> in_range (b + so) 12 x"
    using patch_in_range by (auto simp: patch_region_def)
  then show "mem m' x = mem m x \<and> prot_at m' x = prot_at m x"
    using x by (simp add: m'_def mem_patched prot_patched patch_region_def)
qed

text \<open>The trampolines and the address file, in a state in which the pages of the image are mapped.\<close>

lemma patch_step:
  fixes m :: "'a lower_half_scheme"
  assumes "kernel_willing K" "patch_in_image b phs mo" "patch_in_image b phs so"
    and "\<And>x. image_at b phs x \<Longrightarrow> prot_at m x \<noteq> None"
  obtains m' where "insertTrampoline K (b + mo) (k_sym K ''mmapWrapper'') m = Inr (0, patched (b + mo) (k_sym K ''mmapWrapper'') m)"
    "insertTrampoline K (b + so) (k_sym K ''sbrkWrapper'') (patched (b + mo) (k_sym K ''mmapWrapper'') m) =
       Inr (0, patched (b + so) (k_sym K ''sbrkWrapper'') (patched (b + mo) (k_sym K ''mmapWrapper'') m))"
    "setupLowerHalfInfo K (patched (b + so) (k_sym K ''sbrkWrapper'') (patched (b + mo) (k_sym K ''mmapWrapper'') m)) = (0, m')"
    "mem m' = mem (patched (b + so) (k_sym K ''sbrkWrapper'') (patched (b + mo) (k_sym K ''mmapWrapper'') m))"
    "prot_at m' = prot_at (patched (b + so) (k_sym K ''sbrkWrapper'') (patched (b + mo) (k_sym K ''mmapWrapper'') m))"
    "curbrk m' = curbrk m" "endOfHeap m' = endOfHeap m" "addresses_published K m'"
proof -
  let ?s = "k_sym K ''mmapWrapper''" and ?t = "k_sym K ''sbrkWrapper''"
  let ?m1 = "patched (b + mo) ?s m" and ?m2 = "patched (b + so) ?t (patched (b + mo) ?s m)"
  have K: "grants_mprotect K" "?s \<noteq> 0" "?t \<noteq> 0" "k_creat K LH_FILE_NAME" "k_answers K LH_FILE_NAME = []"
    using assms(1) by (simp_all add: kernel_willing_def)
  have "pages_mapped (b + mo) m" "pages_mapped (b + so) ?m1"
    using assms(2-4) by (auto simp: pages_mapped_def patch_in_image_def image_at_def prot_patched)
  then have one: "insertTrampoline K (b + mo) ?s m = Inr (0, ?m1)" and two: "insertTrampoline K (b + so) ?t ?m1 = Inr (0, ?m2)"
    using insertTrampoline_granted [OF K(1)] K(2,3) assms(2,3) by (auto simp: patch_in_image_def)
  obtain old where s: "setupLowerHalfInfo K ?m2 = (0, ?m2\<lparr>lhInfo := wrapper_info K (fs_base ?m2),
      files := (files ?m2)(LH_FILE_NAME \<mapsto> lhinfo_bytes (wrapper_info K (fs_base ?m2)) @ old)\<rparr>)"
    using setup_published [OF K(4,5)] by blast
  show thesis
    by (rule that [OF one two s]) (simp_all add: addresses_published_def, simp_all add: patched_def poke_def)
qed

text \<open>The stack and the heap stay what they are, because the patched pages are neither.\<close>

lemma stack_kept:
  assumes "stack_image m N n tk args env aux" "no_wrap N l" "n \<le> unat l"
    and "\<And>x. in_range N l x \<Longrightarrow> mem m' x = mem m x"
  shows "stack_image m' N n tk args env aux"
proof (rule stack_image_cong [OF _ assms(1)], intro allI impI peek_eqI)
  fix k j i :: nat assume "k + j \<le> n" "i < j"
  then have "in_range N l (N + of_nat (k + i))" using assms(3) by (intro in_range_of_nat) simp
  then show "mem m' (N + of_nat k + of_nat i) = mem m (N + of_nat k + of_nat i)"
    using assms(4) by (simp add: off_add)
qed


text \<open>What the process is given, and what it is when it jumps.\<close>

definition process_given where
  "process_given K environ brk sp m rk name c hs mo so vv vd st S n tk args env aux \<longleftrightarrow>
     kernel_willing K \<and> knows_regions K sp vv vd st \<and> rank_layout (prot_at m) brk vv vd st rk \<and>
     stack_given K m environ st S n tk args env aux \<and> env_given env name rk \<and>
     loader_given K m name c hs mo so rk \<and> n \<le> 2 ^ 30"

definition process_ready where
  "process_ready K m c b phs mo so N n tk args env aux \<longleftrightarrow>
     image_patched K c b phs mo so m \<and>
     stack_image m N n tk (ld_arg env # tl args) (rename_first env)
       (map (patch_entry (phnum (lib_info c b mo so)) (phdr (lib_info c b mo so)) (entryPoint (lib_info c b mo so))) aux) \<and>
     heap_ok (curbrk m) m \<and> addresses_published K m"

lemma run_after_stack:
  fixes m :: "'a lower_half_scheme"
  assumes given: "kernel_willing K" "loader_given K m0 name c hs mo so rk" "unat rk < 2 ^ 14"
    and img: "image_loaded c (rank_base rk) (loads_of hs) m1 m2"
    and made: "stack_made (lib_info c (rank_base rk) mo so) N len tk args env aux m2 m"
    and N: "no_wrap N (ROUND_UP len)" "unat len = n" "n \<le> unat (ROUND_UP len)" "unat (ROUND_UP len) \<le> 2 ^ 30 + 4096"
      "\<And>x. in_range N (ROUND_UP len) x \<Longrightarrow> prot_at m2 x = None"
    and free: "\<And>x. rank_range rk x \<Longrightarrow> x < rank_base rk \<Longrightarrow> prot_at m2 x = None"
  obtains r m3 m4 m5 m6 where "createNewHeapForRtld K m = Inr (r, m3)" "r \<noteq> 0"
    "insertTrampoline K (rank_base rk + mo) (k_sym K ''mmapWrapper'') m3 = Inr (0, m4)"
    "insertTrampoline K (rank_base rk + so) (k_sym K ''sbrkWrapper'') m4 = Inr (0, m5)"
    "setupLowerHalfInfo K m5 = (0, m6)"
    "process_ready K m6 c (rank_base rk) (loads_of hs) mo so N n tk args env aux"
proof -
  let ?b = "rank_base rk" and ?phs = "loads_of hs"
  have K: "kernel_ok K" using given(1) by (simp add: kernel_willing_def)
  note l = given(2) [unfolded loader_given_def]
  note md = made [unfolded stack_made_def]
  have image: "prot_at m2 x \<noteq> None" if "image_at ?b ?phs x" for x
    using that img by (auto simp: image_at_def image_loaded_def)
  have new: "\<not> in_range N (ROUND_UP len) x \<Longrightarrow> mem m x = mem m2 x \<and> prot_at m x = prot_at m2 x"
    "in_range N (ROUND_UP len) x \<Longrightarrow> prot_at m x = Some (PROT_READ OR PROT_WRITE)" for x
    using md by simp_all
  obtain r m3 where heap: "createNewHeapForRtld K m = Inr (r, m3)" "r \<noteq> 0"
    by (rule heap_step [OF given(1,3) N(1,4), where m = m]) (use new(1) free in auto)
  note fr = createNewHeap_frame [OF K heap] and hp = createNewHeap_heap [OF K heap]
  have mapped: "prot_at m x \<noteq> None" if "image_at ?b ?phs x" for x
    using image [OF that] new [of x] N(5) by (cases "in_range N (ROUND_UP len) x") simp_all
  then have image3: "prot_at m3 x \<noteq> None" if "image_at ?b ?phs x" for x
    using that fr(1,2) by metis
  obtain m6 where p: "insertTrampoline K (?b + mo) (k_sym K ''mmapWrapper'') m3 = Inr (0, patched (?b + mo) (k_sym K ''mmapWrapper'') m3)"
    "insertTrampoline K (?b + so) (k_sym K ''sbrkWrapper'') (patched (?b + mo) (k_sym K ''mmapWrapper'') m3) =
       Inr (0, patched (?b + so) (k_sym K ''sbrkWrapper'') (patched (?b + mo) (k_sym K ''mmapWrapper'') m3))"
    "setupLowerHalfInfo K (patched (?b + so) (k_sym K ''sbrkWrapper'') (patched (?b + mo) (k_sym K ''mmapWrapper'') m3)) = (0, m6)"
    and m6: "mem m6 = mem (patched (?b + so) (k_sym K ''sbrkWrapper'') (patched (?b + mo) (k_sym K ''mmapWrapper'') m3))"
    "prot_at m6 = prot_at (patched (?b + so) (k_sym K ''sbrkWrapper'') (patched (?b + mo) (k_sym K ''mmapWrapper'') m3))"
    "curbrk m6 = curbrk m3" "endOfHeap m6 = endOfHeap m3" "addresses_published K m6"
    by (rule patch_step [OF given(1) _ _ image3, where mo = mo and so = so]) (use l in auto)
  have apart: "\<forall>x. in_range (?b + so) 12 x \<longrightarrow> \<not> in_range (?b + mo) 12 x" using l by blast
  note bp = both_patched [OF apart refl, where t = "k_sym K ''sbrkWrapper''" and s = "k_sym K ''mmapWrapper''" and m = m3]
  have outside: "mem m6 x = mem m3 x \<and> prot_at m6 x = prot_at m3 x" if "\<not> image_at ?b ?phs x" for x
    using that patch_region_image [of ?b ?phs mo so x] l bp(4) [of x] m6(1,2) by auto
  have "image_patched K c ?b ?phs mo so m6"
    unfolding image_patched_def
  proof (intro conjI ballI allI impI)
    show "jump_target (peek m6 (?b + mo) 12) = Some (k_sym K ''mmapWrapper'')"
      "jump_target (peek m6 (?b + so) 12) = Some (k_sym K ''sbrkWrapper'')"
      using bp(1,2) m6(1) by (simp_all add: peek_def)
    fix ph x assume x: "ph \<in> set ?phs" "in_seg ?b ph x" "\<not> in_range (?b + mo) 12 x" "\<not> in_range (?b + so) 12 x"
    have im: "image_at ?b ?phs x" using x(1,2) by (auto simp: image_at_def)
    have "mem m6 x = mem m3 x" using bp(3) x(3,4) m6(1) by simp
    also have "\<dots> = mem m x" using fr(1,2) [of x] mapped [OF im] by auto
    also have "\<dots> = mem m2 x" using new(1) [of x] image [OF im] N(5) [of x] by metis
    also have "\<dots> = seg_byte c ph (unat (x - ?b))" using img x(1,2) by (auto simp: image_loaded_def)
    finally show "mem m6 x = seg_byte c ph (unat (x - ?b))" .
  qed
  moreover have "mem m6 x = mem m x" if "in_range N (ROUND_UP len) x" for x
    using outside [of x] fr(1,2) [of x] new(2) [OF that] image [of x] N(5) [OF that] by (metis option.distinct(1))
  then have "stack_image m6 N n tk (ld_arg env # tl args) (rename_first env)
       (map (patch_entry (phnum (lib_info c ?b mo so)) (phdr (lib_info c ?b mo so)) (entryPoint (lib_info c ?b mo so))) aux)"
    using stack_kept [OF _ N(1,3)] md N(2) by blast
  moreover have "heap_ok (curbrk m6) m6"
  proof -
    have "prot_at m6 x = prot_at m3 x" if "r + 0x1000 \<le> x" "x < r + 0x64000" for x
    proof -
      have "in_range r 0x64000 x"
        using that fr(4) unfolding in_range_unat [OF fr(4)] word_le_nat_alt word_less_nat_alt
        using unat_end [OF fr(4)] unat_end [of r "0x1000"] by (simp add: no_wrap_def)
      then have "\<not> image_at ?b ?phs x" using fr(2) mapped by blast
      then show ?thesis using outside by blast
    qed
    then show ?thesis using hp(1) by (simp add: heap_ok_def heap_mapped_def m6(3,4) hp(2,3))
  qed
  ultimately have "process_ready K m6 c ?b ?phs mo so N n tk args env aux"
    using m6(5) by (simp add: process_ready_def)
  then show thesis by (rule that [OF heap p])
qed


section \<open>The whole run\<close>

lemma run_steps:
  fixes m :: "'a lower_half_scheme"
  assumes "process_given K environ brk sp m rk name c hs mo so vv vd st S n tk args env aux"
  obtains m1 q u m2 st' N m3 r m4 m5 m6 m7 where
    "getenv m environ (bytes_of ''TARGET_LD'') = Inr q" "q \<noteq> 0"
    "getenv m environ (bytes_of ''UH_PRELOAD'') = Inr u" "u \<noteq> 0"
    "rank_id environ m = Inr rk" "confine_addr_space K brk sp rk m = Inr m1" "cstr_at m1 q = Inr name"
    "safeLoadLib K environ name ld_init m1 = Inr (lib_info c (rank_base rk) mo so, st', m2)"
    "createNewStackForRtld K environ sp (lib_info c (rank_base rk) mo so) m2 = Inr (N + of_nat (tk + 8), m3)"
    "N + of_nat (tk + 8) \<noteq> 0" "createNewHeapForRtld K m3 = Inr (r, m4)" "r \<noteq> 0"
    "insertTrampoline K (rank_base rk + mo) (k_sym K ''mmapWrapper'') m4 = Inr (0, m5)"
    "insertTrampoline K (rank_base rk + so) (k_sym K ''sbrkWrapper'') m5 = Inr (0, m6)"
    "setupLowerHalfInfo K m6 = (0, m7)"
    "process_ready K m7 c (rank_base rk) (loads_of hs) mo so N n tk args env aux"
proof -
  note g = assms [unfolded process_given_def]
  have K: "kernel_willing K" and regs: "knows_regions K sp vv vd st" and lay: "rank_layout (prot_at m) brk vv vd st rk"
    and sg: "stack_given K m environ st S n tk args env aux" and eg: "env_given env name rk"
    and lg: "loader_given K m name c hs mo so rk" and n: "n \<le> 2 ^ 30"
    using g by blast+
  have rk: "unat rk < 2 ^ 14" and S: "2 ^ 32 * (unat rk + 2) \<le> unat S"
  proof -
    show "unat rk < 2 ^ 14" using lay by (simp add: rank_layout_def)
    have "2 ^ 32 * (unat rk + 2) < unat (e_start vv)" "unat (e_start vv) \<le> unat (e_end vv)"
      "unat (e_end vv) \<le> unat (e_start vd)" "unat (e_start vd) \<le> unat (e_end vd)" "unat (e_end vd) < unat (e_start st)"
      using lay by (simp_all add: rank_layout_def word_le_nat_alt word_less_nat_alt)
    then have "2 ^ 32 * (unat rk + 2) \<le> unat (e_start st)" by linarith
    moreover have "e_start st = S" using sg by (simp add: stack_given_def stack_region_def)
    ultimately show "2 ^ 32 * (unat rk + 2) \<le> unat S" by (simp only:)
  qed
  obtain f p where m1: "confine_addr_space K brk sp rk m = Inr (m\<lparr>mem := f, prot_at := p\<rparr>)"
    "on_stack m S n (m\<lparr>mem := f, prot_at := p\<rparr>)" "\<And>x. rank_range rk x \<Longrightarrow> p x = None" "regions_mapped vv vd st p"
    by (rule confine_step [OF K regs lay sg]) blast
  let ?m1 = "m\<lparr>mem := f, prot_at := p\<rparr>"
  note sg1 = on_stack_given [OF m1(2) sg]
  obtain e where e: "env_entry ''TARGET_LD'' env = Some e" "drop 10 (snd e) = name" using eg by (auto simp: env_given_def)
  obtain q where q: "getenv m environ (bytes_of ''TARGET_LD'') = Inr q" "q \<noteq> 0"
    "q = S + of_nat (fst e + length ''TARGET_LD'' + 1)" by (rule given_getenv [OF sg e(1)])
  obtain q' where q': "cstr_at ?m1 q' = Inr (drop (length ''TARGET_LD'' + 1) (snd e))"
    "q' = S + of_nat (fst e + length ''TARGET_LD'' + 1)" by (rule given_getenv [OF sg1 e(1)])
  have "length ''TARGET_LD'' + 1 = 10" by simp
  then have name: "cstr_at ?m1 q = Inr name" using q' q(3) e(2) by (simp only:)
  obtain e' where "env_entry ''UH_PRELOAD'' env = Some e'" using sg by (auto simp: stack_given_def)
  note e' = this
  obtain u where u: "getenv m environ (bytes_of ''UH_PRELOAD'') = Inr u" "u \<noteq> 0" by (rule given_getenv [OF sg e'])
  have "files ?m1 = files m" "free_fd ?m1 = free_fd m" by (simp_all add: free_fd_def)
  then have lg1: "loader_given K ?m1 name c hs mo so rk"
    using lg get_symbol_offset_files [of ?m1 m K name] by (simp add: loader_given_def lib_on_disk_def)
  obtain st' m2 where m2: "safeLoadLib K environ name ld_init ?m1 = Inr (lib_info c (rank_base rk) mo so, st', m2)"
    "image_loaded c (rank_base rk) (loads_of hs) ?m1 m2" "on_stack ?m1 S n m2"
    "\<And>ph x. ph \<in> set (loads_of hs) \<Longrightarrow> in_seg (rank_base rk) ph x \<Longrightarrow> rank_range rk x \<and> rank_base rk \<le> x"
    by (rule load_step [OF K lg1 sg1 eg rk S]) blast
  note sg2 = on_stack_given [OF m2(3) sg1]
  have free: "prot_at m2 x = None" if "rank_range rk x" "x < rank_base rk" for x
  proof -
    have "\<forall>ph \<in> set (loads_of hs). \<not> in_seg (rank_base rk) ph x" using m2(4) that(2) by fastforce
    then show ?thesis using m2(2) m1(3) [OF that(1)] by (auto simp: image_loaded_def)
  qed
  have "p x = prot_at m2 x" if "e \<in> {vv, vd, st}" "in_entry e x" for e x
  proof -
    have "unat (e_start vv) \<le> unat x"
      using in_regions(1) [OF rank_layout_above [OF lay] that] by (simp add: word_le_nat_alt)
    then have "\<not> rank_range rk x" using lay unfolding rank_layout_def rank_range_def by linarith
    then have "\<forall>ph \<in> set (loads_of hs). \<not> in_seg (rank_base rk) ph x" using m2(4) by blast
    then show ?thesis using m2(2) by (simp add: image_loaded_def)
  qed
  then have "regions_mapped vv vd st (prot_at m2)" by (intro regions_mappedI [OF m1(4)]) simp
  note listed = knows_stack_listed [OF regs this]
  let ?info = "lib_info c (rank_base rk) mo so" and ?len = "e_end st - e_start st"
  obtain N m3 where m3: "createNewStackForRtld K environ sp ?info m2 = Inr (N + of_nat (tk + 8), m3)"
    "stack_made ?info N ?len tk args env aux m2 m3" "N + of_nat (tk + 8) \<noteq> 0" "no_wrap N (ROUND_UP ?len)"
    "n \<le> unat (ROUND_UP ?len)" "unat (ROUND_UP ?len) \<le> 2 ^ 30 + 4096"
    "\<And>x. in_range N (ROUND_UP ?len) x \<Longrightarrow> prot_at m2 x = None"
    by (rule stack_step [OF K listed sg2 rk n free, where info = ?info], assumption, assumption) (rule that)
  have len: "unat ?len = n" using sg by (auto simp: stack_given_def stack_region_def)
  obtain r m4 m5 m6 m7 where "createNewHeapForRtld K m3 = Inr (r, m4)" "r \<noteq> 0"
    "insertTrampoline K (rank_base rk + mo) (k_sym K ''mmapWrapper'') m4 = Inr (0, m5)"
    "insertTrampoline K (rank_base rk + so) (k_sym K ''sbrkWrapper'') m5 = Inr (0, m6)"
    "setupLowerHalfInfo K m6 = (0, m7)"
    "process_ready K m7 c (rank_base rk) (loads_of hs) mo so N n tk args env aux"
    by (rule run_after_stack [OF K lg1 rk m2(2) m3(2,4) len m3(5-7) free])
  then show thesis
    by (rule that [OF q(1,2) u given_rank_id [OF sg eg] m1(1) name m2(1) m3(1,3)])
qed

lemma runRtld_ready:
  fixes m :: "'a lower_half_scheme"
  assumes "process_given K environ brk sp m rk name c hs mo so vv vd st S n tk args env aux"
  shows "\<exists>N m'. runRtld K environ brk sp m =
      Inr (Jump (N + of_nat (tk + 8)) (rank_base rk + e_entry (ehdr_of_bytes (take 64 c))), m') \<and>
    process_ready K m' c (rank_base rk) (loads_of hs) mo so N n tk args env aux"
proof -
  have lg: "loader_given K m name c hs mo so rk" and "unat rk < 2 ^ 14"
    using assms by (simp_all add: process_given_def rank_layout_def)
  then have info: "baseAddr (lib_info c (rank_base rk) mo so) \<noteq> 0" "entryPoint (lib_info c (rank_base rk) mo so) \<noteq> 0"
    "mmapAddr (lib_info c (rank_base rk) mo so) = rank_base rk + mo" "sbrkAddr (lib_info c (rank_base rk) mo so) = rank_base rk + so"
    "entryPoint (lib_info c (rank_base rk) mo so) = rank_base rk + e_entry (ehdr_of_bytes (take 64 c))"
    using rank_base_ok [of rk] by (simp_all add: lib_info_def loader_given_def patch_in_image_def base_ok_def Let_def)
  obtain m1 q u m2 st' N m3 r m4 m5 m6 m7 where s:
    "getenv m environ (bytes_of ''TARGET_LD'') = Inr q" "q \<noteq> 0"
    "getenv m environ (bytes_of ''UH_PRELOAD'') = Inr u" "u \<noteq> 0"
    "rank_id environ m = Inr rk" "confine_addr_space K brk sp rk m = Inr m1" "cstr_at m1 q = Inr name"
    "safeLoadLib K environ name ld_init m1 = Inr (lib_info c (rank_base rk) mo so, st', m2)"
    "createNewStackForRtld K environ sp (lib_info c (rank_base rk) mo so) m2 = Inr (N + of_nat (tk + 8), m3)"
    "N + of_nat (tk + 8) \<noteq> 0" "createNewHeapForRtld K m3 = Inr (r, m4)" "r \<noteq> 0"
    "insertTrampoline K (rank_base rk + mo) (k_sym K ''mmapWrapper'') m4 = Inr (0, m5)"
    "insertTrampoline K (rank_base rk + so) (k_sym K ''sbrkWrapper'') m5 = Inr (0, m6)"
    "setupLowerHalfInfo K m6 = (0, m7)"
    "process_ready K m7 c (rank_base rk) (loads_of hs) mo so N n tk args env aux"
    by (rule run_steps [OF assms])
  have "runRtld K environ brk sp m = Inr (Jump (N + of_nat (tk + 8)) (rank_base rk + e_entry (ehdr_of_bytes (take 64 c))), m7)"
    using s(2,4,10,12) info(1,2)
    by (simp add: runRtld_def s(1,3,5-9,11,13-15) info(3-5) getEntryPoint_def del: of_nat_add of_nat_Suc)
  then show ?thesis using s(16) by blast
qed


text \<open>
  C4. From the start of the program to the jump: when the kernel refuses nothing it can grant and the range of
  the rank is free, \<open>runRtld\<close> does not return. It jumps to the entry of the runtime loader, with the stack pointer at the \<open>argc\<close> of the
  new stack; at that moment the image is complete but for the two functions that now jump to
  the wrappers, the new stack is the copy in which the loader is described, the break lies in a well-formed
  heap and the address file holds the addresses of the lower half.
\<close>

theorem runRtld_jumps:
  fixes m :: "'a lower_half_scheme"
  assumes "process_given K environ brk sp m rk name c hs mo so vv vd st S n tk args env aux"
  shows "\<exists>N m'. runRtld K environ brk sp m =
      Inr (Jump (N + of_nat (tk + 8)) (rank_base rk + e_entry (ehdr_of_bytes (take 64 c))), m') \<and>
    process_ready K m' c (rank_base rk) (loads_of hs) mo so N n tk args env aux"
  by (rule runRtld_ready [OF assms])

section \<open>A run\<close>

lemma start_willing: "kernel_willing loader_kernel"
  using loader_kernel_ok
  by (simp add: kernel_willing_def) (simp add: loader_kernel_def rank_kernel_def plain_kernel_def)

lemma start_layout: "rank_layout (prot_at start_process) 0x10000 vvar_entry vdso_entry stack_entry 1"
proof -
  have "prot_at start_process x = None" if "rank_range 1 x" for x
    using that by (simp add: start_process_def rank_range_def in_range_unat no_wrap_def)
  then show ?thesis
    unfolding rank_layout_def using start_regions
    by (intro conjI) (simp_all add: region_entries page_aligned_iff word_le_nat_alt word_less_nat_alt)
qed

lemma start_env_given: "env_given start_env ld_name 1"
proof -
  have "env_entry ''TARGET_LD'' start_env = Some (4228, bytes_of ''TARGET_LD='' @ ld_name)"
    "env_entry ''RANK_ID'' start_env = Some (4273, bytes_of ''RANK_ID=1'')" by code_simp+
  moreover have "drop 10 (bytes_of ''TARGET_LD='' @ ld_name) = ld_name" by simp
  moreover have "atoi (drop 8 (bytes_of ''RANK_ID=1'')) = 1"
    by (simp add: atoi_def strtol_def bytes_of_def is_space_def digits_val_def is_digit_def word_le_nat_alt)
  ultimately show ?thesis by (simp add: env_given_def)
qed

lemma start_library: "lib_on_disk loader_kernel ld_name ld_file start_process"
proof -
  have "files start_process ld_name = Some ld_file"
    by (simp add: start_process_def poke_def) (simp add: proc_stat_def ld_name_def bytes_of_def)
  moreover have "find (\<lambda>i. fds start_process (int i) = None) [0..<1024] = Some 3"
    unfolding find_Some_iff by (rule exI [of _ 3]) (simp add: start_process_def poke_def)
  then have "free_fd start_process = Some 3" by (simp add: free_fd_def)
  ultimately show ?thesis
    by (simp add: lib_on_disk_def loader_kernel_def rank_kernel_def plain_kernel_def MAX_ELF_INTERP_SZ_def)
      (simp add: ld_name_def bytes_of_def)
qed

lemma start_symbols:
  "get_symbol_offset loader_kernel start_process ld_name (bytes_of ''mmap'') = Inr 0x100"
  "get_symbol_offset loader_kernel start_process ld_name (bytes_of ''sbrk'') = Inr 0xffa"
proof -
  have "open_ro loader_kernel ld_name start_process = Some \<lparr>content = ld_file, pos = 0, answers = []\<rparr>"
    using start_library by (simp add: open_ro_def lib_on_disk_def)
  moreover have "\<forall>k. k_malloc loader_kernel k" by (simp add: loader_kernel_def rank_kernel_def plain_kernel_def)
  ultimately show "get_symbol_offset loader_kernel start_process ld_name (bytes_of ''mmap'') = Inr 0x100"
    "get_symbol_offset loader_kernel start_process ld_name (bytes_of ''sbrk'') = Inr 0xffa"
    by (rule ld_file_symbols)+
qed

lemma start_loader: "loader_given loader_kernel start_process ld_name ld_file ld_headers 0x100 0xffa 1"
proof -
  have base: "rank_base 1 = 0x2c0000000" using unat_rank_base [of 1] by (simp add: word_unat_eq_iff)
  have seg: "\<exists>ph \<in> set ld_loads. in_seg 0x2c0000000 ph x" if "unat (x - 0x2c0000000) < 0x4000" for x
    using that by (cases "unat (x - 0x2c0000000) < 0x1000") (simp_all add: ld_loads_def in_seg_def seg_lo_def seg_hi_def page_up_def)
  have pages: "ROUND_DOWN 0x2c0000100 = 0x2c0000000" "patch_pages 0x2c0000100 = 0x1000"
    "ROUND_DOWN 0x2c0000ffa = 0x2c0000000" "patch_pages 0x2c0000ffa = 0x2000"
    by (simp_all add: patch_pages_def ROUND_DOWN_def PAGE_SIZE_def asm_jump_def)
  have "patch_in_image 0x2c0000000 ld_loads 0x100" "patch_in_image 0x2c0000000 ld_loads 0xffa"
    using seg by (simp_all add: patch_in_image_def pages in_range_def word_less_nat_alt)
  moreover have "\<not> in_range 0x2c0000100 12 x" if "in_range 0x2c0000ffa 12 x" for x
    using that by (auto simp: in_range_unat no_wrap_def)
  ultimately show ?thesis
    using start_library start_symbols ld_loadable by (simp add: loader_given_def base ld_loads ld_header)
qed

theorem runRtld_jumps_witness:
  "\<exists>N m'. runRtld loader_kernel 0x7ffff8001028 0x10000 0x7ffff8001000 start_process =
      Inr (Jump (N + of_nat (4096 + 8)) 0x2c0000100, m') \<and>
    process_ready loader_kernel m' ld_file 0x2c0000000 ld_loads 0x100 0xffa N 8192 4096 start_args start_env start_aux"
proof -
  have base: "rank_base 1 = 0x2c0000000" using unat_rank_base [of 1] by (simp add: word_unat_eq_iff)
  have "process_given loader_kernel 0x7ffff8001028 0x10000 0x7ffff8001000 start_process 1 ld_name ld_file ld_headers 0x100 0xffa
      vvar_entry vdso_entry stack_entry 0x7ffff8000000 8192 4096 start_args start_env start_aux"
    unfolding process_given_def
    using start_willing loader_kernel_regions start_layout start_given start_env_given start_loader by simp
  from runRtld_jumps [OF this] show ?thesis by (simp add: base ld_loads ld_header)
qed

end
