(* ===== verification/Logging.thy ===== *)
theory Logging
  imports ProcMaps
begin

text \<open>
  The diagnostics of \<open>common.h\<close>: the levels, the colours of a terminal and the macro \<open>DLOG\<close>, which writes a line to
  the standard error when its level is within \<open>DEBUG_LEVEL\<close>, a number fixed when the program is compiled. The other
  theories leave the calls of \<open>DLOG\<close> out: they only print.
\<close>

section \<open>Levels and colours\<close>

definition SUPERNOISE :: nat where "SUPERNOISE = 4"
definition NOISE :: nat where "NOISE = 3"
definition INFO :: nat where "INFO = 2"
definition ERROR :: nat where "ERROR = 1"

text \<open>\<open>DEBUG_LEVEL\<close> where the build does not set it.\<close>

definition DEBUG_LEVEL_default :: nat where "DEBUG_LEVEL_default = 3"

definition KNRM :: "byte list" where "KNRM = 0x1B # bytes_of ''[0m''"
definition KRED :: "byte list" where "KRED = 0x1B # bytes_of ''[31m''"
definition KGRN :: "byte list" where "KGRN = 0x1B # bytes_of ''[32m''"
definition KYEL :: "byte list" where "KYEL = 0x1B # bytes_of ''[33m''"
definition KBLU :: "byte list" where "KBLU = 0x1B # bytes_of ''[34m''"
definition KMAG :: "byte list" where "KMAG = 0x1B # bytes_of ''[35m''"
definition KCYN :: "byte list" where "KCYN = 0x1B # bytes_of ''[36m''"
definition KWHT :: "byte list" where "KWHT = 0x1B # bytes_of ''[37m''"

definition colors :: "byte list list" where "colors = [KNRM, KRED, KBLU, KGRN]"

section \<open>One message\<close>

text \<open>\<open>%d\<close>\<close>

definition int_str :: "int \<Rightarrow> byte list" where
  "int_str i = (if i < 0 then [ch CHR ''-''] else []) @ map digit_char (digits 10 (nat \<bar>i\<bar>))"

text \<open>
  A call of \<open>DLOG\<close>: its level, the file and the line it is written in, and the text its format and arguments make.
  The result is what it prints; \<open>None\<close> is the read of an element that \<open>colors\<close> does not have.
\<close>

record message =
  LOG_LEVEL :: nat
  msg_file :: "byte list"
  msg_line :: int
  msg_text :: "byte list"

definition DLOG :: "nat \<Rightarrow> message \<Rightarrow> byte list option" where
  "DLOG DEBUG_LEVEL d =
     (if DEBUG_LEVEL \<noteq> 0 then
        if LOG_LEVEL d \<le> DEBUG_LEVEL then
          if LOG_LEVEL d < length colors then
            Some (colors ! LOG_LEVEL d @ bytes_of ''['' @ msg_file d @ bytes_of '' +'' @ int_str (msg_line d) @
                  bytes_of '']: '' @ msg_text d @ KNRM)
          else None
        else Some []
      else Some [])"

text \<open>What a run that executes these calls in turn prints.\<close>

fun log_output :: "nat \<Rightarrow> message list \<Rightarrow> byte list option" where
  "log_output D [] = Some []"
| "log_output D (d # ds) =
     (case DLOG D d of None \<Rightarrow> None | Some s \<Rightarrow> map_option (\<lambda>t. s @ t) (log_output D ds))"

definition level_ok :: "message \<Rightarrow> bool" where
  "level_ok d \<longleftrightarrow> LOG_LEVEL d \<in> {ERROR, INFO, NOISE, SUPERNOISE}"

lemmas levels = ERROR_def INFO_def NOISE_def SUPERNOISE_def

lemma DLOG_None_iff: "DLOG D d = None \<longleftrightarrow> LOG_LEVEL d \<le> D \<and> D \<noteq> 0 \<and> SUPERNOISE \<le> LOG_LEVEL d"
  by (auto simp: DLOG_def colors_def levels)

lemma DLOG_mono:
  assumes "level_ok d" "D \<le> D'" "DLOG D' d = Some s'"
  shows "DLOG D d = Some [] \<or> DLOG D d = Some s'"
  using assms by (auto simp: DLOG_def level_ok_def levels split: if_splits)

lemma log_output_None_iff: "log_output D ds = None \<longleftrightarrow> (\<exists>d \<in> set ds. DLOG D d = None)"
  by (induction ds) (auto split: option.splits)

lemma log_output_mono:
  assumes "list_all level_ok ds" "D \<le> D'" "log_output D' ds = Some t'"
  shows "\<exists>t. log_output D ds = Some t \<and> subseq t t'"
  using assms(1,3)
proof (induction ds arbitrary: t')
  case Nil
  then show ?case by simp
next
  case (Cons d ds)
  then obtain s' u' where s': "DLOG D' d = Some s'" "log_output D' ds = Some u'" "t' = s' @ u'"
    by (auto split: option.splits)
  moreover obtain u where u: "log_output D ds = Some u" "subseq u u'" using Cons s'(2) by auto
  moreover obtain s where "DLOG D d = Some s" "subseq s s'"
    using DLOG_mono [OF _ assms(2) s'(1)] Cons.prems(1) by auto
  ultimately show ?case by (auto intro: list_emb_append_mono)
qed

section \<open>What a larger level prints\<close>

text \<open>
  C40. Up to \<open>NOISE\<close>, the level of a build that sets none, every message can be printed, and a larger
  level only adds lines: what a run prints at a smaller level is a subsequence of what it prints at the larger. From
  \<open>SUPERNOISE\<close> on a run reads past the end of \<open>colors\<close>, namely with its first message of that level; the MPI
  wrappers of the upper half have one.
\<close>

theorem log_levels:
  assumes "list_all level_ok ds" "D \<le> D'"
  shows "(D' < SUPERNOISE \<longrightarrow> (\<exists>t t'. log_output D ds = Some t \<and> log_output D' ds = Some t' \<and> subseq t t')) \<and>
    (SUPERNOISE \<le> D' \<longrightarrow> (log_output D' ds = None \<longleftrightarrow> (\<exists>d \<in> set ds. LOG_LEVEL d = SUPERNOISE)))"
proof (intro conjI impI)
  assume "D' < SUPERNOISE"
  then have "log_output D' ds \<noteq> None" by (auto simp: log_output_None_iff DLOG_None_iff)
  then show "\<exists>t t'. log_output D ds = Some t \<and> log_output D' ds = Some t' \<and> subseq t t'"
    using log_output_mono [OF assms] by auto
next
  assume "SUPERNOISE \<le> D'"
  moreover have "SUPERNOISE \<le> LOG_LEVEL d \<longleftrightarrow> LOG_LEVEL d = SUPERNOISE" if "d \<in> set ds" for d
    using assms(1) that by (auto simp: list_all_iff level_ok_def levels)
  ultimately have "DLOG D' d = None \<longleftrightarrow> LOG_LEVEL d = SUPERNOISE" if "d \<in> set ds" for d
    using that by (auto simp: DLOG_None_iff levels)
  then show "log_output D' ds = None \<longleftrightarrow> (\<exists>d \<in> set ds. LOG_LEVEL d = SUPERNOISE)"
    by (auto simp: log_output_None_iff)
qed

text \<open>The messages of an MPI call, in the wrapper and in \<open>lhDlsym\<close>.\<close>

definition wrapper_messages :: "message list" where
  "wrapper_messages =
     [\<lparr>LOG_LEVEL = SUPERNOISE, msg_file = bytes_of ''upper-half-mpi-wrappers.c'', msg_line = 22,
       msg_text = bytes_of ''In wrapper'' @ [NEWLINE]\<rparr>,
      \<lparr>LOG_LEVEL = INFO, msg_file = bytes_of ''mpi-lh-if.c'', msg_line = 18,
       msg_text = bytes_of ''LH: Dlsym called with: 1'' @ [NEWLINE]\<rparr>]"

theorem log_levels_witness:
  "(\<exists>t t'. log_output ERROR wrapper_messages = Some t \<and> log_output DEBUG_LEVEL_default wrapper_messages = Some t' \<and> subseq t t') \<and>
   log_output SUPERNOISE wrapper_messages = None"
proof -
  have ok: "list_all level_ok wrapper_messages" by (simp add: wrapper_messages_def level_ok_def)
  have "ERROR \<le> DEBUG_LEVEL_default" "DEBUG_LEVEL_default < SUPERNOISE" by (simp_all add: DEBUG_LEVEL_default_def levels)
  moreover have "\<exists>d \<in> set wrapper_messages. LOG_LEVEL d = SUPERNOISE" by (simp add: wrapper_messages_def)
  ultimately show ?thesis
    using log_levels [OF ok, of ERROR DEBUG_LEVEL_default] log_levels [OF ok, of SUPERNOISE SUPERNOISE] by blast
qed

end
