(* ===== verification/Target.thy ===== *)
theory Target
  imports UpperHalf Logging
begin

text \<open>
  The application that is checkpointed (\<open>target.c\<close>): it counts to two, asks for a checkpoint, and counts on,
  after a restart with MPI initialised again. Its counter \<open>i\<close> is a local variable in memory at the address
  \<open>ai\<close>, so that what a restart finds in it is what the image holds; what it prints is collected.
\<close>

section \<open>State and output\<close>

record app = process +
  app_out :: "byte list"

definition say :: "byte list \<Rightarrow> 'a app_scheme \<Rightarrow> 'a app_scheme" where
  "say s m = m\<lparr>app_out := app_out m @ s\<rparr>"

definition get_i :: "va \<Rightarrow> 'a machine_scheme \<Rightarrow> u32" where
  "get_i ai m = le_word (peek m ai 4)"

definition set_i :: "va \<Rightarrow> u32 \<Rightarrow> 'a machine_scheme \<Rightarrow> 'a machine_scheme" where
  "set_i ai w m = poke ai (le_bytes 4 w) m"

lemma get_set_i [simp]: "get_i ai (set_i ai w m) = w"
  using peek_poke [of "le_bytes 4 w" ai m] by (simp add: get_i_def set_i_def codec_simps)

lemma set_i_set_i [simp]: "set_i ai w (set_i ai v m) = set_i ai w m"
  using poke_poke_inner [of 0 "le_bytes 4 w" "le_bytes 4 v" ai m] by (simp add: set_i_def)

lemma say_simps [simp]:
  "get_i ai (say s m) = get_i ai m" "get_state K (say s m) = get_state K m" "app_out (say s m) = app_out m @ s"
  "say t (say s m) = say (s @ t) m" "say [] m = m"
  by (simp_all add: say_def get_i_def get_state_def peek_def)

lemma set_i_simps [simp]:
  "app_out (set_i ai w m) = app_out m" "set_i ai w (say s m) = say s (set_i ai w m)"
  by (simp_all add: set_i_def poke_def say_def cong: if_cong)

lemma get_i_upd [simp]:
  "get_i ai (m\<lparr>files := fs\<rparr>) = get_i ai m" "get_i ai (m'\<lparr>fs_base := a\<rparr>) = get_i ai m'"
  "get_i ai (m''\<lparr>initialized := b\<rparr>) = get_i ai m''"
  by (simp_all add: get_i_def peek_def)

section \<open>The program\<close>

definition processArgs :: "byte list list \<Rightarrow> 'a app_scheme \<Rightarrow> 'a app_scheme" where
  "processArgs argv m =
     (if length argv > 1 then
        let m = say (bytes_of ''App: called with the following args: '') m;
            m = foldl (\<lambda>m j. say (argv ! j @ [ch CHR '' '']) m) m [1..<length argv]
        in say [NEWLINE] m
      else m)"

text \<open>One round of the loops, and the loop \<open>while (i < n)\<close>; \<open>fflush\<close> and \<open>sleep\<close> have no effect on the state.\<close>

definition count_round :: "va \<Rightarrow> 'a app_scheme \<Rightarrow> 'a app_scheme" where
  "count_round ai m =
     (let m = say (int_str (sint (get_i ai m)) @ [ch CHR '' '']) m
      in set_i ai (get_i ai m + 1) m)"

lemma get_i_round [simp]: "get_i ai (count_round ai m) = get_i ai m + 1"
  by (simp add: count_round_def Let_def)

lemma count_round_closer:
  assumes "(i :: u32) <s n" shows "sint (i + 1) = sint i + 1"
proof -
  have "sint i < sint n" using assms by (simp add: word_sless_alt)
  then have "- (2 ^ 31) \<le> sint i + 1" "sint i + 1 < 2 ^ 31" using sint_ge [of i] sint_lt [of n] by simp_all
  then show ?thesis by (simp add: sint_word_ariths signed_take_bit_int_eq_self)
qed

function count_while :: "va \<Rightarrow> u32 \<Rightarrow> 'a app_scheme \<Rightarrow> 'a app_scheme" where
  "count_while ai n m = (if get_i ai m <s n then count_while ai n (count_round ai m) else m)"
  by pat_completeness auto
termination
  by (relation "measure (\<lambda>(ai, n, m). nat (sint n - sint (get_i ai m)))")
     (auto simp: count_round_closer word_sless_alt)

declare count_while.simps [simp del]

text \<open>What the loop prints, and that it leaves \<open>i\<close> at its bound and touches nothing else.\<close>

definition count_text :: "int \<Rightarrow> int \<Rightarrow> byte list" where
  "count_text i n = concat (map (\<lambda>j. int_str j @ [ch CHR '' '']) [i..n - 1])"

lemma count_while_counts:
  "get_i ai m <s n \<Longrightarrow> count_while ai n m = say (count_text (sint (get_i ai m)) (sint n)) (set_i ai n m)"
proof (induction ai n m rule: count_while.induct)
  case (1 ai n m)
  let ?i = "get_i ai m" and ?m = "count_round ai m"
  have i: "sint (?i + 1) = sint ?i + 1" "sint ?i < sint n"
    using count_round_closer [OF "1.prems"] "1.prems" by (simp_all add: word_sless_alt)
  have step: "count_while ai n m = count_while ai n ?m" using "1.prems" by (simp add: count_while.simps [of ai n m])
  have first: "[sint ?i..sint n - 1] = sint ?i # [sint ?i + 1..sint n - 1]" using i(2) by (simp add: upto_rec1)
  show ?case
  proof (cases "?i + 1 <s n")
    case True
    then have "count_while ai n ?m = say (count_text (sint ?i + 1) (sint n)) (set_i ai n ?m)"
      using "1.IH" [OF "1.prems"] i(1) by simp
    then show ?thesis by (simp add: step count_text_def first) (simp add: count_round_def Let_def)
  next
    case False
    then have "sint n = sint ?i + 1" using i by (simp add: word_sless_alt)
    moreover have "n = ?i + 1" by (rule signed_word_eqI [where ?'a = int]) (simp only: calculation i(1))
    ultimately have n: "n = ?i + 1" "sint n = sint ?i + 1" by blast+
    have "count_while ai n ?m = ?m" using False by (simp add: count_while.simps [of ai n ?m])
    then show ?thesis by (simp add: step count_text_def first n(2)) (simp add: count_round_def Let_def n(1))
  qed
qed

lemma count_texts: "count_text 0 2 = bytes_of ''0 1 ''" "count_text 2 4 = bytes_of ''2 3 ''"
  by (simp_all add: count_text_def int_str_def upto_rec1 digits.simps digit_char_def ch_def bytes_of_def)

text \<open>
  The calls of weak functions: \<open>resolved\<close> says whether the dynamic linker has found the function,
  in the preloaded library of the upper half.
\<close>

definition MPI_Init_call :: "kernel \<Rightarrow> (string \<Rightarrow> bool) \<Rightarrow> (va \<Rightarrow> u32 \<Rightarrow> va) \<Rightarrow>
    (va \<Rightarrow> 'args \<Rightarrow> 'a process_scheme \<Rightarrow> (int \<times> 'a process_scheme) run) \<Rightarrow> 'args \<Rightarrow>
    'a process_scheme \<Rightarrow> (int \<times> 'a process_scheme) run" where
  "MPI_Init_call K resolved dlsym code args m =
     (if resolved ''MPI_Init'' then MPI_wrapper K dlsym code MPI_Fnc_Init args m else Inr (0, m))"

definition doCheckpoint_call :: "kernel \<Rightarrow> (string \<Rightarrow> bool) \<Rightarrow> byte list option \<Rightarrow> va \<Rightarrow> 'a process_scheme \<Rightarrow>
    (u32 \<times> 'a process_scheme) run" where
  "doCheckpoint_call K resolved ctx sp m =
     (if resolved ''doCheckpoint'' then doCheckpoint K ctx sp m else Inr (0, m))"

text \<open>\<open>main\<close> up to the call of \<open>doCheckpoint\<close>, from its return on, and as a whole.\<close>

definition main_before :: "kernel \<Rightarrow> (string \<Rightarrow> bool) \<Rightarrow> (va \<Rightarrow> u32 \<Rightarrow> va) \<Rightarrow>
    (va \<Rightarrow> 'args \<Rightarrow> 'a app_scheme \<Rightarrow> (int \<times> 'a app_scheme) run) \<Rightarrow> 'args \<Rightarrow> va \<Rightarrow> byte list list \<Rightarrow> 'a app_scheme \<Rightarrow>
    'a app_scheme run" where
  "main_before K resolved dlsym code args ai argv m =
     (let m = set_i ai 0 m;
          m = processArgs argv m
      in andThen (MPI_Init_call K resolved dlsym code args m) (\<lambda>(rc, m).
           let m = say (bytes_of ''App: MPI_Init returned: '' @ int_str rc @ [NEWLINE]) m;
               m = count_while ai 2 m
           in Inr (say [NEWLINE] m)))"

definition main_after :: "kernel \<Rightarrow> (string \<Rightarrow> bool) \<Rightarrow> (va \<Rightarrow> u32 \<Rightarrow> va) \<Rightarrow>
    (va \<Rightarrow> 'args \<Rightarrow> 'a app_scheme \<Rightarrow> (int \<times> 'a app_scheme) run) \<Rightarrow> 'args \<Rightarrow> va \<Rightarrow> u32 \<Rightarrow> 'a app_scheme \<Rightarrow>
    (int \<times> 'a app_scheme) run" where
  "main_after K resolved dlsym code args ai ret m =
     andThen
       (if ret = CkptOrRestore_code POST_RESUME then
          Inr (say (bytes_of ''App: Resuming after ckpt...'' @ [NEWLINE]) m)
        else if ret = CkptOrRestore_code POST_RESTART then
          let m = say (bytes_of ''App: Restarting from a ckpt...'' @ [NEWLINE]) m;
              m = say (bytes_of ''App: Calling MPI_Init after restart...'' @ [NEWLINE]) m
          in andThen (MPI_Init_call K resolved dlsym code args m) (\<lambda>(rc, m).
               Inr (say (bytes_of ''App: MPI_Init returned: '' @ int_str rc @ [NEWLINE]) m))
        else Inr m)
       (\<lambda>m.
         let m = count_while ai 4 m;
             m = say [NEWLINE] m
         in Inr (0 :: int, m))"

definition target_main :: "kernel \<Rightarrow> (string \<Rightarrow> bool) \<Rightarrow> (va \<Rightarrow> u32 \<Rightarrow> va) \<Rightarrow>
    (va \<Rightarrow> 'args \<Rightarrow> 'a app_scheme \<Rightarrow> (int \<times> 'a app_scheme) run) \<Rightarrow> 'args \<Rightarrow> va \<Rightarrow> byte list option \<Rightarrow> va \<Rightarrow> byte list list \<Rightarrow>
    'a app_scheme \<Rightarrow> (int \<times> 'a app_scheme) run" where
  "target_main K resolved dlsym code args ai ctx sp argv m =
     andThen (main_before K resolved dlsym code args ai argv m) (\<lambda>m.
     andThen (doCheckpoint_call K resolved ctx sp m) (\<lambda>(ret, m).
       main_after K resolved dlsym code args ai ret m))"

text \<open>
  The application in a restarted process: \<open>setcontext\<close> returns a second time from \<open>getcontext\<close> in the handler, on
  the restored stack, so the handler, \<open>doCheckpoint\<close> and \<open>main\<close> go on from there.
\<close>

definition restarted_main :: "kernel \<Rightarrow> (string \<Rightarrow> bool) \<Rightarrow> (va \<Rightarrow> u32 \<Rightarrow> va) \<Rightarrow>
    (va \<Rightarrow> 'args \<Rightarrow> 'a app_scheme \<Rightarrow> (int \<times> 'a app_scheme) run) \<Rightarrow> 'args \<Rightarrow> va \<Rightarrow> ofile \<Rightarrow> byte list \<Rightarrow> va \<Rightarrow>
    'a app_scheme \<Rightarrow> (int \<times> 'a app_scheme) run" where
  "restarted_main K resolved dlsym code args ai ckptfd ctx sp m =
     andThen (handler_after_getcontext K ckptfd ctx sp m) (\<lambda>m.
       let (ret, m) = report_state K m
       in main_after K resolved dlsym code args ai ret m)"

section \<open>What it does\<close>

text \<open>The two variables do not share a byte.\<close>

definition i_apart :: "kernel \<Rightarrow> va \<Rightarrow> bool" where
  "i_apart K ai \<longleftrightarrow> (\<forall>j < 4. \<forall>k < 4. ai + of_nat j \<noteq> k_sym K ''state'' + of_nat k)"

lemma poke4_elsewhere:
  assumes "\<forall>j < 4. \<forall>k < 4. b + of_nat j \<noteq> a + of_nat k" "j < 4"
  shows "mem (poke a (le_bytes 4 w) m) (b + of_nat j) = mem m (b + of_nat j)"
proof -
  have "\<not> unat (b + of_nat j - a) < 4"
  proof
    assume "unat (b + of_nat j - a) < 4"
    moreover have "b + of_nat j = a + of_nat (unat (b + of_nat j - a))" by simp
    ultimately show False using assms by blast
  qed
  then show ?thesis by (simp add: mem_poke)
qed

lemma i_apart_simps:
  assumes "i_apart K ai"
  shows "get_i ai (set_state K s m) = get_i ai m" "get_state K (set_i ai w m) = get_state K m"
proof -
  have *: "\<forall>j < 4. \<forall>k < 4. k_sym K ''state'' + of_nat j \<noteq> ai + of_nat k" using assms unfolding i_apart_def by metis
  show "get_i ai (set_state K s m) = get_i ai m"
    unfolding get_i_def set_state_def
    by (rule arg_cong [of _ _ le_word], rule peek_eqI)
       (use poke4_elsewhere assms in \<open>simp add: i_apart_def del: of_nat_add\<close>)
  show "get_state K (set_i ai w m) = get_state K m"
    unfolding get_state_def set_i_def
    by (rule arg_cong [of _ _ le_word], rule peek_eqI) (rule poke4_elsewhere [OF *])
qed

definition args_text :: "byte list list \<Rightarrow> byte list" where
  "args_text argv = (if length argv > 1 then
     bytes_of ''App: called with the following args: '' @ concat (map (\<lambda>s. s @ [ch CHR '' '']) (tl argv)) @ [NEWLINE]
     else [])"

lemma processArgs_text:
  fixes m :: "'a app_scheme" shows "processArgs argv m = say (args_text argv) m"
proof -
  have "foldl (\<lambda>m j. say (argv ! j @ [ch CHR '' '']) m) m js = say (concat (map (\<lambda>j. argv ! j @ [ch CHR '' '']) js)) m"
    for js and m :: "'a app_scheme"
    by (induction js arbitrary: m) simp_all
  moreover have "map (\<lambda>j. argv ! j @ [ch CHR '' '']) [1..<length argv] = map (\<lambda>s. s @ [ch CHR '' '']) (tl argv)"
    by (rule nth_equalityI) (simp_all add: nth_tl)
  ultimately show ?thesis by (simp add: processArgs_def args_text_def Let_def)
qed

text \<open>
  The first call of an MPI function: without the preloaded library it does nothing; with it the wrappers know a
  lower half that is there, or they have not been used, and find one in the address file. \<open>m1\<close> is the process after it.
\<close>

definition mpi_starts :: "kernel \<Rightarrow> (string \<Rightarrow> bool) \<Rightarrow> (va \<Rightarrow> u32 \<Rightarrow> va) \<Rightarrow>
    (va \<Rightarrow> 'args \<Rightarrow> 'a process_scheme \<Rightarrow> (int \<times> 'a process_scheme) run) \<Rightarrow> 'a process_scheme \<Rightarrow> 'a process_scheme \<Rightarrow> bool" where
  "mpi_starts K resolved dlsym code m m1 \<longleftrightarrow>
     (if \<not> resolved ''MPI_Init'' then m1 = m
      else k_set_fs K (fs_base m) \<and>
        (if initialized m then lower_half_code K (lhDlsym (uh_lhInfo m)) dlsym code \<and> m1 = m
         else \<exists>info. published K info m \<and> lower_half_code K (lhDlsym info) dlsym code \<and>
           m1 = m\<lparr>uh_lhInfo := info, files := (files m)(LH_FILE_NAME := None), initialized := True\<rparr>))"

lemma Init_between: "MPI_Fnc_NULL < MPI_Fnc_Init" "MPI_Fnc_Init < MPI_Fnc_Invalid"
  by (simp_all add: less_MPI_Fncs_def word_less_nat_alt)

lemma MPI_Init_call_starts:
  assumes "mpi_starts K resolved dlsym code m m1"
  shows "MPI_Init_call K resolved dlsym code args m = Inr (0, m1)"
proof (cases "initialized m")
  case True
  then show ?thesis
    using assms MPI_wrapper_ready [OF _ _ Init_between, of K m dlsym code args]
    by (simp add: MPI_Init_call_def mpi_starts_def MPI_SUCCESS_def split: if_splits)
next
  case False
  then show ?thesis
    using assms MPI_wrapper_first [OF _ _ _ Init_between, of K _ m dlsym code args]
    by (auto simp: MPI_Init_call_def mpi_starts_def MPI_SUCCESS_def split: if_splits)
qed

lemma mpi_starts_fields:
  assumes "mpi_starts K resolved dlsym code m m1"
  shows "mem m1 = mem m" "prot_at m1 = prot_at m" "fs_base m1 = fs_base m" "ckpt_img m1 = ckpt_img m"
  using assms by (auto simp: mpi_starts_def split: if_splits)

lemma mpi_starts_app:
  assumes "mpi_starts K resolved dlsym code m (m1 :: 'a app_scheme)"
  shows "app_out m1 = app_out m" "mpi_starts K resolved dlsym code (say s (set_i ai w m)) (say s (set_i ai w m1))"
proof -
  have "published K info (say s (set_i ai w m)) = published K info m" for info
    by (simp add: published_def say_def set_i_def poke_def)
  then show "app_out m1 = app_out m" "mpi_starts K resolved dlsym code (say s (set_i ai w m)) (say s (set_i ai w m1))"
    using assms by (cases "initialized m"; auto simp: mpi_starts_def say_def set_i_def poke_def split: if_splits cong: if_cong)+
qed

definition init_text :: "byte list" where
  "init_text = bytes_of ''App: MPI_Init returned: 0'' @ [NEWLINE]"

lemma int_str_0: "int_str 0 = [ch CHR ''0'']"
  by (simp add: int_str_def digits.simps digit_char_def)

text \<open>The state in which \<open>doCheckpoint\<close> is called.\<close>

definition app_at_checkpoint :: "va \<Rightarrow> byte list list \<Rightarrow> 'a app_scheme \<Rightarrow> 'a app_scheme" where
  "app_at_checkpoint ai argv m = say (args_text argv @ init_text @ bytes_of ''0 1 '' @ [NEWLINE]) (set_i ai 2 m)"

lemma main_before_runs:
  assumes "mpi_starts K resolved dlsym code m m1"
  shows "main_before K resolved dlsym code args ai argv m = Inr (app_at_checkpoint ai argv m1)"
proof -
  have "get_i ai (say s (set_i ai 0 m1)) <s 2" for s by (simp add: word_sless_alt)
  from count_while_counts [OF this]
  have "count_while ai 2 (say s (set_i ai 0 m1)) = say (s @ bytes_of ''0 1 '') (set_i ai 2 m1)" for s
    by (simp add: count_texts)
  then show ?thesis
    by (simp add: main_before_def processArgs_text MPI_Init_call_starts [OF mpi_starts_app(2) [OF assms]] app_at_checkpoint_def init_text_def int_str_0 Let_def)
       (simp add: bytes_of_def ch_def)
qed

lemma main_after_counts:
  assumes "get_i ai m = 2"
  shows "ret = CkptOrRestore_code POST_RESUME \<Longrightarrow> main_after K resolved dlsym code args ai ret m =
      Inr (0, say (bytes_of ''App: Resuming after ckpt...'' @ [NEWLINE] @ bytes_of ''2 3 '' @ [NEWLINE]) (set_i ai 4 m))"
    and "ret = CkptOrRestore_code RUNNING \<Longrightarrow> main_after K resolved dlsym code args ai ret m =
      Inr (0, say (bytes_of ''2 3 '' @ [NEWLINE]) (set_i ai 4 m))"
proof -
  have "get_i ai (say s m) <s 4" for s using assms by (simp add: word_sless_alt)
  from count_while_counts [OF this]
  have c: "count_while ai 4 (say s m) = say (s @ bytes_of ''2 3 '') (set_i ai 4 m)" for s
    using assms by (simp add: count_texts)
  from c [of "[]"] have c0: "count_while ai 4 m = say (bytes_of ''2 3 '') (set_i ai 4 m)" by simp
  show "ret = CkptOrRestore_code POST_RESUME \<Longrightarrow> main_after K resolved dlsym code args ai ret m =
      Inr (0, say (bytes_of ''App: Resuming after ckpt...'' @ [NEWLINE] @ bytes_of ''2 3 '' @ [NEWLINE]) (set_i ai 4 m))"
    by (simp add: main_after_def c Let_def)
  show "ret = CkptOrRestore_code RUNNING \<Longrightarrow> main_after K resolved dlsym code args ai ret m =
      Inr (0, say (bytes_of ''2 3 '' @ [NEWLINE]) (set_i ai 4 m))"
    by (simp add: main_after_def c0 Let_def CkptOrRestore_code.simps)
qed

definition restart_text :: "byte list" where
  "restart_text = bytes_of ''App: Restarting from a ckpt...'' @ [NEWLINE] @
     bytes_of ''App: Calling MPI_Init after restart...'' @ [NEWLINE] @ init_text @ bytes_of ''2 3 '' @ [NEWLINE]"

lemma main_after_restart:
  assumes "get_i ai m = 2" "published K info m" "\<not> initialized m" "lower_half_code K (lhDlsym info) dlsym code"
    and "k_set_fs K (fs_base m)" "resolved ''MPI_Init''" "ret = CkptOrRestore_code POST_RESTART"
  shows "\<exists>m'. main_after K resolved dlsym code args ai ret m = Inr (0, m') \<and> app_out m' = app_out m @ restart_text"
proof -
  let ?s = "bytes_of ''App: Restarting from a ckpt...'' @ [NEWLINE] @ bytes_of ''App: Calling MPI_Init after restart...'' @ [NEWLINE]"
  let ?m = "(say ?s m)\<lparr>uh_lhInfo := info, files := (files m)(LH_FILE_NAME := None), initialized := True\<rparr>"
  have fields: "files (say ?s m) = files m" "initialized (say ?s m) = initialized m" "fs_base (say ?s m) = fs_base m"
    by (simp_all add: say_def)
  then have "published K info (say ?s m)" using assms(2) by (simp add: published_def)
  from MPI_wrapper_first [OF this _ assms(4) Init_between] have
    mpi: "MPI_Init_call K resolved dlsym code args (say ?s m) = Inr (0, ?m)"
    using assms(3,5,6) fields by (simp add: MPI_Init_call_def MPI_SUCCESS_def)
  have i: "get_i ai ?m = 2" "app_out ?m = app_out m @ ?s"
    using assms(1) by (simp_all add: get_i_def peek_def) (simp_all add: say_def)
  have "get_i ai (say t ?m) <s 4" for t using i(1) by (simp add: word_sless_alt)
  from count_while_counts [OF this]
  have "count_while ai 4 (say t ?m) = say (t @ bytes_of ''2 3 '') (set_i ai 4 ?m)" for t
    using i(1) by (simp add: count_texts)
  then have "main_after K resolved dlsym code args ai ret m =
      Inr (0, say (init_text @ bytes_of ''2 3 '' @ [NEWLINE]) (set_i ai 4 ?m))"
    using mpi assms(7) by (simp add: main_after_def Let_def init_text_def int_str_0) (simp add: bytes_of_def ch_def)
  then show ?thesis using i(2) by (simp add: restart_text_def)
qed

text \<open>Neither the counter nor the output decides what a checkpoint saves.\<close>

lemma app_at_checkpoint_fields [simp]:
  "get_i ai (app_at_checkpoint ai argv m) = 2" "ckpt_img (app_at_checkpoint ai argv m) = ckpt_img m"
  "app_out (app_at_checkpoint ai argv m) = app_out m @ args_text argv @ init_text @ bytes_of ''0 1 '' @ [NEWLINE]"
  "prot_at (app_at_checkpoint ai argv m) = prot_at m" "tracked (app_at_checkpoint ai argv m) = tracked m"
  "uh_lhInfo (app_at_checkpoint ai argv m) = uh_lhInfo m" "fs_base (app_at_checkpoint ai argv m) = fs_base m"
  by (simp_all add: app_at_checkpoint_def) (simp_all add: say_def set_i_def poke_def tracked_def getMmappedList_def)

lemma can_checkpoint_cong:
  assumes "prot_at p = prot_at m" "tracked p = tracked m" "uh_lhInfo p = uh_lhInfo m" "ckpt_img p = ckpt_img m"
  shows "can_checkpoint K es p = can_checkpoint K es m" "saved_areas p as = saved_areas m as"
proof -
  show s: "saved_areas p as = saved_areas m as" for as
    using assms by (simp add: saved_areas_def to_save_def [abs_def] cong: if_cong)
  show "can_checkpoint K es p = can_checkpoint K es m"
    using assms by (simp add: can_checkpoint_def lists_def s readable_def [abs_def] all_prot_iff)
qed

lemma can_checkpoint_app:
  "can_checkpoint K es (app_at_checkpoint ai argv m) = can_checkpoint K es m"
  "saved_areas (app_at_checkpoint ai argv m) as = saved_areas m as"
  by (rule can_checkpoint_cong; simp)+

lemma main_checkpoints:
  fixes m :: "'a app_scheme"
  assumes "i_apart K ai" "get_state K m = CkptOrRestore_code RUNNING" "can_checkpoint K es m"
    and p_def: "p = app_at_checkpoint ai argv m"
  shows "\<exists>m'. doCheckpoint K (Some ctx) sp p = Inr (CkptOrRestore_code POST_RESUME, m') \<and>
    get_state K m' = CkptOrRestore_code RUNNING \<and> get_i ai m' = 2 \<and> app_out m' = app_out p \<and>
    files m' (ckpt_img m) = Some (ckpt_image K ctx sp es p)"
proof -
  have run: "get_state K p = CkptOrRestore_code RUNNING"
    using assms(2) by (simp add: p_def app_at_checkpoint_def i_apart_simps(2) [OF assms(1)])
  have can: "can_checkpoint K es p" using assms(3) by (simp add: p_def can_checkpoint_app)
  let ?m = "(frozen K p)\<lparr>files := (files p)(ckpt_img p \<mapsto> ckpt_image K ctx sp es p)\<rparr>"
  have "get_i ai p = 2" by (simp add: p_def)
  then have i: "get_i ai ?m = 2" by (simp add: frozen_def i_apart_simps(1) [OF assms(1)])
  have "app_out ?m = app_out p" by (simp add: frozen_def set_state_def poke_def)
  moreover have "ckpt_img p = ckpt_img m" by (simp add: p_def)
  ultimately show ?thesis
    using i by (simp add: doCheckpoint_def checkpointHandler_saves [OF can disjI1 [OF run]] report_state_def get_set_state
        i_apart_simps(1) [OF assms(1)]) (simp add: set_state_def poke_def)
qed

lemma target_main_runs:
  fixes m :: "'a app_scheme"
  assumes "mpi_starts K resolved dlsym code m m1" "i_apart K ai" "get_state K m = CkptOrRestore_code RUNNING"
    and "can_checkpoint K es m1"
  shows "\<exists>m'. target_main K resolved dlsym code args ai (Some ctx) sp argv m = Inr (0, m') \<and>
    app_out m' = app_out m @ args_text argv @ init_text @ bytes_of ''0 1 '' @ [NEWLINE] @
      (if resolved ''doCheckpoint'' then bytes_of ''App: Resuming after ckpt...'' @ [NEWLINE] else []) @
      bytes_of ''2 3 '' @ [NEWLINE] \<and>
    (resolved ''doCheckpoint'' \<longrightarrow> get_state K m' = CkptOrRestore_code RUNNING \<and>
       files m' (ckpt_img m) = Some (ckpt_image K ctx sp es (app_at_checkpoint ai argv m1)))"
proof (cases "resolved ''doCheckpoint''")
  case True
  let ?p = "app_at_checkpoint ai argv m1"
  note f = mpi_starts_fields [OF assms(1)] and out = mpi_starts_app(1) [OF assms(1)]
  have "get_state K m1 = CkptOrRestore_code RUNNING" using assms(3) f(1) by (simp add: get_state_def peek_def)
  then obtain m2 where m2: "doCheckpoint K (Some ctx) sp ?p = Inr (CkptOrRestore_code POST_RESUME, m2)"
    "get_state K m2 = CkptOrRestore_code RUNNING" "get_i ai m2 = 2" "app_out m2 = app_out ?p"
    "files m2 (ckpt_img m) = Some (ckpt_image K ctx sp es ?p)"
    using main_checkpoints [OF assms(2) _ assms(4) refl] f(4) by metis
  have "files (say s (set_i ai w m2)) = files m2" for s w by (simp add: say_def set_i_def poke_def)
  then show ?thesis
    using True m2(2,4,5) out
    by (simp add: target_main_def main_before_runs [OF assms(1)] doCheckpoint_call_def m2(1)
        main_after_counts(1) [OF m2(3)] i_apart_simps(2) [OF assms(2)])
next
  case False
  then show ?thesis
    by (simp add: target_main_def main_before_runs [OF assms(1)] doCheckpoint_call_def mpi_starts_app(1) [OF assms(1)]
        main_after_counts(2) CkptOrRestore_code.simps)
qed

text \<open>
  C31. The application ends: it counts to two, checkpoints when the library of the upper half is preloaded,
  counts on to four and returns 0, whatever its arguments; the image it leaves is that of its state at the
  call, with the counter at 2 and the wrappers initialised by its call of \<open>MPI_Init\<close>.
\<close>

theorem target_main_returns:
  fixes m :: "'a app_scheme"
  assumes "mpi_starts K resolved dlsym code m m1" "i_apart K ai" "get_state K m = CkptOrRestore_code RUNNING"
    and "can_checkpoint K es m1"
  shows "\<exists>m'. target_main K resolved dlsym code args ai (Some ctx) sp argv m = Inr (0, m') \<and>
    app_out m' = app_out m @ args_text argv @ init_text @ bytes_of ''0 1 '' @ [NEWLINE] @
      (if resolved ''doCheckpoint'' then bytes_of ''App: Resuming after ckpt...'' @ [NEWLINE] else []) @
      bytes_of ''2 3 '' @ [NEWLINE] \<and>
    (resolved ''doCheckpoint'' \<longrightarrow> get_state K m' = CkptOrRestore_code RUNNING \<and>
       files m' (ckpt_img m) = Some (ckpt_image K ctx sp es (app_at_checkpoint ai argv m1)))"
  by (rule target_main_runs [OF assms])

section \<open>A run\<close>

definition app_process :: app where
  "app_process = process.extend ckpt_process \<lparr>app_out = []\<rparr>"

text \<open>The same before its first call of MPI, with the address file the loader has written.\<close>

definition app_start :: app where
  "app_start = app_process\<lparr>initialized := False, files := [LH_FILE_NAME \<mapsto> lhinfo_bytes (uh_lhInfo ckpt_process)],
     uh_lhInfo := \<lparr>lhSbrk = 0, lhMmap = 0, lhDlsym = 0, lhFsAddr = 0, lhMmapListFptr = 0\<rparr>\<rparr>"

lemma app_start_fields:
  "get_state ckpt_kernel app_start = get_state ckpt_kernel app_process" "app_out app_start = []" "ckpt_img app_start = ckpt_img app_process"
  by (simp_all add: app_start_def get_state_def peek_def) (simp add: app_process_def process.defs)

lemma app_process_ok:
  "can_checkpoint ckpt_kernel (page_entries one_page) app_process"
  "get_state ckpt_kernel app_process = CkptOrRestore_code RUNNING"
  "mpi_starts ckpt_kernel (\<lambda>f. True) (\<lambda>p. lhDlsym_fn ckpt_kernel) (\<lambda>p. lower_MPI) app_start app_process"
  "i_apart ckpt_kernel 0x600020"
proof -
  have same: "prot_at app_process = prot_at ckpt_process" "tracked app_process = tracked ckpt_process"
    "uh_lhInfo app_process = uh_lhInfo ckpt_process" "ckpt_img app_process = ckpt_img ckpt_process" "mem app_process = mem ckpt_process"
    by (simp_all add: app_process_def process.defs tracked_def getMmappedList_def)
  show "can_checkpoint ckpt_kernel (page_entries one_page) app_process"
    using can_checkpoint_cong(1) [OF same(1-4)] ckpt_process_can by simp
  show "get_state ckpt_kernel app_process = CkptOrRestore_code RUNNING"
    using ckpt_process_running by (simp add: get_state_def peek_def same)
  have info: "published ckpt_kernel (uh_lhInfo ckpt_process) app_start"
    by (simp add: published_def app_start_def) (simp add: ckpt_kernel_def truthful_kernel_def plain_kernel_def)
  have "app_process = app_start\<lparr>uh_lhInfo := uh_lhInfo ckpt_process, files := (files app_start)(LH_FILE_NAME := None),
      initialized := True\<rparr>"
    by (simp add: app_start_def app_process_def process.defs ckpt_process_def)
  moreover have "\<not> initialized app_start" "k_set_fs ckpt_kernel (fs_base app_start)"
    by (simp_all add: app_start_def) (simp add: app_process_def process.defs ckpt_process_def ckpt_kernel_def truthful_kernel_def plain_kernel_def)
  moreover have "lower_half_code ckpt_kernel (lhDlsym (uh_lhInfo ckpt_process)) (\<lambda>p. lhDlsym_fn ckpt_kernel) (\<lambda>p. lower_MPI)"
    by (simp add: lower_half_code_def)
  ultimately show "mpi_starts ckpt_kernel (\<lambda>f. True) (\<lambda>p. lhDlsym_fn ckpt_kernel) (\<lambda>p. lower_MPI) app_start app_process"
    using info unfolding mpi_starts_def by auto
  have "0x600020 + of_nat j \<noteq> (0x600010 + of_nat k :: u64)" if "j < 4" "k < 4" for j k
  proof -
    have "unat (0x600020 + of_nat j :: u64) = 0x600020 + j" "unat (0x600010 + of_nat k :: u64) = 0x600010 + k"
      using that by (simp_all add: unat_word_ariths unat_of_nat)
    then have "unat (0x600020 + of_nat j :: u64) \<noteq> unat (0x600010 + of_nat k :: u64)" using that by linarith
    then show ?thesis by (rule contrapos_nn) (simp only:)
  qed
  then show "i_apart ckpt_kernel 0x600020" by (simp add: i_apart_def ckpt_kernel_def)
qed

theorem target_main_returns_witness:
  "\<exists>m'. target_main ckpt_kernel (\<lambda>f. True) (\<lambda>p. lhDlsym_fn ckpt_kernel) (\<lambda>p. lower_MPI) (0 :: u64, 0 :: u64) 0x600020
      (Some (replicate 968 1)) 0x7ffe0000 [bytes_of ''t.exe''] app_start = Inr (0, m') \<and>
    app_out m' = init_text @ bytes_of ''0 1 '' @ [NEWLINE] @ bytes_of ''App: Resuming after ckpt...'' @ [NEWLINE] @
      bytes_of ''2 3 '' @ [NEWLINE]"
proof -
  have "get_state ckpt_kernel app_start = CkptOrRestore_code RUNNING" using app_process_ok(2) app_start_fields(1) by simp
  then show ?thesis
    using target_main_returns [OF app_process_ok(3,4) _ app_process_ok(1), of "(0, 0)" "replicate 968 1" "0x7ffe0000"
        "[bytes_of ''t.exe'']"] app_start_fields(2)
    by (auto simp: args_text_def)
qed

end
