(* ===== verification/Ranks.thy ===== *)
theory Ranks
  imports UpperHalf
begin

text \<open>
  Several restored ranks in one process: \<open>restoreCheckpoint\<close> starts a thread for each, and their upper halves call the
  MPI wrappers in any order, here one call after the other. Every rank has its own upper half (\<open>v i\<close>, with its own \<open>initialized\<close>); what they share here
  is the file system, in which the lower half has left one address file.
\<close>

type_synonym files = "byte list \<Rightarrow> byte list option"

text \<open>
  The calls that have returned so far, in the order of time, with the rank of each. A call sees the files as the calls
  before it have left them.
\<close>

inductive mpi_run :: "kernel \<Rightarrow> (va \<Rightarrow> u32 \<Rightarrow> va) \<Rightarrow>
    (va \<Rightarrow> 'args \<Rightarrow> 'a process_scheme \<Rightarrow> (int \<times> 'a process_scheme) run) \<Rightarrow>
    (nat \<Rightarrow> 'a process_scheme) \<Rightarrow> files \<Rightarrow> nat list \<Rightarrow> (nat \<Rightarrow> 'a process_scheme) \<Rightarrow> files \<Rightarrow> bool"
  for K dlsym code v F where
  start: "mpi_run K dlsym code v F [] v F"
| call: "mpi_run K dlsym code v F is (v'(i := m')) (files m')"
    if "mpi_run K dlsym code v F js v' F'" "MPI_Fnc_NULL < f" "f < MPI_Fnc_Invalid"
      "MPI_wrapper K dlsym code f x ((v' i)\<lparr>files := F'\<rparr>) = Inr (r, m')" "is = js @ [i]"

inductive_simps mpi_run_Nil: "mpi_run K dlsym code v F [] v' F'"

text \<open>The ranks as a restart leaves them: none has read the address file, which is there.\<close>

definition ranks_restored :: "kernel \<Rightarrow> LowerHalfInfo \<Rightarrow> (va \<Rightarrow> u32 \<Rightarrow> va) \<Rightarrow>
    (va \<Rightarrow> 'args \<Rightarrow> 'a process_scheme \<Rightarrow> (int \<times> 'a process_scheme) run) \<Rightarrow> (nat \<Rightarrow> 'a process_scheme) \<Rightarrow> files \<Rightarrow> bool" where
  "ranks_restored K info dlsym code v F \<longleftrightarrow> (\<forall>i. published K info ((v i)\<lparr>files := F\<rparr>)) \<and>
     (\<forall>i. \<not> initialized (v i) \<and> k_set_fs K (fs_base (v i))) \<and> lower_half_code K (lhDlsym info) dlsym code"

text \<open>The invariant: after the first call one rank is served, the others are as at the start, and the file is gone.\<close>

definition one_served :: "LowerHalfInfo \<Rightarrow> (nat \<Rightarrow> 'a process_scheme) \<Rightarrow> nat \<Rightarrow> (nat \<Rightarrow> 'a process_scheme) \<Rightarrow> files \<Rightarrow> bool" where
  "one_served info v i v' F' \<longleftrightarrow> F' LH_FILE_NAME = None \<and> (\<forall>j. j \<noteq> i \<longrightarrow> v' j = v j) \<and>
     initialized (v' i) \<and> uh_lhInfo (v' i) = info \<and> fs_base (v' i) = fs_base (v i)"

lemma unserved_rank_exits:
  assumes "\<not> initialized m" "files m LH_FILE_NAME = None"
  shows "MPI_wrapper K dlsym code f x m = Inl (Exit (-1))"
  using assms by (simp add: MPI_wrapper_def initialize_wrappers_def readLhInfoAddr_missing)

lemma served_rank_calls:
  assumes "ranks_restored K info dlsym code v F" "one_served info v i v' F'" "MPI_Fnc_NULL < f" "f < MPI_Fnc_Invalid"
  shows "MPI_wrapper K dlsym code f x ((v' i)\<lparr>files := F'\<rparr>) = Inr (MPI_SUCCESS, (v' i)\<lparr>files := F'\<rparr>)"
  by (rule MPI_wrapper_ready) (use assms in \<open>simp_all add: ranks_restored_def one_served_def\<close>)

lemma first_call_serves:
  assumes "ranks_restored K info dlsym code v F" "MPI_Fnc_NULL < f" "f < MPI_Fnc_Invalid"
    and "MPI_wrapper K dlsym code f x ((v i)\<lparr>files := F\<rparr>) = Inr (r, m')"
  shows "one_served info v i (v(i := m')) (files m')"
proof -
  let ?m = "(v i)\<lparr>files := F\<rparr>"
  have "MPI_wrapper K dlsym code f x ?m = Inr (MPI_SUCCESS,
      ?m\<lparr>uh_lhInfo := info, files := (files ?m)(LH_FILE_NAME := None), initialized := True\<rparr>)"
    by (rule MPI_wrapper_first) (use assms(1-3) in \<open>simp_all add: ranks_restored_def\<close>)
  then show ?thesis using assms(4) by (auto simp: one_served_def)
qed

lemma mpi_run_one_served:
  assumes "mpi_run K dlsym code v F is v' F'" "ranks_restored K info dlsym code v F" "is \<noteq> []"
  shows "set is = {hd is}" "one_served info v (hd is) v' F'"
proof -
  have "is \<noteq> [] \<longrightarrow> set is = {hd is} \<and> one_served info v (hd is) v' F'"
    using assms(1)
  proof (induction rule: mpi_run.induct)
    case start
    then show ?case by simp
  next
    case (call js v' F' f x i r m' "is")
    show ?case
    proof (cases "js = []")
      case True
      then have "v' = v" "F' = F" using call.hyps(1) by (simp_all add: mpi_run_Nil)
      moreover from this have "one_served info v i (v(i := m')) (files m')"
        using call.hyps(4) by (intro first_call_serves [OF assms(2) call.hyps(2,3)]) simp
      ultimately show ?thesis using call.hyps(5) True by (simp add: fun_upd_def)
    next
      case False
      then have served: "set js = {hd js}" "one_served info v (hd js) v' F'" using call.IH by simp_all
      have "i = hd js"
      proof (rule ccontr)
        assume "i \<noteq> hd js"
        then have "v' i = v i" "F' LH_FILE_NAME = None" using served(2) by (simp_all add: one_served_def)
        then have "MPI_wrapper K dlsym code f x ((v' i)\<lparr>files := F'\<rparr>) = Inl (Exit (-1))"
          using assms(2) by (intro unserved_rank_exits) (simp_all add: ranks_restored_def)
        then show False using call.hyps(4) by simp
      qed
      moreover from this have "m' = (v' (hd js))\<lparr>files := F'\<rparr>"
        using served_rank_calls [OF assms(2) served(2) call.hyps(2,3)] call.hyps(4) by simp
      ultimately show ?thesis using served False call.hyps(5) by (simp add: one_served_def)
    qed
  qed
  then show "set is = {hd is}" "one_served info v (hd is) v' F'" using assms(3) by simp_all
qed

text \<open>
  Of the ranks restored into one process only one can use MPI when their calls do not overlap. In every order of the
  calls all that returned are of the same rank, because it removed the address file; the next call of any other
  rank ends the whole process with status \<open>-1\<close>, while those of that rank go on to succeed. \<open>RankSteps\<close> lets the
  calls overlap.
\<close>

theorem one_rank_uses_MPI:
  assumes "mpi_run K dlsym code v F is v' F'" "ranks_restored K info dlsym code v F" "is \<noteq> []"
    and "MPI_Fnc_NULL < f" "f < MPI_Fnc_Invalid"
  shows "set is = {hd is} \<and>
    MPI_wrapper K dlsym code f x ((v' j)\<lparr>files := F'\<rparr>) =
      (if j = hd is then Inr (MPI_SUCCESS, (v' j)\<lparr>files := F'\<rparr>) else Inl (Exit (-1)))"
proof (cases "j = hd is")
  case True
  then show ?thesis
    using mpi_run_one_served [OF assms(1-3)] served_rank_calls [OF assms(2) _ assms(4,5)] by simp
next
  case False
  have "\<not> initialized ((v' j)\<lparr>files := F'\<rparr>)" "files ((v' j)\<lparr>files := F'\<rparr>) LH_FILE_NAME = None"
    using mpi_run_one_served(2) [OF assms(1-3)] assms(2) False by (simp_all add: one_served_def ranks_restored_def)
  then show ?thesis
    using False mpi_run_one_served(1) [OF assms(1-3)] by (simp add: unserved_rank_exits)
qed

section \<open>Two ranks\<close>

theorem one_rank_uses_MPI_witness:
  "\<exists>m'. MPI_wrapper plain_kernel (\<lambda>p. lhDlsym_fn plain_kernel) (\<lambda>p. lower_MPI) MPI_Fnc_Init () uh_process = Inr (MPI_SUCCESS, m') \<and>
     MPI_wrapper plain_kernel (\<lambda>p. lhDlsym_fn plain_kernel) (\<lambda>p. lower_MPI) MPI_Fnc_Send ()
       (uh_process\<lparr>files := files m'\<rparr>) = Inl (Exit (-1))"
proof -
  let ?K = plain_kernel and ?d = "\<lambda>p. lhDlsym_fn plain_kernel" and ?v = "\<lambda>i :: nat. uh_process" and ?F = "files uh_process"
    and ?c = "\<lambda>p :: va. lower_MPI :: unit \<Rightarrow> upper_half \<Rightarrow> (int \<times> upper_half) run"
  have restored: "ranks_restored ?K some_info ?d ?c ?v ?F"
    using uh_process_facts
    by (simp add: ranks_restored_def lower_half_code_def)
       (simp add: uh_process_def process.defs ckpt_process_def plain_kernel_def word_less_nat_alt)
  have between: "MPI_Fnc_NULL < MPI_Fnc_Init" "MPI_Fnc_Init < MPI_Fnc_Invalid" "MPI_Fnc_NULL < MPI_Fnc_Send" "MPI_Fnc_Send < MPI_Fnc_Invalid"
    by (simp_all add: less_MPI_Fncs_def word_less_nat_alt)
  obtain m' where m': "MPI_wrapper ?K ?d ?c MPI_Fnc_Init () uh_process = Inr (MPI_SUCCESS, m')"
    using MPI_wrapper_first [OF uh_process_facts(1,2) _ between(1,2), of ?d ?c "()"] restored
    by (auto simp: ranks_restored_def)
  have "mpi_run ?K ?d ?c ?v ?F [0] (?v(0 := m')) (files m')"
    by (rule mpi_run.call [OF mpi_run.start between(1,2), where x = "()" and r = MPI_SUCCESS]) (use m' in simp_all)
  from one_rank_uses_MPI [OF this restored _ between(3,4), of "()" 1] show ?thesis using m' by simp
qed

end
