(* ===== verification/RankSteps.thy ===== *)
theory RankSteps
  imports Ranks
begin

text \<open>
  The MPI calls of several restored ranks, thread by thread and system call by system call. Between the \<open>open\<close>, the
  \<open>read\<close> and the \<open>unlink\<close> of \<open>readLhInfoAddr\<close> any other rank may run. A thread is at one of four places of its
  wrapper; what the threads share are the files.
\<close>

datatype 'args place =
    Outside
  | Opened ofile MPI_Fncs 'args
  | Loaded MPI_Fncs 'args
  | Calling MPI_Fncs 'args

record ('a, 'args) world =
  w_files :: files
  w_place :: "nat \<Rightarrow> 'args place"
  w_rank :: "nat \<Rightarrow> 'a process_scheme"
  w_returned :: "(nat \<times> int) list"

definition view :: "('a, 'args) world \<Rightarrow> nat \<Rightarrow> 'a process_scheme" where
  "view w i = (w_rank w i)\<lparr>files := w_files w\<rparr>"

definition put :: "nat \<Rightarrow> 'args place \<Rightarrow> 'a process_scheme \<Rightarrow> ('a, 'args) world \<Rightarrow> ('a, 'args) world" where
  "put i pl m w = w\<lparr>w_files := files m, w_place := (w_place w)(i := pl), w_rank := (w_rank w)(i := m)\<rparr>"

definition report :: "nat \<Rightarrow> int \<Rightarrow> ('a, 'args) world \<Rightarrow> ('a, 'args) world" where
  "report i r w = w\<lparr>w_returned := w_returned w @ [(i, r)]\<rparr>"

text \<open>
  The next step of rank \<open>i\<close>. Outside a wrapper it enters that of \<open>fnc\<close> with the arguments \<open>args\<close>. The \<open>close\<close> and
  the assignment of \<open>initialized\<close> touch nothing that is shared and belong to the \<open>unlink\<close> before them.
\<close>

definition thread_step :: "kernel \<Rightarrow> (va \<Rightarrow> u32 \<Rightarrow> va) \<Rightarrow>
    (va \<Rightarrow> 'args \<Rightarrow> 'a process_scheme \<Rightarrow> (int \<times> 'a process_scheme) run) \<Rightarrow> MPI_Fncs \<Rightarrow> 'args \<Rightarrow> nat \<Rightarrow>
    ('a, 'args) world \<Rightarrow> ('a, 'args) world run" where
  "thread_step K dlsym code fnc args i w =
     (case w_place w i of
        Outside \<Rightarrow>
          if initialized (view w i) then Inr (put i (Calling fnc args) (view w i) w)
          else (case open_ro K LH_FILE_NAME (view w i) of
                  None \<Rightarrow> Inl (Exit (-1))
                | Some fd \<Rightarrow> Inr (put i (Opened fd fnc args) (view w i) w))
      | Opened fd f x \<Rightarrow> andThen (read_lhInfo fd (view w i)) (\<lambda>m. Inr (put i (Loaded f x) m w))
      | Loaded f x \<Rightarrow>
          Inr (put i (Calling f x) ((sys_unlink LH_FILE_NAME (view w i))\<lparr>initialized := True\<rparr>) w)
      | Calling f x \<Rightarrow>
          andThen (call_lower_half K dlsym code f x (view w i)) (\<lambda>(r, m).
            Inr (report i r (put i Outside m w))))"

text \<open>A thread that is not disturbed until its call returns; \<open>n\<close> bounds its steps.\<close>

fun undisturbed :: "kernel \<Rightarrow> (va \<Rightarrow> u32 \<Rightarrow> va) \<Rightarrow>
    (va \<Rightarrow> 'args \<Rightarrow> 'a process_scheme \<Rightarrow> (int \<times> 'a process_scheme) run) \<Rightarrow> MPI_Fncs \<Rightarrow> 'args \<Rightarrow> nat \<Rightarrow> nat \<Rightarrow>
    ('a, 'args) world \<Rightarrow> ('a, 'args) world run" where
  "undisturbed K dlsym code fnc args i 0 w = Inr w"
| "undisturbed K dlsym code fnc args i (Suc n) w =
     andThen (thread_step K dlsym code fnc args i w) (\<lambda>w.
       if w_place w i = Outside then Inr w else undisturbed K dlsym code fnc args i n w)"

text \<open>The runs: any rank may take the next step, until one ends the process.\<close>

inductive ranks_run :: "kernel \<Rightarrow> (va \<Rightarrow> u32 \<Rightarrow> va) \<Rightarrow>
    (va \<Rightarrow> 'args \<Rightarrow> 'a process_scheme \<Rightarrow> (int \<times> 'a process_scheme) run) \<Rightarrow>
    ('a, 'args) world \<Rightarrow> ('a, 'args) world \<Rightarrow> bool"
  for K dlsym code w0 where
  start: "ranks_run K dlsym code w0 w0"
| step: "ranks_run K dlsym code w0 w'"
    if "ranks_run K dlsym code w0 w" "MPI_Fnc_NULL < f" "f < MPI_Fnc_Invalid"
      "thread_step K dlsym code f x i w = Inr w'"

definition world_start :: "(nat \<Rightarrow> 'a process_scheme) \<Rightarrow> files \<Rightarrow> ('a, 'args) world" where
  "world_start v F = \<lparr>w_files = F, w_place = (\<lambda>i. Outside), w_rank = v, w_returned = []\<rparr>"

section \<open>Without interruption\<close>

lemma world_simps [simp]:
  "view (put i pl m w) i = m" "w_place (put i pl m w) = (w_place w)(i := pl)" "w_files (put i pl m w) = files m"
  "w_rank (put i pl m w) = (w_rank w)(i := m)" "w_returned (put i pl m w) = w_returned w"
  "put i pl m (put i pl' m' w) = put i pl m w"
  "w_files (report i r w) = w_files w" "w_place (report i r w) = w_place w" "w_rank (report i r w) = w_rank w"
  "w_returned (report i r w) = w_returned w @ [(i, r)]"
  by (simp_all add: view_def put_def report_def)

lemma undisturbed_from_Calling:
  "undisturbed K dlsym code fnc args i (Suc n) (put i (Calling f x) m w) =
     andThen (call_lower_half K dlsym code f x m) (\<lambda>(r, m). Inr (report i r (put i Outside m w)))"
  by (cases "call_lower_half K dlsym code f x m") (auto simp: thread_step_def)

text \<open>The steps of a call that is not interrupted compose to the wrapper.\<close>

lemma undisturbed_call:
  assumes "w_place w i = Outside"
  shows "undisturbed K dlsym code f x i 4 w =
    andThen (MPI_wrapper K dlsym code f x (view w i)) (\<lambda>(r, m). Inr (report i r (put i Outside m w)))"
proof (cases "initialized (view w i)")
  case True
  then have "thread_step K dlsym code f x i w = Inr (put i (Calling f x) (view w i) w)"
    using assms by (simp add: thread_step_def)
  then show ?thesis
    using True undisturbed_from_Calling by (simp add: numeral_eq_Suc MPI_wrapper_def)
next
  case False
  show ?thesis
  proof (cases "open_ro K LH_FILE_NAME (view w i)")
    case None
    then show ?thesis
      using False assms by (simp add: numeral_eq_Suc thread_step_def MPI_wrapper_def initialize_wrappers_def readLhInfoAddr_def)
  next
    case (Some fd)
    then have open_step: "thread_step K dlsym code f x i w = Inr (put i (Opened fd f x) (view w i) w)"
      using False assms by (simp add: thread_step_def)
    show ?thesis
    proof (cases "read_lhInfo fd (view w i)")
      case (Inl h)
      then have "thread_step K dlsym code f x i (put i (Opened fd f x) (view w i) w) = Inl h"
        by (simp add: thread_step_def)
      then show ?thesis
        using False Some Inl open_step
        by (simp add: numeral_eq_Suc MPI_wrapper_def initialize_wrappers_def readLhInfoAddr_def)
    next
      case (Inr m)
      let ?m = "(sys_unlink LH_FILE_NAME m)\<lparr>initialized := True\<rparr>"
      have "thread_step K dlsym code f x i (put i (Opened fd f x) (view w i) w) = Inr (put i (Loaded f x) m w)"
        using Inr by (simp add: thread_step_def)
      moreover have "thread_step K dlsym code f x i (put i (Loaded f x) m w) = Inr (put i (Calling f x) ?m w)"
        by (simp add: thread_step_def)
      ultimately show ?thesis
        using False Some Inr open_step undisturbed_from_Calling
        by (simp add: numeral_eq_Suc MPI_wrapper_def initialize_wrappers_def readLhInfoAddr_def)
    qed
  qed
qed

section \<open>With interruptions\<close>

text \<open>
  The invariant. A descriptor that was opened delivers the addresses, whatever has happened to the name; a
  rank that is initialised has them; the file is there until the first rank is initialised, and calls that returned are
  successful calls of initialised ranks.
\<close>

definition MPI_code :: "MPI_Fncs \<Rightarrow> bool" where
  "MPI_code f \<longleftrightarrow> MPI_Fnc_NULL < f \<and> f < MPI_Fnc_Invalid"

definition place_ok :: "LowerHalfInfo \<Rightarrow> 'args place \<Rightarrow> 'a process_scheme \<Rightarrow> bool" where
  "place_ok info pl m \<longleftrightarrow> (case pl of
       Outside \<Rightarrow> True
     | Opened fd f x \<Rightarrow> MPI_code f \<and> \<not> initialized m \<and>
         (\<exists>old. fd = \<lparr>content = lhinfo_bytes info @ old, pos = 0, answers = []\<rparr>)
     | Loaded f x \<Rightarrow> MPI_code f \<and> \<not> initialized m \<and> uh_lhInfo m = info
     | Calling f x \<Rightarrow> MPI_code f \<and> initialized m)"

definition ranks_inv :: "LowerHalfInfo \<Rightarrow> (nat \<Rightarrow> 'a process_scheme) \<Rightarrow> files \<Rightarrow> ('a, 'args) world \<Rightarrow> bool" where
  "ranks_inv info v F w \<longleftrightarrow>
     (\<forall>i. place_ok info (w_place w i) (w_rank w i)) \<and>
     (\<forall>i. initialized (w_rank w i) \<longrightarrow> uh_lhInfo (w_rank w i) = info) \<and>
     (\<forall>i. fs_base (w_rank w i) = fs_base (v i)) \<and>
     (w_files w LH_FILE_NAME = None \<longleftrightarrow> (\<exists>i. initialized (w_rank w i))) \<and>
     (w_files w LH_FILE_NAME \<noteq> None \<longrightarrow> w_files w LH_FILE_NAME = F LH_FILE_NAME) \<and>
     (\<forall>(i, r) \<in> set (w_returned w). initialized (w_rank w i) \<and> r = MPI_SUCCESS)"

definition admitted :: "('a, 'args) world \<Rightarrow> nat set" where
  "admitted w = {i. initialized (w_rank w i) \<or> w_place w i \<noteq> Outside}"

lemma view_simps [simp]:
  "initialized (view w i) = initialized (w_rank w i)" "uh_lhInfo (view w i) = uh_lhInfo (w_rank w i)"
  "fs_base (view w i) = fs_base (w_rank w i)" "files (view w i) = w_files w"
  by (simp_all add: view_def)

lemma step_Outside:
  assumes "ranks_restored K info dlsym code v F" "ranks_inv info v F w" "w_place w i = Outside"
  obtains old where "thread_step K dlsym code f x i w =
    (if initialized (w_rank w i) then Inr (put i (Calling f x) (view w i) w)
     else if w_files w LH_FILE_NAME = None then Inl (Exit (-1))
     else Inr (put i (Opened \<lparr>content = lhinfo_bytes info @ old, pos = 0, answers = []\<rparr> f x) (view w i) w))"
proof -
  obtain old where "F LH_FILE_NAME = Some (lhinfo_bytes info @ old)" "k_answers K LH_FILE_NAME = []"
    using assms(1) by (auto simp: ranks_restored_def published_def)
  then show thesis
    using assms(2,3) by (intro that [of old]) (auto simp: thread_step_def open_ro_def ranks_inv_def)
qed

lemma step_Opened:
  assumes "ranks_inv info v F w" "w_place w i = Opened fd g y"
  shows "thread_step K dlsym code f x i w = Inr (put i (Loaded g y) ((view w i)\<lparr>uh_lhInfo := info\<rparr>) w)"
proof -
  have "place_ok info (Opened fd g y) (w_rank w i)" using assms by (metis ranks_inv_def)
  then show ?thesis using assms(2) by (auto simp: place_ok_def thread_step_def read_lhInfo_prefix)
qed

lemma step_Calling:
  assumes "ranks_restored K info dlsym code v F" "ranks_inv info v F w" "w_place w i = Calling g y"
  shows "thread_step K dlsym code f x i w = Inr (report i MPI_SUCCESS (put i Outside (view w i) w))"
proof -
  have "place_ok info (Calling g y) (w_rank w i)" using assms(2,3) by (metis ranks_inv_def)
  moreover have "lower_half_code K (lhDlsym info) dlsym code" "k_set_fs K (fs_base (v i))"
    using assms(1) by (auto simp: ranks_restored_def)
  ultimately have "call_lower_half K dlsym code g y (view w i) = Inr (MPI_SUCCESS, view w i)"
    using assms(2) by (intro call_lower_half_ready) (auto simp: place_ok_def MPI_code_def ranks_inv_def)
  then show ?thesis using assms(3) by (simp add: thread_step_def)
qed

lemma ranks_inv_start:
  assumes "ranks_restored K info dlsym code v F"
  shows "ranks_inv info v F (world_start v F)"
  using assms by (auto simp: ranks_restored_def published_def ranks_inv_def world_start_def place_ok_def)

lemma ranks_inv_put:
  assumes "ranks_inv info v F w" "place_ok info pl m" "uh_lhInfo m = info \<or> \<not> initialized m"
    and "fs_base m = fs_base (w_rank w i)" "initialized m = initialized (w_rank w i)" "files m = w_files w"
  shows "ranks_inv info v F (put i pl m w)"
  using assms unfolding ranks_inv_def by (auto split: if_splits)

lemma ranks_inv_report:
  "ranks_inv info v F w \<Longrightarrow> initialized (w_rank w i) \<Longrightarrow> ranks_inv info v F (report i MPI_SUCCESS w)"
  by (auto simp: ranks_inv_def)

lemma ranks_inv_loaded:
  assumes "ranks_inv info v F w" "w_place w i = Loaded g y"
  shows "ranks_inv info v F (put i (Calling g y) ((sys_unlink LH_FILE_NAME (view w i))\<lparr>initialized := True\<rparr>) w)"
proof -
  have "place_ok info (Loaded g y) (w_rank w i)" using assms by (metis ranks_inv_def)
  then have "MPI_code g" "uh_lhInfo (w_rank w i) = info" by (simp_all add: place_ok_def)
  then have "place_ok info (Calling g y) ((sys_unlink LH_FILE_NAME (view w i))\<lparr>initialized := True\<rparr>)"
    "uh_lhInfo (sys_unlink LH_FILE_NAME (view w i)) = info"
    by (simp_all add: place_ok_def sys_unlink_def)
  moreover have "files (sys_unlink LH_FILE_NAME (view w i)) LH_FILE_NAME = None"
    "fs_base (sys_unlink LH_FILE_NAME (view w i)) = fs_base (w_rank w i)"
    by (simp_all add: sys_unlink_def)
  ultimately show ?thesis using assms(1) unfolding ranks_inv_def by fastforce
qed

lemma ranks_inv_step:
  fixes w :: "('p, 'args) world"
  assumes "ranks_restored K info dlsym code v F" "ranks_inv info v F w" "MPI_code f"
    and "thread_step K dlsym code f x i w = Inr w'"
  shows "ranks_inv info v F w'"
proof -
  have ok: "place_ok info (w_place w i) (w_rank w i)" using assms(2) by (simp add: ranks_inv_def)
  have "uh_lhInfo (w_rank w i) = info \<or> \<not> initialized (w_rank w i)" using assms(2) by (auto simp: ranks_inv_def)
  then have put: "place_ok info pl (w_rank w i) \<Longrightarrow> ranks_inv info v F (put i pl (view w i) w)" for pl :: "'args place"
    by (intro ranks_inv_put [OF assms(2)]) (simp_all add: place_ok_def split: place.splits)
  show ?thesis
  proof (cases "w_place w i")
    case Outside
    then show ?thesis
      using assms(3,4)
      by (rule_tac step_Outside [OF assms(1,2) Outside, of f x]) (auto intro!: put simp: place_ok_def split: if_splits)
  next
    case (Opened fd g y)
    then show ?thesis
      using step_Opened [OF assms(2) Opened, of K dlsym code f x] assms(4) ok
      by (auto intro!: ranks_inv_put [OF assms(2)] simp: place_ok_def)
  next
    case (Loaded g y)
    then show ?thesis using ranks_inv_loaded [OF assms(2) Loaded] assms(4) by (simp add: thread_step_def)
  next
    case (Calling g y)
    have "ranks_inv info v F (report i MPI_SUCCESS (put i Outside (view w i) w))"
      by (rule ranks_inv_report [OF put]) (use ok Calling in \<open>simp_all add: place_ok_def\<close>)
    then show ?thesis using step_Calling [OF assms(1,2) Calling, of f x] assms(4) by simp
  qed
qed

lemma ranks_run_inv:
  assumes "ranks_run K dlsym code w0 w" "ranks_restored K info dlsym code v F" "w0 = world_start v F"
  shows "ranks_inv info v F w"
  using assms(1)
proof (induction rule: ranks_run.induct)
  case start
  then show ?case using ranks_inv_start [OF assms(2)] assms(3) by simp
next
  case (step w f x i w')
  then show ?case using ranks_inv_step [OF assms(2)] by (simp add: MPI_code_def)
qed

lemma step_outcome:
  assumes "ranks_restored K info dlsym code v F" "ranks_inv info v F w"
  shows "case thread_step K dlsym code f x i w of
      Inl h \<Rightarrow> h = Exit (-1) \<and> i \<notin> admitted w \<and> w_files w LH_FILE_NAME = None
    | Inr w' \<Rightarrow> (i \<in> admitted w \<or> w_files w LH_FILE_NAME \<noteq> None) \<and>
        (w_files w LH_FILE_NAME = None \<longrightarrow> admitted w' = admitted w)"
proof (cases "w_place w i")
  case Outside
  then show ?thesis
    by (rule_tac step_Outside [OF assms Outside, of f x]) (auto simp: admitted_def)
next
  case (Opened fd g y)
  then show ?thesis using step_Opened [OF assms(2) Opened, of K dlsym code f x] by (auto simp: admitted_def)
next
  case (Loaded g y)
  then show ?thesis by (auto simp: thread_step_def admitted_def)
next
  case (Calling g y)
  have "initialized (w_rank w i)" using assms(2) Calling by (auto simp: ranks_inv_def place_ok_def dest: spec [of _ i])
  then show ?thesis using step_Calling [OF assms Calling, of f x] Calling by (auto simp: admitted_def)
qed

text \<open>
  C32. Which of the ranks restored into one process can use MPI. Along every interleaving of the system calls of
  their wrappers, every call that returned was successful; the address file is there until the first rank is
  initialised; no rank is stopped before that. Once the file is gone, exactly those ranks go on that
  had opened it: they take every further step, the set of them never changes, and the next step of any other
  rank ends the whole process with status \<open>-1\<close>.
\<close>

theorem admitted_ranks_use_MPI:
  assumes "ranks_run K dlsym code (world_start v F) w" "ranks_restored K info dlsym code v F"
  shows "(\<forall>(j, r) \<in> set (w_returned w). j \<in> admitted w \<and> r = MPI_SUCCESS) \<and>
    (w_files w LH_FILE_NAME = None \<longleftrightarrow> (\<exists>j. initialized (w_rank w j))) \<and>
    (case thread_step K dlsym code f x i w of
       Inl h \<Rightarrow> h = Exit (-1) \<and> i \<notin> admitted w \<and> w_files w LH_FILE_NAME = None
     | Inr w' \<Rightarrow> (i \<in> admitted w \<or> w_files w LH_FILE_NAME \<noteq> None) \<and>
         (w_files w LH_FILE_NAME = None \<longrightarrow> admitted w' = admitted w))"
proof -
  have inv: "ranks_inv info v F w" by (rule ranks_run_inv [OF assms refl])
  then have "\<forall>(j, r) \<in> set (w_returned w). j \<in> admitted w \<and> r = MPI_SUCCESS"
    "w_files w LH_FILE_NAME = None \<longleftrightarrow> (\<exists>j. initialized (w_rank w j))"
    by (auto simp: ranks_inv_def admitted_def)
  with step_outcome [OF assms(2) inv, of i f x] show ?thesis by blast
qed

section \<open>Three ranks\<close>

lemma uh_process_restored:
  "ranks_restored plain_kernel some_info (\<lambda>p. lhDlsym_fn plain_kernel)
     (\<lambda>p :: va. lower_MPI :: unit \<Rightarrow> upper_half \<Rightarrow> (int \<times> upper_half) run) (\<lambda>i :: nat. uh_process) (files uh_process)"
  using uh_process_facts
  by (simp add: ranks_restored_def lower_half_code_def)
     (simp add: uh_process_def process.defs ckpt_process_def plain_kernel_def word_less_nat_alt)

lemma MPI_Init_between: "MPI_Fnc_NULL < MPI_Fnc_Init" "MPI_Fnc_Init < MPI_Fnc_Invalid"
  by (simp_all add: less_MPI_Fncs_def word_less_nat_alt)

text \<open>The ranks take their steps in a given order, all with the same call.\<close>

fun schedule :: "kernel \<Rightarrow> (va \<Rightarrow> u32 \<Rightarrow> va) \<Rightarrow>
    (va \<Rightarrow> 'args \<Rightarrow> 'a process_scheme \<Rightarrow> (int \<times> 'a process_scheme) run) \<Rightarrow> MPI_Fncs \<Rightarrow> 'args \<Rightarrow> nat list \<Rightarrow>
    ('a, 'args) world \<Rightarrow> ('a, 'args) world run" where
  "schedule K dlsym code f x [] w = Inr w"
| "schedule K dlsym code f x (i # is) w =
     andThen (thread_step K dlsym code f x i w) (schedule K dlsym code f x is)"

lemma schedule_append:
  "schedule K dlsym code f x (is @ js) w = andThen (schedule K dlsym code f x is w) (schedule K dlsym code f x js)"
proof (induction "is" arbitrary: w)
  case (Cons i "is")
  then show ?case by (cases "thread_step K dlsym code f x i w") simp_all
qed simp

lemma schedule_run:
  assumes "ranks_run K dlsym code w0 w" "schedule K dlsym code f x is w = Inr w'" "MPI_Fnc_NULL < f" "f < MPI_Fnc_Invalid"
  shows "ranks_run K dlsym code w0 w'"
  using assms(1,2)
proof (induction "is" arbitrary: w)
  case Nil
  then show ?case by simp
next
  case (Cons i "is")
  then show ?case by (auto simp: andThen_Inr_iff intro: ranks_run.step [OF _ assms(3,4)])
qed

lemma view_put: "view (put i pl m w) j = (if j = i then m else (w_rank w j)\<lparr>files := files m\<rparr>)"
  by (simp add: view_def put_def)

text \<open>The worlds in which only ranks 0 and 1 have taken steps.\<close>

definition two_busy :: "files \<Rightarrow> unit place \<Rightarrow> unit place \<Rightarrow> upper_half \<Rightarrow> upper_half \<Rightarrow> (nat \<times> int) list \<Rightarrow>
    (unit upper_half_ext, unit) world" where
  "two_busy F p0 p1 m0 m1 rs = \<lparr>w_files = F, w_place = (\<lambda>i. Outside)(0 := p0, 1 := p1),
     w_rank = (\<lambda>i. uh_process)(0 := m0, 1 := m1), w_returned = rs\<rparr>"

lemma two_busy_simps:
  "world_start (\<lambda>i. uh_process) F = two_busy F Outside Outside uh_process uh_process []"
  "put 0 p m (two_busy F p0 p1 m0 m1 rs) = two_busy (files m) p p1 m m1 rs"
  "put 1 p m (two_busy F p0 p1 m0 m1 rs) = two_busy (files m) p0 p m0 m rs"
  "view (two_busy F p0 p1 m0 m1 rs) 0 = m0\<lparr>files := F\<rparr>" "view (two_busy F p0 p1 m0 m1 rs) 1 = m1\<lparr>files := F\<rparr>"
  "w_rank (two_busy F p0 p1 m0 m1 rs) 0 = m0" "w_rank (two_busy F p0 p1 m0 m1 rs) 1 = m1"
  "w_files (two_busy F p0 p1 m0 m1 rs) = F" "w_returned (two_busy F p0 p1 m0 m1 rs) = rs"
  "w_place (two_busy F p0 p1 m0 m1 rs) 0 = p0" "w_place (two_busy F p0 p1 m0 m1 rs) 1 = p1"
  "report i r (two_busy F p0 p1 m0 m1 rs) = two_busy F p0 p1 m0 m1 (rs @ [(i, r)])"
  by (auto simp: two_busy_def world_start_def put_def view_def report_def fun_eq_iff)

definition both_served :: "(unit upper_half_ext, unit) world" where
  "both_served = (let m = uh_process\<lparr>uh_lhInfo := some_info, files := (files uh_process)(LH_FILE_NAME := None), initialized := True\<rparr>
     in two_busy (files m) Outside Outside m m [(0, MPI_SUCCESS), (1, MPI_SUCCESS)])"

lemma both_served_schedule:
  "schedule plain_kernel (\<lambda>p. lhDlsym_fn plain_kernel)
     (\<lambda>p :: va. lower_MPI :: unit \<Rightarrow> upper_half \<Rightarrow> (int \<times> upper_half) run) MPI_Fnc_Init () [0, 1, 0, 0, 1, 1, 0, 1]
     (world_start (\<lambda>i. uh_process) (files uh_process)) = Inr both_served"
proof -
  let ?K = plain_kernel and ?d = "\<lambda>p :: va. lhDlsym_fn plain_kernel"
    and ?c = "\<lambda>p :: va. lower_MPI :: unit \<Rightarrow> upper_half \<Rightarrow> (int \<times> upper_half) run"
    and ?w0 = "world_start (\<lambda>i. uh_process) (files uh_process) :: (_, unit) world"
  have disk: "files uh_process LH_FILE_NAME = Some (lhinfo_bytes some_info)" "k_answers ?K LH_FILE_NAME = []"
    by (simp_all add: uh_process_def process.defs plain_kernel_def)
  let ?fd = "\<lparr>content = lhinfo_bytes some_info, pos = 0, answers = []\<rparr>" and ?F = "(files uh_process)(LH_FILE_NAME := None)"
    and ?o = "\<lambda>fd. Opened fd MPI_Fnc_Init ()"
  let ?m = "uh_process\<lparr>uh_lhInfo := some_info, files := ?F, initialized := True\<rparr>"
  have call: "call_lower_half ?K ?d ?c MPI_Fnc_Init () m = Inr (MPI_SUCCESS, m)"
    if "initialized m" "fs_base m = fs_base uh_process" for m
    by (rule call_lower_half_ready)
       (use that MPI_Init_between uh_process_restored in \<open>simp_all add: ranks_restored_def lower_half_code_def\<close>)
  have uh: "\<not> initialized uh_process" by (rule uh_process_facts)
  note step = thread_step_def two_busy_simps read_lhInfo_prefix [of some_info "[]", simplified] sys_unlink_def
  have same: "uh_process\<lparr>uh_lhInfo := some_info, initialized := True, files := ?F\<rparr> = ?m"
    by (cases uh_process) simp
  have opens: "schedule ?K ?d ?c MPI_Fnc_Init () [0, 1] ?w0 =
      Inr (two_busy (files uh_process) (?o ?fd) (?o ?fd) uh_process uh_process [])"
    using disk uh by (simp add: step open_ro_def del: One_nat_def)
  have "schedule ?K ?d ?c MPI_Fnc_Init () [0, 0, 1, 1] (two_busy (files uh_process) (?o ?fd) (?o ?fd) uh_process uh_process []) =
      Inr (two_busy ?F (Calling MPI_Fnc_Init ()) (Calling MPI_Fnc_Init ()) ?m ?m [])"
    by (simp add: step del: One_nat_def)
  moreover have "schedule ?K ?d ?c MPI_Fnc_Init () [0, 1]
      (two_busy ?F (Calling MPI_Fnc_Init ()) (Calling MPI_Fnc_Init ()) ?m ?m []) =
      Inr (two_busy ?F Outside Outside ?m ?m [(0, MPI_SUCCESS), (1, MPI_SUCCESS)])"
    by (simp add: step call same del: One_nat_def)
  ultimately show ?thesis
    using schedule_append [of ?K ?d ?c MPI_Fnc_Init "()" "[0, 1]" "[0, 0, 1, 1] @ [0, 1]" ?w0] opens
      schedule_append [of ?K ?d ?c MPI_Fnc_Init "()" "[0, 0, 1, 1]" "[0, 1]"]
    by (simp add: both_served_def Let_def del: schedule.simps One_nat_def)
qed

text \<open>
  Ranks 0 and 1 both open the file before one of them removes it; both calls return. Rank 2 comes later and ends the process.
\<close>

theorem admitted_ranks_use_MPI_witness:
  "\<exists>w. schedule plain_kernel (\<lambda>p. lhDlsym_fn plain_kernel)
       (\<lambda>p :: va. lower_MPI :: unit \<Rightarrow> upper_half \<Rightarrow> (int \<times> upper_half) run) MPI_Fnc_Init () [0, 1, 0, 0, 1, 1, 0, 1]
       (world_start (\<lambda>i. uh_process) (files uh_process)) = Inr w \<and>
     w_returned w = [(0, MPI_SUCCESS), (1, MPI_SUCCESS)] \<and> {0, 1} \<subseteq> admitted w \<and>
     thread_step plain_kernel (\<lambda>p. lhDlsym_fn plain_kernel) (\<lambda>p. lower_MPI) MPI_Fnc_Init () 2 w = Inl (Exit (-1))"
proof -
  let ?d = "\<lambda>p :: va. lhDlsym_fn plain_kernel"
    and ?c = "\<lambda>p :: va. lower_MPI :: unit \<Rightarrow> upper_half \<Rightarrow> (int \<times> upper_half) run"
  have run: "ranks_run plain_kernel ?d ?c (world_start (\<lambda>i. uh_process) (files uh_process)) both_served"
    by (rule schedule_run [OF ranks_run.start both_served_schedule MPI_Init_between])
  have served: "w_returned both_served = [(0, MPI_SUCCESS), (1, MPI_SUCCESS)]" "{0, 1} \<subseteq> admitted both_served"
    "2 \<notin> admitted both_served" "w_files both_served LH_FILE_NAME = None"
    using uh_process_facts(2) by (simp_all add: admitted_def both_served_def two_busy_def Let_def)
  then have "thread_step plain_kernel ?d ?c MPI_Fnc_Init () 2 both_served = Inl (Exit (-1))"
    using admitted_ranks_use_MPI [OF run uh_process_restored, of 2 MPI_Fnc_Init "()"]
    by (cases "thread_step plain_kernel ?d ?c MPI_Fnc_Init () 2 both_served") auto
  with both_served_schedule served(1,2) show ?thesis by blast
qed

end
