(* ===== verification/MpiMacros.thy ===== *)
theory MpiMacros
  imports UpperHalf
begin

text \<open>
  The preprocessor macros with which both halves generate their MPI functions (\<open>upper-half-mpi-wrappers.h\<close> and
  \<open>lower-half-mpi.h\<close> hold the same ones), the functions they generate (\<open>upper-half-mpi-wrappers.c\<close>,
  \<open>lower-half-mpi.c\<close>) and the prototypes the headers declare. What the generated bodies do is in \<open>UpperHalf\<close>; here
  are their signatures and the arguments they pass on.
\<close>

section \<open>Counting and applying\<close>






section \<open>Types, parameters and generated functions\<close>

text \<open>The C types the signatures use; \<open>Const\<close> qualifies the type it is applied to.\<close>

datatype ctype = Void | CInt | CChar | Const ctype | Ptr ctype | Typedef string

text \<open>A parameter is written \<open>(type) name\<close>: \<open>PAIR\<close> keeps both, \<open>STRIP\<close> only the name.\<close>

type_synonym param = "ctype \<times> string"



record proto =
  ret_type :: ctype
  fun_name :: string
  param_types :: "ctype list"

record generated =
  gen_ret :: ctype
  gen_name :: string
  gen_params :: "(ctype \<times> string) list"

definition proto_of :: "generated \<Rightarrow> proto" where
  "proto_of g = \<lparr>ret_type = gen_ret g, fun_name = gen_name g, param_types = map fst (gen_params g)\<rparr>"



section \<open>The four functions\<close>

text \<open>The lines with which the two files call the macro, in their order.\<close>

definition upper_calls :: "(ctype \<times> string \<times> param list) list" where
  "upper_calls =
     [(CInt, ''Init'', [(Ptr CInt, ''argc''), (Ptr (Ptr (Ptr CChar)), ''argv'')]),
      (CInt, ''Comm_rank'', [(CInt, ''group''), (Ptr CInt, ''world_rank'')]),
      (CInt, ''Send'', [(Ptr (Const Void), ''buf''), (CInt, ''count''), (Typedef ''MPI_Datatype'', ''datatype''),
         (CInt, ''dest''), (CInt, ''tag''), (Typedef ''MPI_Comm'', ''comm'')]),
      (CInt, ''Recv'', [(Ptr Void, ''buf''), (CInt, ''count''), (Typedef ''MPI_Datatype'', ''datatype''),
         (CInt, ''source''), (CInt, ''tag''), (Typedef ''MPI_Comm'', ''comm''), (Ptr (Typedef ''MPI_Status''), ''status'')])]"

definition lower_calls :: "(ctype \<times> string \<times> param list) list" where
  "lower_calls =
     [(CInt, ''Init'', [(Ptr CInt, ''argc''), (Ptr (Ptr (Ptr CChar)), ''argv'')]),
      (CInt, ''Comm_rank'', [(CInt, ''group''), (Ptr CInt, ''world_rank'')]),
      (CInt, ''Send'', [(Ptr (Const Void), ''buf''), (CInt, ''count''), (Typedef ''MPI_Datatype'', ''datatype''),
         (CInt, ''dest''), (CInt, ''tag''), (Typedef ''MPI_Comm'', ''comm'')]),
      (CInt, ''Recv'', [(Ptr Void, ''buf''), (CInt, ''count''), (Typedef ''MPI_Datatype'', ''datatype''),
         (CInt, ''source''), (CInt, ''tag''), (Typedef ''MPI_Comm'', ''comm''), (Ptr (Typedef ''MPI_Status''), ''status'')])]"

text \<open>The prototypes of the two headers.\<close>

definition upper_protos :: "proto list" where
  "upper_protos =
     [\<lparr>ret_type = CInt, fun_name = ''MPI_Init'', param_types = [Ptr CInt, Ptr (Ptr (Ptr CChar))]\<rparr>,
      \<lparr>ret_type = CInt, fun_name = ''MPI_Comm_rank'', param_types = [Typedef ''MPI_Comm'', Ptr CInt]\<rparr>,
      \<lparr>ret_type = CInt, fun_name = ''MPI_Send'', param_types = [Ptr (Const Void), CInt, Typedef ''MPI_Datatype'',
         CInt, CInt, Typedef ''MPI_Comm'']\<rparr>,
      \<lparr>ret_type = CInt, fun_name = ''MPI_Recv'', param_types = [Ptr Void, CInt, Typedef ''MPI_Datatype'',
         CInt, CInt, Typedef ''MPI_Comm'', Ptr (Typedef ''MPI_Status'')]\<rparr>]"

definition lower_protos :: "proto list" where
  "lower_protos =
     [\<lparr>ret_type = CInt, fun_name = ''MPI_Init'', param_types = [Ptr CInt, Ptr (Ptr (Ptr CChar))]\<rparr>,
      \<lparr>ret_type = CInt, fun_name = ''MPI_Comm_rank'', param_types = [Typedef ''MPI_Comm'', Ptr CInt]\<rparr>,
      \<lparr>ret_type = CInt, fun_name = ''MPI_Send'', param_types = [Ptr (Const Void), CInt, Typedef ''MPI_Datatype'',
         CInt, CInt, Typedef ''MPI_Comm'']\<rparr>,
      \<lparr>ret_type = CInt, fun_name = ''MPI_Recv'', param_types = [Ptr Void, CInt, Typedef ''MPI_Datatype'',
         CInt, CInt, Typedef ''MPI_Comm'', Ptr (Typedef ''MPI_Status'')]\<rparr>]"

section \<open>The macros as functions on lists\<close>






section \<open>The signatures\<close>

text \<open>Types and signatures with the typedefs of \<open>mpi.h\<close> expanded, which \<open>td\<close> gives.\<close>

fun resolve :: "(string \<Rightarrow> ctype) \<Rightarrow> ctype \<Rightarrow> ctype" where
  "resolve td (Typedef n) = td n"
| "resolve td (Const t) = Const (resolve td t)"
| "resolve td (Ptr t) = Ptr (resolve td t)"
| "resolve td t = t"

definition same_type :: "(string \<Rightarrow> ctype) \<Rightarrow> proto \<Rightarrow> proto \<Rightarrow> bool" where
  "same_type td p q \<longleftrightarrow> fun_name p = fun_name q \<and> resolve td (ret_type p) = resolve td (ret_type q) \<and>
     map (resolve td) (param_types p) = map (resolve td) (param_types q)"

definition lower_generated :: "generated list" where
  "lower_generated = map (\<lambda>(t, name, args). \<lparr>gen_ret = t, gen_name = ''MPI_'' @ name, gen_params = args\<rparr>) lower_calls"






text \<open>
  The four functions: both files use the macro with the same lines, none has more than seven parameters, the functions are those of the
  table of \<open>lhDlsym\<close> in its order, and their signatures are those of the prototypes exactly when \<open>MPI_Comm\<close> is \<open>int\<close>,
  because \<open>MPI_Comm_rank\<close> is defined with an \<open>int\<close> where its prototype has \<open>MPI_Comm\<close>.
\<close>

lemma four_functions:
  "upper_calls = lower_calls" "list_all (\<lambda>(t, name, args). args \<noteq> [] \<and> length args \<le> 7 \<and> distinct (map snd args)) lower_calls"
  "map gen_name lower_generated = map MPI_name [MPI_Fnc_Init, MPI_Fnc_Comm_rank, MPI_Fnc_Send, MPI_Fnc_Recv]"
  "list_all2 (same_type td) (map proto_of lower_generated) lower_protos \<longleftrightarrow> td ''MPI_Comm'' = CInt"
  "list_all2 (same_type td) (map proto_of lower_generated) upper_protos \<longleftrightarrow> td ''MPI_Comm'' = CInt"
  by (simp_all add: lower_generated_def upper_calls_def lower_calls_def lower_protos_def upper_protos_def same_type_def
      proto_of_def MPI_name_def) auto


end
