(* ===== verification/Spec2Isabelle.thy ===== *)
theory Spec2Isabelle
  imports LoaderRun Target RankSteps MpiMacros
begin

text \<open>
  A verification development for mpi-simgrid: checkpoint and restart of MPI processes with two programs in
  one address space.

  \<^bold>\<open>The program.\<close> The \<^emph>\<open>lower half\<close> (the kernel loader, \<open>kernel-loader.c\<close>) starts first. It reserves
  the address space outside the range of its rank, loads the runtime loader \<open>ld.so\<close> into that range, gives
  it a stack and a heap, redirects its \<open>mmap\<close> and \<open>sbrk\<close> to wrappers of its own, writes their addresses to
  \<open>addr.bin\<close> and jumps to \<open>ld.so\<close>. What \<open>ld.so\<close> then loads is the \<^emph>\<open>upper half\<close>: the application
  (\<open>target.c\<close>) with the preloaded library that holds its wrappers and the checkpoint handler. The wrappers of the
  upper half read \<open>addr.bin\<close> and call the lower half through it. A checkpoint writes the regions
  the \<open>mmap\<close> wrapper has recorded; on a restart a new lower half maps them again and
  continues the saved context of every rank in a thread. Only the memory of the upper half is saved.

  \<^bold>\<open>Theories and what they model.\<close>
  \<^item> \<open>Prelude\<close>: words, little-endian encodings and their locale \<open>codec\<close>, the result type \<open>'a run\<close>
    of code that may stop the process (\<open>Abort\<close>, \<open>AssertFail\<close>, \<open>Exit\<close>, \<open>Segv\<close>), C strings, page arithmetic.
  \<^item> \<open>Common\<close> (\<open>common.h\<close>, \<open>ckpt-restart.h\<close>): macros, the shared records, \<open>regionContains\<close>, \<open>doAreasOverlap\<close>.
    \<open>Areas\<close> (\<open>procmapsarea.h\<close>): \<open>Area\<close> and its 4096 bytes in an image.
  \<^item> \<open>SysIO\<close> (\<open>utils.c\<close>): open files with the interruptions the kernel has in store; \<open>writeAll\<close>, \<open>readAll\<close>,
    \<open>checkLibrary\<close>. \<open>Machine\<close>: memory, protections, \<open>fs\<close> base, files and descriptors of a process, the
    system calls on them, and \<open>kernel\<close>, the record of what the kernel decides. \<open>CLib\<close>: what the loaders use of the C library.
  \<^item> \<open>ProcMaps\<close> (\<open>procmapsutils.c\<close>): the parser of \<open>/proc/self/maps\<close>. \<open>MapsView\<close>: kernels whose listing is true.
  \<^item> \<open>ElfSymbols\<close>, \<open>Trampoline\<close> (\<open>trampoline_setup.c\<close>): \<open>get_symbol_offset\<close>, \<open>insertTrampoline\<close>.
  \<^item> \<open>MmapWrapper\<close> (\<open>mmap-wrapper.c\<close>), \<open>SbrkWrapper\<close> (\<open>sbrk-wrapper.c\<close>): the wrappers of the lower half and
    their state, the record \<open>lower_half\<close>.
  \<^item> \<open>CustomLoader\<close> (\<open>custom-loader.c\<close>): \<open>safeLoadLib\<close>. \<open>AddrSpace\<close>, \<open>StackCopy\<close>, \<open>KernelLoader\<close> (\<open>kernel-loader.c\<close>,
    \<open>kernel-loader.h\<close>): the confinement, the copy of the stack, and the rest up to \<open>runRtld\<close> and \<open>main\<close>
    (\<open>loader_main\<close>). \<open>LoaderRun\<close> composes all steps of \<open>runRtld\<close>.
  \<^item> \<open>MemCkpt\<close> (\<open>mem-ckpt.c\<close>), \<open>MemRestore\<close> (\<open>mem-restore.c\<close>): the checkpoint handler and the restart; the
    record \<open>process\<close> adds the globals of the upper half.
  \<^item> \<open>UpperHalf\<close> (\<open>upper-half-wrappers.c\<close>, \<open>upper-half-mpi-wrappers.h\<close>, \<open>mpi-lh-if.c\<close>, \<open>lower-half-mpi.h\<close>): the wrappers of
    the upper half and the functions they reach. \<open>MpiMacros\<close>: the macros that generate the MPI functions and their
    signatures. \<open>Ranks\<close>: several restored ranks that call MPI in any order, one call after the other; \<open>RankSteps\<close>: the
    same ranks as threads that interleave between their system calls. \<open>Target\<close> (\<open>target.c\<close>): the application.
  \<^item> \<open>Logging\<close> (\<open>common.h\<close>): \<open>DLOG\<close>, its levels and colours.
  \<^item> This theory: checkpoint and restart as a round trip, a second checkpoint after it, a checkpoint signal during a call into the lower half, and the
    life of the application through checkpoint and restart.

  \<^bold>\<open>Conventions.\<close> A C function is a function on the state record of its module, with the same name (a
  suffix \<open>_lh\<close> or \<open>_fn\<close> where two files or a record have the same one); extensible records let a function of one module act
  on the state of those that use it. Pointers and sizes are 64-bit words and wrap; \<open>int\<close> is a 32-bit word where
  its width matters. Mixed comparisons of signed and unsigned numbers are written as C evaluates them. A variable
  without initialiser holds \<open>k_stale\<close>. A call through a pointer into the other half runs \<open>code\<close>, an
  argument, whose instance in the theorems is the model of that half (\<open>lower_half_code\<close>).
  The local variable \<open>i\<close> of the application and the state variable of the handler lie in memory, because a restart
  finds them in the image.

  \<^bold>\<open>Interfaces.\<close> \<open>codec\<close> is interpreted for words, \<open>LowerHalfInfo\<close> and \<open>Area\<close>; \<open>digit_reader\<close> (the loops of \<open>readDec\<close>
  and \<open>readHex\<close>) for both bases; \<open>fixed_mapper\<close> and its extension \<open>tracking_mapper\<close>, what a restart needs of
  \<open>mmap\<close>, for the wrapper of the lower half.

  \<^bold>\<open>Loops.\<close> All definitions are total. The retry loops of \<open>utils.c\<close> and the loop over segments end because the
  bytes left and the list of pending interruptions get smaller; a list is finite, so it stands for every kernel that
  disturbs a file finitely often. Walks over vectors and strings in memory end at the last address, where
  they fault. The loops of the application end at their bound. \<open>first_fit\<close>, the placement of the example kernel, looks at every page.

  \<^bold>\<open>What is shown.\<close> For the files: prefix and completeness of the retry loops, the parser inverse to the
  format of the listing. For the lower half: what the symbol reader finds, that a patch is the jump and nothing else changes,
  the table of mappings, the heap along every run of \<open>sbrk\<close>; the loaded image, the confined address space, the
  copied stack; and that \<open>runRtld\<close> with a willing kernel does reach its jump with all of these
  in place. For checkpoint and restart: exactly what an image holds, that a restore never
  overwrites what is mapped, all or nothing for several images, the round trip, that a second checkpoint saves the same regions, and the application that goes on where it
  was. For the threads of a restart: a step relation (\<open>thread_step\<close>, \<open>ranks_run\<close>) whose uninterrupted steps are the
  wrapper, and an invariant that tells which ranks can use MPI. Some theorems show what the code does not do: mappings
  lost from an image, pointers not reset, a late rank without MPI, the \<open>fs\<close> base of the wrong half in an image,
  shifted fields of \<open>/proc/self/stat\<close>, a level of messages without a colour. The hypotheses on the kernel
  (\<open>kernel_ok\<close>, \<open>maps_ok\<close>, \<open>grants_at\<close>, \<open>willing\<close>, \<open>kernel_willing\<close>) state what the manual pages
  promise and what is granted; example kernels satisfy them.

  \<^bold>\<open>Not modelled.\<close> The messages the functions print (\<open>DLOG\<close> itself is modelled, not its calls; of the application the output is), \<open>sleep\<close>
  and \<open>fflush\<close>; leaked descriptors and buffers; \<open>get_elf_interpreter\<close>, which is compiled out; a kernel that answers
  \<open>EINTR\<close> for ever; the code of \<open>ld.so\<close> and of the C library in the upper half; interleavings of threads inside the \<open>sbrk\<close> and
  \<open>mmap\<close> wrappers, and the checkpoint signal at other points than a call into the lower half;
  MPI itself, of which the repository has only the stubs of \<open>lower-half-mpi.h\<close>. The concurrent restart of ranks is
  modelled up to the context each thread continues with, and for the calls into MPI.
\<close>

section \<open>Checkpoint and restart\<close>

lemma areas_of_area_ok: "area_ok b \<Longrightarrow> list_all entry_ok es \<Longrightarrow> a \<in> set (areas_of b es) \<Longrightarrow> area_ok a"
  using areas_of_ok [of b es] by (auto simp: list_all_iff)

lemma saved_area_ok:
  assumes "stale_ok K" "list_all entry_ok es" "a \<in> set (saved_areas p (maps_areas K es))"
  shows "area_ok a"
proof -
  obtain b where b: "b \<in> set (maps_areas K es)" "to_save p b = Some a"
    using assms(3) by (auto simp: saved_areas_def List.map_filter_def)
  have "area_ok b"
    using areas_of_area_ok [OF area_ok_stale [OF assms(1)] assms(2)] b(1) by (simp add: maps_areas_def)
  then show ?thesis
    using b(2) by (auto simp: to_save_def area_ok_def dest!: chosen_cases split: if_splits)
qed

text \<open>The segments of the image of a process, and what a restart needs of its regions and of the target.\<close>

definition image_segments :: "kernel \<Rightarrow> maps_entry list \<Rightarrow> 'a process_scheme \<Rightarrow> (Area \<times> byte list) list" where
  "image_segments K es p =
     map (\<lambda>a. (a, peek (frozen K p) (a_addr a) (unat (a_size a)))) (saved_areas p (maps_areas K es))"

definition can_restart :: "kernel \<Rightarrow> Area list \<Rightarrow> 'b lower_half_scheme \<Rightarrow> bool" where
  "can_restart K areas m \<longleftrightarrow> willing K \<and> layout_ok (prot_at m) \<and>
     list_all (\<lambda>a. user_region (a_addr a) (a_size a)) areas \<and> disjoint_areas areas \<and>
     (\<forall>a \<in> set areas. \<forall>x. in_area a x \<longrightarrow> prot_at m x = None)"

lemma ckpt_image_segments:
  "ckpt_image K ctx sp es p =
    st_bytes \<lparr>st_ctx = ctx, st_sp = sp, st_fsAddr = fs_base p\<rparr> @ segment_bytes (image_segments K es p)"
  by (simp add: ckpt_image_def segment_bytes_def image_segments_def comp_def
      segment_def [abs_def])

lemma image_segments_ok:
  assumes "can_checkpoint K es p" "can_restart K (saved_areas p (maps_areas K es)) m"
  shows "list_all seg_ok (image_segments K es p)" "disjoint_areas (map fst (image_segments K es p))"
    "\<forall>seg \<in> set (image_segments K es p). \<forall>x. in_area (fst seg) x \<longrightarrow> prot_at m x = None"
proof -
  have "stale_ok K" "list_all entry_ok es" using assms(1) by (auto simp: can_checkpoint_def lists_def)
  note saved_area_ok [OF this]
  then show "list_all seg_ok (image_segments K es p)"
    using assms(2) by (auto simp: can_restart_def image_segments_def seg_ok_def list_all_iff)
  have "map fst (image_segments K es p) = saved_areas p (maps_areas K es)"
    by (simp add: image_segments_def comp_def)
  then show "disjoint_areas (map fst (image_segments K es p))"
    using assms(2) by (simp add: can_restart_def)
  show "\<forall>seg \<in> set (image_segments K es p). \<forall>x. in_area (fst seg) x \<longrightarrow> prot_at m x = None"
    using assms(2) by (auto simp: can_restart_def image_segments_def)
qed

lemma nth_peek_in_area: "in_area a x \<Longrightarrow> peek m (a_addr a) (unat (a_size a)) ! unat (x - a_addr a) = mem m x"
  by (simp add: nth_peek in_area_def in_range_def word_less_nat_alt)

lemma restart_restores:
  assumes "can_checkpoint K es p" "can_restart K (saved_areas p (maps_areas K es)) m"
    and "length ctx = k_sizeof_ucontext K" "files m (ckpt_img p) = Some (ckpt_image K ctx sp es p)"
  shows "\<exists>m'. restoreMemoryForImage K (ckpt_img p) m =
      Inr (0, Some \<lparr>st_ctx = ctx, st_sp = sp, st_fsAddr = fs_base p\<rparr>, m') \<and>
    restored (image_segments K es p) m m' \<and> tracks (image_segments K es p) m m'"
proof -
  let ?st = "\<lparr>st_ctx = ctx, st_sp = sp, st_fsAddr = fs_base p\<rparr>"
  let ?f = "\<lparr>content = ckpt_image K ctx sp es p, pos = 0, answers = k_answers K (ckpt_img p)\<rparr>"
  have op: "open_ro K (ckpt_img p) m = Some ?f" using assms(4) by (simp add: open_ro_def)
  have calm: "calm ?f" using assms(1) by (simp add: can_checkpoint_def calm_def)
  have len: "length (st_bytes ?st) = sizeof_st K" "st_of_bytes (k_sizeof_ucontext K) (st_bytes ?st) = ?st"
    using st_codec [of ?st K] assms(3) by simp_all
  have "pending ?f = st_bytes ?st @ segment_bytes (image_segments K es p)"
    by (simp add: pending_def ckpt_image_segments)
  then obtain f1 where f1: "readAll (sizeof_st K) ?f = (int (sizeof_st K), st_bytes ?st, f1)"
    "pending f1 = segment_bytes (image_segments K es p)" "calm f1"
    using readAll_calm [OF calm, of "sizeof_st K"] len(1) by auto
  have K: "willing K" "layout_ok (prot_at m)" using assms(2) by (simp_all add: can_restart_def)
  obtain f2 m2 where "restoreMemory K f1 m = Inr (0, f2, m2)" "restored (image_segments K es p) m m2"
    "tracks (image_segments K es p) m m2"
    using restoreMemory_segments [OF K f1(3,2) image_segments_ok [OF assms(1,2)]] by blast
  then show ?thesis
    by (simp add: restoreMemoryForImage_def op f1(1) len(2))
qed

text \<open>
  C1. A checkpoint and a restart are a round trip. The image a process wrote, restored where none
  of its regions is mapped, gives back its context, stack pointer and \<open>fs\<close> base, and every byte and
  protection of the saved regions (with the state variable as the image froze it); the rest of
  the restarting process is as it was.
\<close>

theorem checkpoint_restart_roundtrip:
  assumes "can_checkpoint K es p"
    and "get_state K p = CkptOrRestore_code RUNNING \<or> get_state K p = CkptOrRestore_code POST_RESUME"
    and "checkpointHandler K (Some ctx) sp p = Inr p'" "length ctx = k_sizeof_ucontext K"
    and "can_restart K (saved_areas p (maps_areas K es)) m"
    and "files m (ckpt_img p) = files p' (ckpt_img p)"
  shows "\<exists>m'. restoreMemoryForImage K (ckpt_img p) m =
      Inr (0, Some \<lparr>st_ctx = ctx, st_sp = sp, st_fsAddr = fs_base p\<rparr>, m') \<and>
    (\<forall>a \<in> set (saved_areas p (maps_areas K es)). \<forall>x. in_area a x \<longrightarrow>
       mem m' x = mem (frozen K p) x \<and> prot_at m' x = Some (a_prot a)) \<and>
    (\<forall>x. (\<forall>a \<in> set (saved_areas p (maps_areas K es)). \<not> in_area a x) \<longrightarrow>
       mem m' x = mem m x \<and> prot_at m' x = prot_at m x)"
proof -
  have "files m (ckpt_img p) = Some (ckpt_image K ctx sp es p)"
    using checkpointHandler_saves [OF assms(1,2), of ctx sp] assms(3,6) by simp
  then obtain m' where "restoreMemoryForImage K (ckpt_img p) m =
      Inr (0, Some \<lparr>st_ctx = ctx, st_sp = sp, st_fsAddr = fs_base p\<rparr>, m')" "restored (image_segments K es p) m m'"
    using restart_restores [OF assms(1,5,4)] by blast
  then show ?thesis
    by (intro exI [of _ m']) (auto simp: restored_def image_segments_def nth_peek_in_area)
qed

text \<open>
  The restarted process knows that it was restarted: when its state variable lies in a saved
  region, what follows \<open>getcontext\<close> finds \<open>POST_RESTART\<close>, writes no second image and makes the
  wrappers look for the new lower half.
\<close>

theorem restart_takes_restart_branch:
  assumes "can_checkpoint K es p" "can_restart K (saved_areas p (maps_areas K es)) (m :: 'b process_scheme)"
    and "length ctx = k_sizeof_ucontext K" "files m (ckpt_img p) = Some (ckpt_image K ctx sp es p)"
    and "\<forall>i < 4. \<exists>a \<in> set (saved_areas p (maps_areas K es)). in_area a (k_sym K ''state'' + of_nat i)"
    and "restoreMemoryForImage K (ckpt_img p) m = Inr (0, st, m')"
  shows "handler_after_getcontext K ckptfd ctx sp m' = Inr (m'\<lparr>initialized := False\<rparr>)"
proof -
  have "restored (image_segments K es p) m m'"
    using restart_restores [OF assms(1-4)] assms(6) by auto
  then have "mem m' (k_sym K ''state'' + of_nat i) = mem (frozen K p) (k_sym K ''state'' + of_nat i)" if "i < 4" for i
    using assms(5) that by (fastforce simp: restored_def image_segments_def nth_peek_in_area)
  then have "get_state K m' = get_state K (frozen K p)"
    unfolding get_state_def by (intro arg_cong [of _ _ le_word] peek_eqI)
  then show ?thesis
    by (simp add: handler_after_getcontext_def reset_wrappers_def)
qed

subsection \<open>One page, checkpointed and restored\<close>

definition page_image :: "byte list" where
  "page_image = ckpt_image ckpt_kernel (replicate 968 1) 0x7ffe0000 (page_entries one_page) ckpt_process"

definition restart_process :: process where
  "restart_process = blank_process\<lparr>files := [bytes_of ''./rank_0_ckpt.img'' \<mapsto> page_image]\<rparr>"

lemma restart_process_can: "can_restart ckpt_kernel [page_area] restart_process"
  using ckpt_kernel_willing layouts(1) page_area_user
  by (simp add: can_restart_def disjoint_areas_def restart_process_def) (simp add: blank_process_def)

lemma saved_page: "saved_areas ckpt_process (maps_areas ckpt_kernel (page_entries one_page)) = [page_area]"
  by (simp add: one_page_areas ckpt_process_saved)

lemma ucontext_size: "length (replicate 968 (1 :: byte)) = k_sizeof_ucontext ckpt_kernel"
  by (simp add: ckpt_kernel_def truthful_kernel_def plain_kernel_def)

lemma restart_files: "files restart_process (ckpt_img ckpt_process) = Some page_image"
  by (simp add: restart_process_def ckpt_process_def)

theorem checkpoint_restart_roundtrip_witness:
  "\<exists>m'. restoreMemoryForImage ckpt_kernel (ckpt_img ckpt_process) restart_process =
      Inr (0, Some \<lparr>st_ctx = replicate 968 1, st_sp = 0x7ffe0000, st_fsAddr = 0x1000\<rparr>, m') \<and>
    mem m' 0x600123 = mem (frozen ckpt_kernel ckpt_process) 0x600123 \<and>
    prot_at m' 0x600123 = Some (PROT_READ OR PROT_WRITE)"
proof -
  obtain p' where p': "checkpointHandler ckpt_kernel (Some (replicate 968 1)) 0x7ffe0000 ckpt_process = Inr p'"
    "files p' (ckpt_img ckpt_process) = Some page_image"
    using checkpointHandler_saves [OF ckpt_process_can disjI1 [OF ckpt_process_running], of "replicate 968 1" "0x7ffe0000"]
    by (simp add: page_image_def)
  have "in_area page_area 0x600123" by (simp add: in_area_def in_range_def page_area_fields)
  moreover have "fs_base ckpt_process = 0x1000" by (simp add: ckpt_process_def)
  ultimately show ?thesis
    using checkpoint_restart_roundtrip [OF ckpt_process_can disjI1 [OF ckpt_process_running] p'(1) ucontext_size,
        of restart_process] restart_process_can restart_files p'(2)
    by (auto simp: saved_page page_area_fields)
qed

theorem restart_takes_restart_branch_witness:
  "\<exists>m'. restoreMemoryForImage ckpt_kernel (ckpt_img ckpt_process) restart_process =
      Inr (0, Some \<lparr>st_ctx = replicate 968 1, st_sp = 0x7ffe0000, st_fsAddr = 0x1000\<rparr>, m') \<and>
    handler_after_getcontext ckpt_kernel \<lparr>content = [], pos = 0, answers = []\<rparr> (replicate 968 1) 0x7ffe0000 m' =
      Inr (m'\<lparr>initialized := False\<rparr>)"
proof -
  have can: "can_restart ckpt_kernel (saved_areas ckpt_process (maps_areas ckpt_kernel (page_entries one_page))) restart_process"
    using restart_process_can by (simp add: saved_page)
  have img: "files restart_process (ckpt_img ckpt_process) =
      Some (ckpt_image ckpt_kernel (replicate 968 1) 0x7ffe0000 (page_entries one_page) ckpt_process)"
    using restart_files by (simp add: page_image_def)
  obtain m' where run: "restoreMemoryForImage ckpt_kernel (ckpt_img ckpt_process) restart_process =
      Inr (0, Some \<lparr>st_ctx = replicate 968 1, st_sp = 0x7ffe0000, st_fsAddr = fs_base ckpt_process\<rparr>, m')"
    using restart_restores [OF ckpt_process_can can ucontext_size img] by blast
  have "in_area page_area (k_sym ckpt_kernel ''state'' + of_nat i)" if "i < 4" for i
  proof -
    have "unat (0x10 + of_nat i :: u64) < 0x1000" using that by (simp add: unat_word_ariths unat_of_nat)
    then show ?thesis
      by (simp add: in_area_def in_range_def page_area_fields ckpt_kernel_def word_less_nat_alt)
  qed
  then show ?thesis
    using restart_takes_restart_branch [OF ckpt_process_can can ucontext_size img _ run] run
    by (simp add: saved_page) (simp add: ckpt_process_def)
qed

section \<open>A checkpoint signal during a call into the lower half\<close>

text \<open>
  A function of the lower half, which pauses, and the handler of the checkpoint signal, which runs in the pause with the
  \<open>fs\<close> base the lower half has.
\<close>

definition interrupted_MPI :: "kernel \<Rightarrow> byte list \<Rightarrow> va \<Rightarrow> 'args \<Rightarrow> 'a process_scheme \<Rightarrow> (int \<times> 'a process_scheme) run" where
  "interrupted_MPI K ctx sp args m = andThen (checkpointHandler K (Some ctx) sp m) (lower_MPI args)"

lemma can_checkpoint_fs:
  "can_checkpoint K es (m\<lparr>fs_base := b\<rparr>) = can_checkpoint K es m" "saved_areas (m\<lparr>fs_base := b\<rparr>) as = saved_areas m as"
  by (rule can_checkpoint_cong; simp add: tracked_def getMmappedList_def)+

lemma interrupted_call:
  assumes "initialized m" "0 < lhFsAddr (uh_lhInfo m)" "k_set_fs K (lhFsAddr (uh_lhInfo m))" "k_set_fs K (fs_base m)"
    and "can_checkpoint K es m" "get_state K m = CkptOrRestore_code RUNNING \<or> get_state K m = CkptOrRestore_code POST_RESUME"
    and "MPI_wrapper K dlsym (\<lambda>p. interrupted_MPI K ctx sp) f args m = Inr (r, m1)"
  shows "r = MPI_SUCCESS" "fs_base m1 = fs_base m" "get_state K m1 = CkptOrRestore_code POST_RESUME"
    "files m1 (ckpt_img m) = Some (ckpt_image K ctx sp es (m\<lparr>fs_base := lhFsAddr (uh_lhInfo m)\<rparr>))"
proof -
  let ?m = "m\<lparr>fs_base := lhFsAddr (uh_lhInfo m)\<rparr>"
  have state: "get_state K ?m = get_state K m" by (simp add: get_state_def peek_def)
  have "can_checkpoint K es ?m" using assms(5) by (simp add: can_checkpoint_fs)
  from checkpointHandler_saves [OF this, of ctx sp] state assms(6)
  have "checkpointHandler K (Some ctx) sp ?m = Inr (set_state K POST_RESUME
      ((frozen K ?m)\<lparr>files := (files m)(ckpt_img m \<mapsto> ckpt_image K ctx sp es ?m)\<rparr>))" by simp
  then have m1: "r = MPI_SUCCESS" "m1 = (set_state K POST_RESUME
      ((frozen K ?m)\<lparr>files := (files m)(ckpt_img m \<mapsto> ckpt_image K ctx sp es ?m)\<rparr>))\<lparr>fs_base := fs_base m\<rparr>"
    using assms(1-4,7)
    by (auto simp: MPI_wrapper_def call_lower_half_def in_lower_half_def set_fs_def interrupted_MPI_def lower_MPI_def Let_def)
  then show "r = MPI_SUCCESS" "fs_base m1 = fs_base m" by simp_all
  show "files m1 (ckpt_img m) = Some (ckpt_image K ctx sp es ?m)" by (simp add: m1(2) set_state_def poke_def)
  have "get_state K m1 = get_state K (set_state K POST_RESUME
      ((frozen K ?m)\<lparr>files := (files m)(ckpt_img m \<mapsto> ckpt_image K ctx sp es ?m)\<rparr>))"
    by (simp add: m1(2) get_state_def peek_def)
  then show "get_state K m1 = CkptOrRestore_code POST_RESUME" by (simp add: get_set_state)
qed

text \<open>
  C30. A checkpoint signal that arrives while the process is in the lower half saves the wrong \<open>fs\<close> base. The process
  itself goes on with its own, but every restart continues the saved context with the \<open>fs\<close> base of the old
  lower half, which the image does not hold.
\<close>

theorem signal_in_lower_half_saves_its_fs:
  assumes "initialized m" "0 < lhFsAddr (uh_lhInfo m)" "k_set_fs K (lhFsAddr (uh_lhInfo m))" "k_set_fs K (fs_base m)"
    and "can_checkpoint K es m" "get_state K m = CkptOrRestore_code RUNNING \<or> get_state K m = CkptOrRestore_code POST_RESUME"
    and "MPI_wrapper K dlsym (\<lambda>p. interrupted_MPI K ctx sp) f args m = Inr (r, m1)" "length ctx = k_sizeof_ucontext K"
    and "can_restart K (saved_areas m (maps_areas K es)) m2" "files m2 (ckpt_img m) = files m1 (ckpt_img m)"
  shows "fs_base m1 = fs_base m \<and> get_state K m1 = CkptOrRestore_code POST_RESUME \<and>
    (\<exists>m3. restoreCheckpoint K threadFs [ckpt_img m] m2 = Inr (0, [(lhFsAddr (uh_lhInfo m), ctx)], m3))"
proof -
  let ?m = "m\<lparr>fs_base := lhFsAddr (uh_lhInfo m)\<rparr>"
  note call = interrupted_call [OF assms(1-7)]
  have "can_checkpoint K es ?m" "can_restart K (saved_areas ?m (maps_areas K es)) m2"
    using assms(5,9) by (simp_all add: can_checkpoint_fs)
  moreover have "files m2 (ckpt_img ?m) = Some (ckpt_image K ctx sp es ?m)" using assms(10) call(4) by simp
  ultimately obtain m3 where "restoreMemoryForImage K (ckpt_img ?m) m2 =
      Inr (0, Some \<lparr>st_ctx = ctx, st_sp = sp, st_fsAddr = fs_base ?m\<rparr>, m3)"
    using restart_restores [of K es ?m m2 ctx sp] assms(8) by blast
  then have "restoreCheckpoint K threadFs [ckpt_img m] m2 = Inr (0, [(lhFsAddr (uh_lhInfo m), ctx)], m3)"
    using assms(3) by (simp add: restoreCheckpoint_def getNumRanks_def startRank_def restoreFs_def)
  then show ?thesis using call(2,3) by blast
qed

theorem signal_in_lower_half_saves_its_fs_witness:
  "\<exists>m1. MPI_wrapper ckpt_kernel (\<lambda>p. lhDlsym_fn ckpt_kernel)
       (\<lambda>p. interrupted_MPI ckpt_kernel (replicate 968 1) 0x7ffe0000) MPI_Fnc_Send () ckpt_process = Inr (MPI_SUCCESS, m1) \<and>
     fs_base m1 = 0x1000 \<and>
     (\<exists>m3. restoreCheckpoint ckpt_kernel (\<lambda>i. 0x3000) [bytes_of ''./rank_0_ckpt.img'']
        (restart_process\<lparr>files := files m1\<rparr>) = Inr (0, [(0x2000, replicate 968 1)], m3))"
proof -
  let ?K = ckpt_kernel and ?ctx = "replicate 968 1 :: byte list" and ?d = "\<lambda>p. lhDlsym_fn ckpt_kernel"
  have p: "initialized ckpt_process" "fs_base ckpt_process = 0x1000" "lhFsAddr (uh_lhInfo ckpt_process) = 0x2000"
    "ckpt_img ckpt_process = bytes_of ''./rank_0_ckpt.img''"
    by (simp_all add: ckpt_process_def)
  have K: "k_set_fs ?K 0x2000" "k_set_fs ?K 0x1000"
    by (simp_all add: ckpt_kernel_def truthful_kernel_def plain_kernel_def word_less_nat_alt)
  have "can_checkpoint ?K (page_entries one_page) (ckpt_process\<lparr>fs_base := 0x2000\<rparr>)"
    using ckpt_process_can by (simp add: can_checkpoint_fs)
  moreover have "get_state ?K (ckpt_process\<lparr>fs_base := 0x2000\<rparr>) = CkptOrRestore_code RUNNING"
    using ckpt_process_running by (simp add: get_state_def peek_def)
  ultimately obtain m1 where m1: "MPI_wrapper ?K ?d (\<lambda>p. interrupted_MPI ?K ?ctx 0x7ffe0000) MPI_Fnc_Send () ckpt_process = Inr (MPI_SUCCESS, m1)"
    using checkpointHandler_saves [of ?K "page_entries one_page" "ckpt_process\<lparr>fs_base := 0x2000\<rparr>" ?ctx "0x7ffe0000"] p K
    by (simp add: MPI_wrapper_def call_lower_half_def in_lower_half_def set_fs_def interrupted_MPI_def lower_MPI_def Let_def)
  have "can_restart ?K (saved_areas ckpt_process (maps_areas ?K (page_entries one_page))) (restart_process\<lparr>files := files m1\<rparr>)"
    using restart_process_can by (simp add: saved_page can_restart_def)
  from signal_in_lower_half_saves_its_fs [OF p(1) _ _ _ ckpt_process_can disjI1 [OF ckpt_process_running] m1 ucontext_size this]
  show ?thesis using m1 p K by simp
qed

section \<open>An application, checkpointed and restarted\<close>

text \<open>A variable of four bytes that the image holds.\<close>

definition var_saved :: "Area list \<Rightarrow> va \<Rightarrow> bool" where
  "var_saved areas b \<longleftrightarrow> (\<forall>i < 4. \<exists>a \<in> set areas. in_area a (b + of_nat i))"

lemma restored_variable:
  assumes "restored (image_segments K es p) m m'" "var_saved (saved_areas p (maps_areas K es)) b"
  shows "peek m' b 4 = peek (frozen K p) b 4"
proof (rule peek_eqI)
  fix i :: nat assume "i < 4"
  then show "mem m' (b + of_nat i) = mem (frozen K p) (b + of_nat i)"
    using assms by (fastforce simp: restored_def image_segments_def nth_peek_in_area var_saved_def)
qed

lemma restored_state:
  assumes "restored (image_segments K es p) m m'" "var_saved (saved_areas p (maps_areas K es)) (k_sym K ''state'')"
  shows "get_state K m' = CkptOrRestore_code POST_RESTART"
proof -
  have "get_state K m' = get_state K (frozen K p)" by (simp only: get_state_def restored_variable [OF assms])
  then show ?thesis by simp
qed

text \<open>The application when it starts, and the process in which its image is restored.\<close>

definition app_given :: "kernel \<Rightarrow> maps_entry list \<Rightarrow> va \<Rightarrow> 'a app_scheme \<Rightarrow> bool" where
  "app_given K es ai p \<longleftrightarrow> i_apart K ai \<and> get_state K p = CkptOrRestore_code RUNNING \<and> can_checkpoint K es p \<and>
     var_saved (saved_areas p (maps_areas K es)) (k_sym K ''state'') \<and> var_saved (saved_areas p (maps_areas K es)) ai \<and>
     k_set_fs K (fs_base p) \<and> ckpt_img p \<noteq> LH_FILE_NAME"

definition restart_given :: "kernel \<Rightarrow> (va \<Rightarrow> u32 \<Rightarrow> va) \<Rightarrow>
    (va \<Rightarrow> 'args \<Rightarrow> 'a process_scheme \<Rightarrow> (int \<times> 'a process_scheme) run) \<Rightarrow> Area list \<Rightarrow> 'a process_scheme \<Rightarrow> bool" where
  "restart_given K dlsym code areas m \<longleftrightarrow> can_restart K areas m \<and> k_creat K LH_FILE_NAME \<and>
     k_answers K LH_FILE_NAME = [] \<and> lower_half_code K (k_sym K ''lhDlsym'') dlsym code"

lemma restart_loads:
  fixes m :: "'b process_scheme"
  assumes "can_checkpoint K es p" "can_restart K (saved_areas p (maps_areas K es)) m" "k_set_fs K (fs_base p)"
    and "k_creat K LH_FILE_NAME" "k_answers K LH_FILE_NAME = []" "ckpt_img p \<noteq> LH_FILE_NAME"
    and "length ctx = k_sizeof_ucontext K" "files m (ckpt_img p) = Some (ckpt_image K ctx sp es p)"
  obtains m0 m1 where
    "loader_main K environ brk sp0 threadFs [prog, bytes_of ''--restore'', ckpt_img p] m = Inr (Restarted 0 [(fs_base p, ctx)], m1)"
    "restored (image_segments K es p) m0 m1" "less_memory m1 = less_memory m0"
    "published K (wrapper_info K (fs_base m)) m1" "tracks (image_segments K es p) m0 m1"
    "\<exists>fs. m0 = m\<lparr>lhInfo := wrapper_info K (fs_base m), files := fs\<rparr>"
proof -
  let ?info = "wrapper_info K (fs_base m)" and ?st = "\<lparr>st_ctx = ctx, st_sp = sp, st_fsAddr = fs_base p\<rparr>"
  obtain old where s: "setupLowerHalfInfo K m =
      (0, m\<lparr>lhInfo := ?info, files := (files m)(LH_FILE_NAME \<mapsto> lhinfo_bytes ?info @ old)\<rparr>)"
    using setup_published [OF assms(4,5)] by blast
  let ?m0 = "m\<lparr>lhInfo := ?info, files := (files m)(LH_FILE_NAME \<mapsto> lhinfo_bytes ?info @ old)\<rparr>"
  have can: "can_restart K (saved_areas p (maps_areas K es)) ?m0" using assms(2) by (simp add: can_restart_def)
  have "files ?m0 (ckpt_img p) = Some (ckpt_image K ctx sp es p)" using assms(6,8) by simp
  then obtain m1 where r: "restoreMemoryForImage K (ckpt_img p) ?m0 = Inr (0, Some ?st, m1)"
    "restored (image_segments K es p) ?m0 m1" "tracks (image_segments K es p) ?m0 m1"
    using restart_restores [OF assms(1) can assms(7)] by blast
  have less: "less_memory m1 = less_memory ?m0" by (rule restoreMemoryForImage_less [OF r(1)])
  have "files m1 = files (less_memory m1)" by (simp add: less_memory_def)
  then have pub: "published K ?info m1" using assms(5) by (simp add: published_def less) (simp add: less_memory_def)
  have "strstr (bytes_of ''--restore'') (bytes_of ''--restore'')" by (simp add: bytes_of_def)
  then have "loader_main K environ brk sp0 threadFs [prog, bytes_of ''--restore'', ckpt_img p] m =
      Inr (Restarted 0 [(fs_base p, ctx)], m1)"
    using assms(3) by (simp add: loader_main_def s restoreCheckpoint_def getNumRanks_def r(1) startRank_def restoreFs_def)
  then show thesis using that r(2,3) less pub by blast
qed

text \<open>
  C2. The whole life of an application: it starts, initialises MPI, checkpoints itself and ends; later the loader restores its image
  in a new process, with another lower half, and the thread that continues the saved context finds the
  counter where it was, says that it is restarted, initialises MPI through the new lower half, counts
  on to four and returns 0.
\<close>

theorem restarted_application_continues:
  fixes p p0 :: "'a app_scheme" and m :: "'b app_scheme"
  assumes "app_given K es ai p" "mpi_starts K resolved dlsym code p0 p" "resolved ''doCheckpoint''"
    and "target_main K resolved dlsym code args ai (Some ctx) sp argv p0 = Inr (0, p')"
    and "length ctx = k_sizeof_ucontext K" "files m (ckpt_img p) = files p' (ckpt_img p)"
    and "restart_given K dlsym' code' (saved_areas p (maps_areas K es)) m" "resolved' ''MPI_Init''"
  shows "\<exists>m1 m2. loader_main K environ brk sp0 threadFs [prog, bytes_of ''--restore'', ckpt_img p] m =
      Inr (Restarted 0 [(fs_base p, ctx)], m1) \<and>
    restarted_main K resolved' dlsym' code' args' ai ckptfd ctx sp (m1\<lparr>fs_base := fs_base p\<rparr>) = Inr (0, m2) \<and>
    app_out m2 = app_out m @ restart_text"
proof -
  note g = assms(1) [unfolded app_given_def] and rg = assms(7) [unfolded restart_given_def]
  let ?p = "app_at_checkpoint ai argv p" and ?info = "wrapper_info K (fs_base m)"
  have img: "files m (ckpt_img p) = Some (ckpt_image K ctx sp es ?p)"
    using target_main_runs [OF assms(2), of ai es args ctx sp argv] g assms(3,4,6) mpi_starts_fields [OF assms(2)]
    by (auto simp: get_state_def peek_def)
  obtain m0 m1 where m1: "loader_main K environ brk sp0 threadFs [prog, bytes_of ''--restore'', ckpt_img ?p] m =
      Inr (Restarted 0 [(fs_base ?p, ctx)], m1)"
    "restored (image_segments K es ?p) m0 m1" "less_memory m1 = less_memory m0" "published K ?info m1"
    "\<exists>fs. m0 = m\<lparr>lhInfo := ?info, files := fs\<rparr>"
    by (rule restart_loads [of K es ?p m ctx sp environ brk sp0 threadFs prog])
       (use g rg assms(5) img in \<open>simp_all add: can_checkpoint_app\<close>)
  let ?m = "m1\<lparr>fs_base := fs_base p\<rparr>"
  let ?r = "set_state K RUNNING (?m\<lparr>initialized := False\<rparr>)"
  have vars: "peek m1 ai 4 = peek (frozen K ?p) ai 4"
    using restored_variable [OF m1(2)] g by (simp add: can_checkpoint_app)
  have "get_state K m1 = CkptOrRestore_code POST_RESTART"
    using restored_state [OF m1(2)] g by (simp add: can_checkpoint_app)
  then have st: "get_state K ?m = CkptOrRestore_code POST_RESTART" by (simp add: get_state_def peek_def)
  have "get_i ai (frozen K ?p) = get_i ai ?p"
    using g by (simp add: frozen_def i_apart_simps(1))
  moreover have "get_i ai m1 = get_i ai (frozen K ?p)" by (simp only: get_i_def vars)
  ultimately have "get_i ai m1 = 2" by simp
  then have i: "get_i ai ?m = 2" by simp
  have after: "restarted_main K resolved' dlsym' code' args' ai ckptfd ctx sp ?m =
      main_after K resolved' dlsym' code' args' ai (CkptOrRestore_code POST_RESTART) ?r"
    using st by (simp add: restarted_main_def handler_after_getcontext_def reset_wrappers_def report_state_def)
       (simp add: get_state_def peek_def)
  have ri: "get_i ai ?r = 2" using i g by (simp add: i_apart_simps(1))
  have pub: "published K ?info ?r" using m1(4) by (simp add: published_def)
  have rest: "\<not> initialized ?r" "fs_base ?r = fs_base p" "app_out ?r = app_out m1"
    by (simp_all add: set_state_def poke_def)
  have "app_out m1 = app_out (less_memory m1)" by (simp add: less_memory_def)
  also have "\<dots> = app_out m" using m1(5) by (auto simp: m1(3)) (simp add: less_memory_def)
  finally have out: "app_out ?r = app_out m" by (simp add: rest(3))
  have lh: "lower_half_code K (lhDlsym ?info) dlsym' code'" using rg by (simp add: wrapper_info_def)
  have fs: "k_set_fs K (fs_base ?r)" using g rest(2) by simp
  obtain m2 where "main_after K resolved' dlsym' code' args' ai (CkptOrRestore_code POST_RESTART) ?r = Inr (0, m2)"
    "app_out m2 = app_out ?r @ restart_text"
    using main_after_restart [OF ri pub rest(1) lh fs, where resolved = resolved'] assms(8) by blast
  then show ?thesis using m1(1) after out by auto
qed

text \<open>
  The application of one page, started, checkpointed and restarted; the kernel is that of the checkpoint, with the
  addresses of the lower half's table and functions apart.
\<close>

definition app_restart :: app where
  "app_restart = process.extend (restart_process\<lparr>files := [bytes_of ''./rank_0_ckpt.img'' \<mapsto>
     ckpt_image ckpt_kernel (replicate 968 1) 0x7ffe0000 (page_entries one_page)
       (app_at_checkpoint 0x600020 [bytes_of ''t.exe''] app_process)]\<rparr>) \<lparr>app_out = []\<rparr>"

theorem restarted_application_continues_witness:
  "\<exists>m1 m2. loader_main ckpt_kernel 0 0 0 (\<lambda>i. 0x3000) [bytes_of ''simgrid.exe'', bytes_of ''--restore'', bytes_of ''./rank_0_ckpt.img'']
      app_restart = Inr (Restarted 0 [(0x1000, replicate 968 1)], m1) \<and>
    restarted_main ckpt_kernel (\<lambda>f. True) (\<lambda>p. lhDlsym_fn ckpt_kernel) (\<lambda>p. lower_MPI) (0 :: u64, 0 :: u64) 0x600020
      \<lparr>content = [], pos = 0, answers = []\<rparr> (replicate 968 1) 0x7ffe0000 (m1\<lparr>fs_base := 0x1000\<rparr>) = Inr (0, m2) \<and>
    app_out m2 = restart_text"
proof -
  let ?K = ckpt_kernel and ?es = "page_entries one_page" and ?img = "bytes_of ''./rank_0_ckpt.img''"
  have areas: "saved_areas app_process (maps_areas ?K ?es) = [page_area]"
  proof -
    have "saved_areas app_process (maps_areas ?K ?es) = saved_areas ckpt_process (maps_areas ?K ?es)"
      by (rule can_checkpoint_cong) (simp_all add: app_process_def process.defs tracked_def getMmappedList_def)
    then show ?thesis by (simp add: saved_page)
  qed
  have fields: "ckpt_img app_process = ?img" "fs_base app_process = 0x1000" "app_out app_restart = []"
    by (simp_all add: app_process_def app_restart_def process.defs ckpt_process_def)
  have "in_area page_area (0x600000 + of_nat k + of_nat i)" if "i < 4" "k \<le> 0x20" for k i
  proof -
    have "unat (of_nat k + of_nat i :: u64) = k + i" using that by (simp add: unat_word_ariths unat_of_nat)
    then show ?thesis using that by (simp add: in_area_def in_range_def page_area_fields word_less_nat_alt add.assoc)
  qed
  from this [of _ "0x10"] this [of _ "0x20"]
  have "var_saved [page_area] 0x600010" "var_saved [page_area] 0x600020" by (simp_all add: var_saved_def)
  then have given: "app_given ?K ?es 0x600020 app_process"
    using app_process_ok areas fields
    by (simp add: app_given_def) (simp add: ckpt_kernel_def truthful_kernel_def plain_kernel_def LH_FILE_NAME_def bytes_of_def)
  obtain p' where run: "target_main ?K (\<lambda>f. True) (\<lambda>p. lhDlsym_fn ?K) (\<lambda>p. lower_MPI) (0 :: u64, 0 :: u64) 0x600020
      (Some (replicate 968 1)) 0x7ffe0000 [bytes_of ''t.exe''] app_start = Inr (0, p')"
    "files p' ?img = Some (ckpt_image ?K (replicate 968 1) 0x7ffe0000 ?es (app_at_checkpoint 0x600020 [bytes_of ''t.exe''] app_process))"
    using target_main_runs [OF app_process_ok(3,4) _ app_process_ok(1), of "(0, 0)" "replicate 968 1" "0x7ffe0000"
        "[bytes_of ''t.exe'']"] fields(1) app_start_fields app_process_ok(2) by auto
  have img: "files app_restart (ckpt_img app_process) = files p' (ckpt_img app_process)"
    using run(2) by (simp add: fields(1)) (simp add: app_restart_def process.defs)
  have "can_restart ?K [page_area] app_restart"
    using restart_process_can by (simp add: can_restart_def) (simp add: app_restart_def process.defs)
  then have "restart_given ?K (\<lambda>p. lhDlsym_fn ?K) (\<lambda>p. lower_MPI) [page_area] app_restart"
    by (simp add: restart_given_def lower_half_code_def)
       (simp add: ckpt_kernel_def truthful_kernel_def plain_kernel_def)
  from restarted_application_continues [OF given app_process_ok(3) _ run(1) ucontext_size img, unfolded areas, OF _ this,
      of "\<lambda>f. True" 0 0 0 "\<lambda>i. 0x3000" "bytes_of ''simgrid.exe''" "(0, 0)" "\<lparr>content = [], pos = 0, answers = []\<rparr>"]
  show ?thesis by (simp add: fields)
qed

section \<open>A second checkpoint after a restart\<close>
























end
